(* ===== verification/Prelude.thy ===== *)
theory Prelude
  imports Main "HOL-Library.Word"
begin

unbundle bit_operations_syntax

text \<open>
  Shared vocabulary of the development: the machine types of the C++ code, byte strings,
  windows of byte strings and the way an integer is laid out in memory.

  A \<^verbatim>\<open>std::string\<close> or \<^verbatim>\<open>std::string_view\<close> that carries wire data is a list of bytes; one that
  carries a name or a diagnostic is a HOL string. A \<^verbatim>\<open>std::size_t\<close> that measures such a
  value is a natural number below \<open>2 ^ 64\<close>; where the code can leave that range the
  wrap-around is written out.
\<close>

type_synonym byte = "8 word"
type_synonym bytes = "byte list"
type_synonym u16 = "16 word"
type_synonym u32 = "32 word"
type_synonym u64 = "64 word"

text \<open>The collections the component theories extend: normalising facts of the wire layer,
  and preservation facts of the state machines.\<close>

named_theorems wire "equations of the wire format"
named_theorems keeps "facts stating that an operation keeps an invariant"

abbreviation SIZE_MAX :: nat where "SIZE_MAX \<equiv> 2 ^ 64 - 1"
abbreviation UINT32_MAX :: nat where "UINT32_MAX \<equiv> 2 ^ 32 - 1"
abbreviation INT_MAX :: nat where "INT_MAX \<equiv> 2 ^ 31 - 1"

section \<open>Byte windows\<close>

text \<open>\<open>sub_bytes off n buf\<close> is \<^verbatim>\<open>buf.substr(off, n)\<close>; \<open>write_at buf off bs\<close> is a
  \<^verbatim>\<open>memcpy\<close> of \<open>bs\<close> to \<^verbatim>\<open>&buf[off]\<close>.\<close>

definition sub_bytes :: "nat \<Rightarrow> nat \<Rightarrow> 'a list \<Rightarrow> 'a list" where
  "sub_bytes off n buf = take n (drop off buf)"

definition write_at :: "'a list \<Rightarrow> nat \<Rightarrow> 'a list \<Rightarrow> 'a list" where
  "write_at buf off bs = take off buf @ bs @ drop (off + length bs) buf"

lemma length_sub_bytes [simp]: "length (sub_bytes off n buf) = min n (length buf - off)"
  by (simp add: sub_bytes_def)

lemma length_write_at [simp]:
  "off + length bs \<le> length buf \<Longrightarrow> length (write_at buf off bs) = length buf"
  by (simp add: write_at_def)

lemma sub_bytes_append_left:
  "off + n \<le> length xs \<Longrightarrow> sub_bytes off n (xs @ ys) = sub_bytes off n xs"
  by (simp add: sub_bytes_def)

lemma sub_bytes_append_right:
  "length xs \<le> off \<Longrightarrow> sub_bytes off n (xs @ ys) = sub_bytes (off - length xs) n ys"
  by (simp add: sub_bytes_def)

lemma sub_bytes_zero [simp]: "sub_bytes 0 n xs = take n xs"
  by (simp add: sub_bytes_def)

lemma sub_bytes_take: "off + n \<le> m \<Longrightarrow> sub_bytes off n (take m xs) = sub_bytes off n xs"
  by (simp add: sub_bytes_def drop_take min_def)

text \<open>Consecutive copies that start where the previous one ended concatenate.\<close>

lemma write_at_next:
  "length pre = off \<Longrightarrow>
     write_at (pre @ drop off buf) off bs = (pre @ bs) @ drop (off + length bs) buf"
  by (simp add: write_at_def add.commute)

lemma write_at_start: "write_at buf 0 bs = bs @ drop (length bs) buf"
  by (simp add: write_at_def)

section \<open>Integers in memory\<close>

text \<open>\<open>le_bytes n w\<close> lists the \<open>n\<close> low-order bytes of \<open>w\<close>, least significant first;
  \<open>le_word\<close> reads such a list back.\<close>

definition le_bytes :: "nat \<Rightarrow> 'a::len word \<Rightarrow> bytes" where
  "le_bytes n w = map (\<lambda>i. ucast (drop_bit (8 * i) w)) [0..<n]"

primrec le_word :: "bytes \<Rightarrow> 'a::len word" where
  "le_word [] = 0"
| "le_word (b # bs) = ucast b OR push_bit 8 (le_word bs)"

definition be_bytes :: "nat \<Rightarrow> 'a::len word \<Rightarrow> bytes" where
  "be_bytes n w = rev (le_bytes n w)"

definition be_word :: "bytes \<Rightarrow> 'a::len word" where
  "be_word bs = le_word (rev bs)"

lemma length_le_bytes [simp]: "length (le_bytes n w) = n"
  by (simp add: le_bytes_def)

lemma length_be_bytes [simp]: "length (be_bytes n w) = n"
  by (simp add: be_bytes_def)

lemma bit_le_bytes:
  "k < n \<Longrightarrow> bit (le_bytes n w ! k) j \<longleftrightarrow> j < 8 \<and> bit w (8 * k + j)"
  by (simp add: le_bytes_def bit_simps)

lemma bit_le_word:
  "bit (le_word bs :: 'a::len word) i \<longleftrightarrow>
     i < LENGTH('a) \<and> i div 8 < length bs \<and> bit (bs ! (i div 8)) (i mod 8)"
proof (induction bs arbitrary: i)
  case Nil
  then show ?case by simp
next
  case (Cons b bs)
  show ?case
  proof (cases "i < 8")
    case True
    then show ?thesis by (simp add: bit_simps)
  next
    case False
    then obtain j where i: "i = j + 8" by (metis add.commute le_Suc_ex not_less)
    have "\<not> bit b i" using False by (auto dest: bit_imp_le_length)
    moreover have "(j + 8) div 8 = Suc (j div 8)" by simp
    ultimately show ?thesis using i by (auto simp: bit_simps Cons.IH)
  qed
qed

lemma le_word_le_bytes:
  assumes "LENGTH('a::len) \<le> 8 * n"
  shows "le_word (le_bytes n w) = (w :: 'a word)"
proof (rule bit_word_eqI)
  fix i assume "i < LENGTH('a)"
  with assms have "i div 8 < n" by simp
  moreover have "8 * (i div 8) + i mod 8 = i" by simp
  ultimately show "bit (le_word (le_bytes n w) :: 'a word) i \<longleftrightarrow> bit w i"
    using \<open>i < LENGTH('a)\<close> by (simp add: bit_le_word bit_le_bytes)
qed

lemma le_bytes_le_word:
  assumes "length bs = n" and "8 * n \<le> LENGTH('a::len)"
  shows "le_bytes n (le_word bs :: 'a word) = bs"
proof (rule nth_equalityI)
  show "length (le_bytes n (le_word bs :: 'a word)) = length bs" using assms by simp
next
  fix k assume "k < length (le_bytes n (le_word bs :: 'a word))"
  then have k: "k < n" by simp
  show "le_bytes n (le_word bs :: 'a word) ! k = bs ! k"
  proof (rule bit_word_eqI)
    fix j assume "j < LENGTH(8)"
    then have j: "j < 8" by simp
    have "8 * k + j < LENGTH('a)" using k j assms(2) by linarith
    moreover have "(8 * k + j) div 8 = k" "(8 * k + j) mod 8 = j" using j by simp_all
    ultimately show "bit (le_bytes n (le_word bs :: 'a word) ! k) j \<longleftrightarrow> bit (bs ! k) j"
      using k j assms(1) by (simp add: bit_le_bytes bit_le_word)
  qed
qed

lemma be_word_be_bytes [simp]:
  "LENGTH('a::len) \<le> 8 * n \<Longrightarrow> be_word (be_bytes n w) = (w :: 'a word)"
  by (simp add: be_word_def be_bytes_def le_word_le_bytes)

section \<open>Sums over the elements of a list\<close>

abbreviation list_total :: "('a \<Rightarrow> 'b :: comm_monoid_add) \<Rightarrow> 'a list \<Rightarrow> 'b" where
  "list_total f xs \<equiv> sum_list (map f xs)"

text \<open>Changing one element, without subtraction.\<close>

lemma list_total_update:
  "i < length xs \<Longrightarrow> list_total f (xs[i := x]) + f (xs ! i) = list_total f xs + f x"
  by (induction xs arbitrary: i) (auto simp: ac_simps split: nat.split)

lemma list_total_same: "i < length xs \<Longrightarrow> f x = f (xs ! i) \<Longrightarrow> list_total f (xs[i := x]) = list_total f xs"
  by (induction xs arbitrary: i) (auto split: nat.split)

lemma list_total_zero: "sum_list (replicate n 0) = (0 :: 'b :: comm_monoid_add)"
  by (induction n) simp_all

lemma list_total_member: "i < length xs \<Longrightarrow> f (xs ! i) \<le> (list_total f xs :: nat)"
  by (rule member_le_sum_list) simp_all

end
