(* ===== verification/Status.thy ===== *)
theory Status
  imports Prelude
begin

text \<open>
  \<^verbatim>\<open>include/xrpc/status.h\<close> and \<^verbatim>\<open>src/common/xrpc_exception.cpp\<close>: status codes with their
  stable wire values, \<^verbatim>\<open>Status\<close>, \<^verbatim>\<open>StatusOr\<close> and the translation of the exception being
  handled into a status.
\<close>

section \<open>Status codes and Status\<close>

datatype status_code =
    Ok
  | InvalidArgument
  | DeadlineExceeded
  | NotFound
  | ResourceExhausted
  | FailedPrecondition
  | Unimplemented
  | Internal
  | Unavailable
  | DataLoss

text \<open>The enumerator's value, the underlying type being \<^verbatim>\<open>std::uint8_t\<close>.\<close>

fun status_code_value :: "status_code \<Rightarrow> byte" where
  "status_code_value Ok = 0"
| "status_code_value InvalidArgument = 2"
| "status_code_value DeadlineExceeded = 3"
| "status_code_value NotFound = 4"
| "status_code_value ResourceExhausted = 7"
| "status_code_value FailedPrecondition = 8"
| "status_code_value Unimplemented = 9"
| "status_code_value Internal = 10"
| "status_code_value Unavailable = 11"
| "status_code_value DataLoss = 12"

record status =
  st_code :: status_code
  st_message :: string

definition Status :: "status_code \<Rightarrow> string \<Rightarrow> status" where
  "Status c m = \<lparr>st_code = c, st_message = m\<rparr>"

definition status_Ok :: status where
  "status_Ok = Status Ok []"

definition status_ok :: "status \<Rightarrow> bool" where
  "status_ok s \<longleftrightarrow> st_code s = Ok"

lemma Status_simps [simp]:
  "st_code (Status c m) = c" "st_message (Status c m) = m"
  "Status c m = Status c' m' \<longleftrightarrow> c = c' \<and> m = m'"
  by (auto simp: Status_def)

lemma status_ok_Status [simp]: "status_ok (Status c m) \<longleftrightarrow> c = Ok"
  by (simp add: status_ok_def)

lemma status_ok_Ok [simp]: "status_ok status_Ok"
  by (simp add: status_Ok_def)

lemma Status_collapse [simp]: "Status (st_code s) (st_message s) = s"
  by (simp add: Status_def)

lemma status_code_value_inject [simp]:
  "status_code_value c = status_code_value d \<longleftrightarrow> c = d"
  by (cases c; cases d) simp_all

section \<open>StatusOr\<close>

text \<open>
  A \<^verbatim>\<open>StatusOr<T>\<close> is built from a value or from a status. Building it from an OK status
  terminates the process, so \<open>wf_status_or\<close> is what every operation has to establish of the
  results it returns.
\<close>

datatype 'a status_or = Value (the_value: 'a) | Error (the_error: status)

fun so_ok :: "'a status_or \<Rightarrow> bool" where
  "so_ok (Value _) = True"
| "so_ok (Error s) = status_ok s"

fun so_status :: "'a status_or \<Rightarrow> status" where
  "so_status (Value _) = status_Ok"
| "so_status (Error s) = s"

fun wf_status_or :: "'a status_or \<Rightarrow> bool" where
  "wf_status_or (Value _) = True"
| "wf_status_or (Error s) = (\<not> status_ok s)"

text \<open>Calling \<^verbatim>\<open>value()\<close> on a result without a value terminates; here it is \<open>None\<close>.\<close>

fun so_value :: "'a status_or \<Rightarrow> 'a option" where
  "so_value (Value v) = Some v"
| "so_value (Error _) = None"

lemma wf_status_or_value:
  "wf_status_or r \<Longrightarrow> so_ok r \<longleftrightarrow> (\<exists>v. so_value r = Some v)"
  by (cases r) auto

section \<open>Exceptions\<close>

text \<open>
  What a C++ \<^verbatim>\<open>catch\<close> clause can tell apart: an \<^verbatim>\<open>XrpcException\<close> with its code, the standard
  exceptions the translator names, any other \<^verbatim>\<open>std::exception\<close>, and anything else.
\<close>

datatype cxx_exception =
    XrpcException status_code string
  | BadAlloc
  | StdInvalidArgument string
  | StdException string
  | NonStandard

definition ConfigException :: "string \<Rightarrow> cxx_exception" where
  "ConfigException m = XrpcException InvalidArgument m"

definition LifecycleException :: "string \<Rightarrow> cxx_exception" where
  "LifecycleException m = XrpcException FailedPrecondition m"

definition InternalException :: "string \<Rightarrow> cxx_exception" where
  "InternalException m = XrpcException Internal m"

text \<open>\<open>CaughtExceptionToStatus c m e\<close>: \<open>e\<close> is \<^verbatim>\<open>std::current_exception()\<close>.\<close>

fun CaughtExceptionToStatus :: "status_code \<Rightarrow> string \<Rightarrow> cxx_exception option \<Rightarrow> status" where
  "CaughtExceptionToStatus c m None = Status Internal ''no active exception''"
| "CaughtExceptionToStatus c m (Some (XrpcException xc xm)) = Status xc xm"
| "CaughtExceptionToStatus c m (Some BadAlloc) =
     Status ResourceExhausted ''memory allocation failed''"
| "CaughtExceptionToStatus c m (Some (StdInvalidArgument w)) = Status InvalidArgument w"
| "CaughtExceptionToStatus c m (Some (StdException w)) = Status Internal w"
| "CaughtExceptionToStatus c m (Some NonStandard) = Status c m"

text \<open>No exception class of the code base carries the OK code.\<close>

fun failing_exception :: "cxx_exception \<Rightarrow> bool" where
  "failing_exception (XrpcException c _) = (c \<noteq> Ok)"
| "failing_exception _ = True"

lemma CaughtExceptionToStatus_not_ok:
  "failing_exception e \<Longrightarrow> c \<noteq> Ok \<Longrightarrow> \<not> status_ok (CaughtExceptionToStatus c m (Some e))"
  by (cases e) auto

end
