(* ===== verification/Frame_Header.thy ===== *)
theory Frame_Header
  imports Prelude
begin

text \<open>
  \<^verbatim>\<open>src/protocol/frame_header.cpp\<close>: the fixed 24-byte prefix of every frame. The code converts
  each field with \<^verbatim>\<open>htonl\<close>/\<^verbatim>\<open>htons\<close>/\<^verbatim>\<open>HostToNetwork64\<close> and copies its memory image; the model
  does the same for both byte orders a host can have, so that the lemmas show that the wire
  image does not depend on the host.
\<close>

section \<open>Host byte order\<close>

datatype byte_order = LittleEndian | BigEndian

text \<open>The memory image of an \<open>n\<close>-byte integer, and the integer a memory image denotes.\<close>

fun mem_bytes :: "byte_order \<Rightarrow> nat \<Rightarrow> 'a::len word \<Rightarrow> bytes" where
  "mem_bytes LittleEndian n w = le_bytes n w"
| "mem_bytes BigEndian n w = be_bytes n w"

fun mem_word :: "byte_order \<Rightarrow> bytes \<Rightarrow> 'a::len word" where
  "mem_word LittleEndian bs = le_word bs"
| "mem_word BigEndian bs = be_word bs"

text \<open>The standard conversions: a byte swap on a little-endian host, nothing on a big-endian
  one. \<^verbatim>\<open>ntohl\<close> and \<^verbatim>\<open>ntohs\<close> are the same functions.\<close>

fun htonl :: "byte_order \<Rightarrow> u32 \<Rightarrow> u32" where
  "htonl LittleEndian x = le_word (be_bytes 4 x)"
| "htonl BigEndian x = x"

fun htons :: "byte_order \<Rightarrow> u16 \<Rightarrow> u16" where
  "htons LittleEndian x = le_word (be_bytes 2 x)"
| "htons BigEndian x = x"

fun HostToNetwork64 :: "byte_order \<Rightarrow> u64 \<Rightarrow> u64" where
  "HostToNetwork64 BigEndian x = x"
| "HostToNetwork64 LittleEndian x =
     push_bit 32 (ucast (htonl LittleEndian (ucast (x AND 0xFFFFFFFF)))) OR
     ucast (htonl LittleEndian (ucast (drop_bit 32 x)))"

definition NetworkToHost64 :: "byte_order \<Rightarrow> u64 \<Rightarrow> u64" where
  "NetworkToHost64 e x = HostToNetwork64 e x"

section \<open>The header\<close>

text \<open>\<^verbatim>\<open>MessageType\<close> has the fixed underlying type \<^verbatim>\<open>std::uint8_t\<close>, so a cast can produce any
  byte; the two enumerators are values of it.\<close>

type_synonym message_type = byte

definition Request :: message_type where "Request = 1"
definition Response :: message_type where "Response = 2"

definition MAGIC :: u32 where "MAGIC = 0x58525043"
definition VERSION :: byte where "VERSION = 1"
definition HEADER_SIZE :: nat where "HEADER_SIZE = 24"

record frame_header =
  magic :: u32
  version :: byte
  message_type :: message_type
  flags :: u16
  metadata_size :: u32
  payload_size :: u32
  request_id :: u64

definition default_header :: frame_header where
  "default_header = \<lparr>magic = MAGIC, version = VERSION, message_type = Request, flags = 0,
     metadata_size = 0, payload_size = 0, request_id = 0\<rparr>"

text \<open>\<open>EncodeTo e h buffer\<close> is the buffer after the call.\<close>

definition EncodeTo :: "byte_order \<Rightarrow> frame_header \<Rightarrow> bytes \<Rightarrow> bytes" where
  "EncodeTo e h buffer =
    (let network_magic = htonl e (magic h);
         network_metadata_size = htonl e (metadata_size h);
         network_payload_size = htonl e (payload_size h);
         network_request_id = HostToNetwork64 e (request_id h);
         b0 = write_at buffer 0 (mem_bytes e 4 network_magic);
         b1 = write_at b0 4 [version h];
         b2 = write_at b1 5 [message_type h];
         network_flags = htons e (flags h);
         b3 = write_at b2 6 (mem_bytes e 2 network_flags);
         b4 = write_at b3 8 (mem_bytes e 4 network_metadata_size);
         b5 = write_at b4 12 (mem_bytes e 4 network_payload_size)
     in write_at b5 16 (mem_bytes e 8 network_request_id))"

definition Decode_header :: "byte_order \<Rightarrow> bytes \<Rightarrow> frame_header option" where
  "Decode_header e buf =
    (if length buf < HEADER_SIZE then None
     else let m = htonl e (mem_word e (sub_bytes 0 4 buf))
       in if m \<noteq> MAGIC then None
          else Some \<lparr>magic = m, version = buf ! 4, message_type = buf ! 5,
            flags = htons e (mem_word e (sub_bytes 6 2 buf)),
            metadata_size = htonl e (mem_word e (sub_bytes 8 4 buf)),
            payload_size = htonl e (mem_word e (sub_bytes 12 4 buf)),
            request_id = NetworkToHost64 e (mem_word e (sub_bytes 16 8 buf))\<rparr>)"

section \<open>The wire image\<close>

text \<open>The documented layout: big-endian fields in order, whatever the host.\<close>

definition wire_header :: "frame_header \<Rightarrow> bytes" where
  "wire_header h = be_bytes 4 (magic h) @ [version h, message_type h] @ be_bytes 2 (flags h) @
     be_bytes 4 (metadata_size h) @ be_bytes 4 (payload_size h) @ be_bytes 8 (request_id h)"

lemma length_wire_header [simp]: "length (wire_header h) = HEADER_SIZE"
  by (simp add: wire_header_def HEADER_SIZE_def)

lemma htonl_image [wire]: "mem_bytes e 4 (htonl e x) = be_bytes 4 x"
  by (cases e) (simp_all add: le_bytes_le_word)

lemma htons_image [wire]: "mem_bytes e 2 (htons e x) = be_bytes 2 x"
  by (cases e) (simp_all add: le_bytes_le_word)

text \<open>The two-halves conversion of \<^verbatim>\<open>HostToNetwork64\<close> is the 64-bit byte swap.\<close>

lemma bit_swap32:
  fixes x :: u32
  shows "bit (le_word (be_bytes 4 x) :: u32) i \<longleftrightarrow> i < 32 \<and> bit x (8 * (3 - i div 8) + i mod 8)"
proof (cases "i < 32")
  case True
  then have "i div 8 < 4" by simp
  then show ?thesis
    by (simp add: bit_le_word be_bytes_def rev_nth bit_le_bytes True)
next
  case False
  then show ?thesis by (simp add: bit_le_word)
qed

lemma bit_swap64:
  fixes x :: u64
  shows "bit (le_word (be_bytes 8 x) :: u64) i \<longleftrightarrow> i < 64 \<and> bit x (8 * (7 - i div 8) + i mod 8)"
proof (cases "i < 64")
  case True
  then have "i div 8 < 8" by simp
  then show ?thesis
    by (simp add: bit_le_word be_bytes_def rev_nth bit_le_bytes True)
next
  case False
  then show ?thesis by (simp add: bit_le_word)
qed

lemma ucast_low_half: "ucast ((x :: u64) AND 0xFFFFFFFF) = (ucast x :: u32)"
proof -
  have "(0xFFFFFFFF :: u64) = mask 32" by (simp add: mask_eq_exp_minus_1)
  then have "x AND 0xFFFFFFFF = take_bit 32 x" by (simp only: take_bit_eq_mask)
  moreover have "ucast (take_bit 32 x) = (ucast x :: u32)"
    by (rule bit_word_eqI) (simp add: bit_simps)
  ultimately show ?thesis by (simp only:)
qed

lemma HostToNetwork64_swap: "HostToNetwork64 LittleEndian x = le_word (be_bytes 8 x)"
proof (rule bit_word_eqI)
  fix i assume "i < LENGTH(64)"
  then have i: "i < 64" by simp
  show "bit (HostToNetwork64 LittleEndian x) i \<longleftrightarrow> bit (le_word (be_bytes 8 x) :: u64) i"
  proof (cases "i < 32")
    case True
    obtain k where k: "8 * (3 - i div 8) + i mod 8 = k" by blast
    have "i mod 8 < 8" by simp
    then have "k < 32" using k by linarith
    moreover have "i div 8 \<le> 3" using True by simp
    then have k7: "8 * (7 - i div 8) + i mod 8 = 32 + k" using k by linarith
    ultimately show ?thesis using True
      by (simp add: ucast_low_half bit_swap32 bit_simps k) (simp add: bit_swap64 k7)
  next
    case False
    obtain j where j: "i = 32 + j" using False by (metis le_Suc_ex not_less)
    obtain k where k: "8 * (3 - j div 8) + j mod 8 = k" by blast
    have "j mod 8 < 8" by simp
    then have "k < 32" using k by linarith
    moreover have k7: "8 * (7 - i div 8) + i mod 8 = k"
    proof -
      have "(32 + j) div 8 = 4 + j div 8" "(32 + j) mod 8 = j mod 8"
        using div_mult_self3[of 8 4 j] mod_mult_self4[of 8 4 j] by simp_all
      then show ?thesis using j k by simp
    qed
    ultimately show ?thesis using i j
      by (simp add: ucast_low_half bit_swap32 bit_simps k) (simp add: bit_swap64 k7)
  qed
qed

lemma HostToNetwork64_image [wire]: "mem_bytes e 8 (HostToNetwork64 e x) = be_bytes 8 x"
proof (cases e)
  case LittleEndian
  then show ?thesis by (simp only: HostToNetwork64_swap mem_bytes.simps) (simp add: le_bytes_le_word)
qed simp

lemma ntohl_image [wire]: "htonl e (mem_word e (be_bytes 4 x)) = x"
  by (cases e) (simp_all add: be_bytes_def le_bytes_le_word be_word_def le_word_le_bytes)

lemma ntohs_image [wire]: "htons e (mem_word e (be_bytes 2 x)) = x"
  by (cases e) (simp_all add: be_bytes_def le_bytes_le_word be_word_def le_word_le_bytes)

lemma NetworkToHost64_image [wire]: "NetworkToHost64 e (mem_word e (be_bytes 8 x)) = x"
proof (cases e)
  case LittleEndian
  have "le_bytes 8 (le_word (be_bytes 8 x) :: u64) = be_bytes 8 x"
    by (simp add: le_bytes_le_word)
  then show ?thesis using LittleEndian
    by (simp only: NetworkToHost64_def HostToNetwork64_swap mem_word.simps)
      (simp add: be_bytes_def le_word_le_bytes)
qed (simp add: NetworkToHost64_def)

text \<open>The seven copies of \<^verbatim>\<open>EncodeTo\<close> write the documented layout and nothing else.\<close>

lemma write_seven:
  assumes "length a = 4" "length d = 2" "length f = 4" "length g = 4" "length k = 8"
  shows "write_at (write_at (write_at (write_at (write_at (write_at (write_at buf 0 a) 4 [b])
           5 [c]) 6 d) 8 f) 12 g) 16 k = (a @ [b, c] @ d @ f @ g @ k) @ drop 24 buf"
  using assms write_at_next[of a 4 buf "[b]"] write_at_next[of "a @ [b]" 5 buf "[c]"]
    write_at_next[of "a @ [b, c]" 6 buf d] write_at_next[of "a @ [b, c] @ d" 8 buf f]
    write_at_next[of "a @ [b, c] @ d @ f" 12 buf g]
    write_at_next[of "a @ [b, c] @ d @ f @ g" 16 buf k]
  by (simp add: write_at_start)

lemma EncodeTo_wire [wire]:
  "EncodeTo e h buffer = wire_header h @ drop HEADER_SIZE buffer"
  by (simp add: EncodeTo_def wire Let_def write_seven wire_header_def HEADER_SIZE_def)

lemma nth_wire_header:
  "wire_header h ! 4 = version h" "wire_header h ! 5 = message_type h"
  by (simp_all add: wire_header_def nth_append)

lemma sub_wire_header:
  "sub_bytes 0 4 (wire_header h) = be_bytes 4 (magic h)"
  "sub_bytes 6 2 (wire_header h) = be_bytes 2 (flags h)"
  "sub_bytes 8 4 (wire_header h) = be_bytes 4 (metadata_size h)"
  "sub_bytes 12 4 (wire_header h) = be_bytes 4 (payload_size h)"
  "sub_bytes 16 8 (wire_header h) = be_bytes 8 (request_id h)"
  by (simp_all add: wire_header_def sub_bytes_def)

lemma Decode_wire_header [wire]:
  "Decode_header e (wire_header h @ rest) = (if magic h = MAGIC then Some h else None)"
  by (simp add: Decode_header_def HEADER_SIZE_def wire sub_bytes_append_left
      sub_wire_header sub_wire_header(1)[simplified] nth_wire_header nth_append Let_def)

text \<open>Only the first 24 bytes matter.\<close>

lemma Decode_header_take: "Decode_header e (take HEADER_SIZE buf) = Decode_header e buf"
  by (simp add: Decode_header_def HEADER_SIZE_def sub_bytes_take Let_def)

lemma Decode_header_append:
  "HEADER_SIZE \<le> length buf \<Longrightarrow> Decode_header e (buf @ rest) = Decode_header e buf"
  by (metis Decode_header_take take_append diff_is_0_eq take_0 append_Nil2)

text \<open>A decoded header is the wire image it was read from: the two functions are inverse.\<close>

lemma mem_word_image:
  "length bs = 4 \<Longrightarrow> be_bytes 4 (htonl e (mem_word e bs)) = bs"
  "length bs = 2 \<Longrightarrow> be_bytes 2 (htons e (mem_word e bs)) = bs"
  by (cases e; simp add: be_bytes_def be_word_def le_bytes_le_word)+

section \<open>Properties\<close>

text \<open>C21. The header codec is host independent: whatever the byte orders of the encoding and of
  the decoding machine, \<^verbatim>\<open>EncodeTo\<close> writes exactly the 24 documented big-endian bytes and leaves
  the rest of the caller's buffer alone, and \<^verbatim>\<open>Decode\<close> of that buffer gives every field back,
  or nothing when the magic number is not \<^verbatim>\<open>XRPC\<close>.\<close>

theorem header_round_trip:
  "EncodeTo e h buffer =
     be_bytes 4 (magic h) @ [version h, message_type h] @ be_bytes 2 (flags h) @
     be_bytes 4 (metadata_size h) @ be_bytes 4 (payload_size h) @ be_bytes 8 (request_id h) @
     drop 24 buffer \<and>
   Decode_header e' (EncodeTo e h buffer) = (if magic h = MAGIC then Some h else None)"
  by (simp add: EncodeTo_wire Decode_wire_header) (simp add: wire_header_def HEADER_SIZE_def)

end
