(* ===== verification/Frame_Codec.thy ===== *)
theory Frame_Codec
  imports Status Frame_Header
begin

text \<open>
  \<^verbatim>\<open>src/protocol/frame_codec.cpp\<close>: complete frames. The Protobuf classes of the metadata
  section are generated from \<^verbatim>\<open>frame_metadata.proto\<close> by the build, so their serialisers and
  parsers are a parameter of the codec (\<open>codec_env\<close>), as is the host's byte order.
\<close>

section \<open>Envelopes, limits and the generated metadata classes\<close>

record request_envelope =
  req_id :: u64
  service_name :: string
  method_name :: string
  req_payload :: bytes

record response_envelope =
  resp_id :: u64
  resp_status :: status
  resp_payload :: bytes

record protocol_limits =
  max_metadata_size :: nat
  max_payload_size :: nat

definition DEFAULT_MAX_METADATA_SIZE :: nat where
  "DEFAULT_MAX_METADATA_SIZE = 64 * 1024"

definition DEFAULT_MAX_PAYLOAD_SIZE :: nat where
  "DEFAULT_MAX_PAYLOAD_SIZE = 4 * 1024 * 1024"

text \<open>
  \<open>ser_req s m\<close> is the return value of \<^verbatim>\<open>RequestMetadata::SerializeToString\<close> for the two
  fields and the contents of the output string; \<open>parse_req\<close> is \<^verbatim>\<open>ParseFromArray\<close> followed by
  the two accessors. The response class has an \<^verbatim>\<open>int32\<close> code and a text.
\<close>

record codec_env =
  host_order :: byte_order
  ser_req :: "string \<Rightarrow> string \<Rightarrow> bool \<times> bytes"
  parse_req :: "bytes \<Rightarrow> (string \<times> string) option"
  ser_resp :: "u32 \<Rightarrow> string \<Rightarrow> bool \<times> bytes"
  parse_resp :: "bytes \<Rightarrow> (u32 \<times> string) option"

datatype protocol_error =
    ProtoOk
  | NeedMoreData
  | InvalidMagic
  | UnsupportedVersion
  | InvalidMessageType
  | FrameTooLarge
  | DecodeError
  | EncodeError

record frame_decode_result =
  dec_error :: protocol_error
  consumed :: nat
  dec_request :: "request_envelope option"
  dec_response :: "response_envelope option"

section \<open>Sizes\<close>

definition MakeProtocolLimits :: "nat \<Rightarrow> protocol_limits status_or" where
  "MakeProtocolLimits n =
    (if n = 0 then
       Error (Status InvalidArgument ''protocol max_payload_size must be greater than 0'')
     else if n > UINT32_MAX then
       Error (Status InvalidArgument ''protocol max_payload_size must fit in uint32'')
     else Value \<lparr>max_metadata_size = DEFAULT_MAX_METADATA_SIZE, max_payload_size = n\<rparr>)"

definition FitsProtobufParseArray :: "bytes \<Rightarrow> bool" where
  "FitsProtobufParseArray bs \<longleftrightarrow> length bs \<le> INT_MAX"

text \<open>A \<^verbatim>\<open>std::uint64_t\<close> sum.\<close>

definition FrameSize :: "nat \<Rightarrow> nat \<Rightarrow> nat" where
  "FrameSize m p = (HEADER_SIZE + m + p) mod 2 ^ 64"

definition ValidateEncodedFrameSize :: "nat \<Rightarrow> nat \<Rightarrow> protocol_limits \<Rightarrow> status" where
  "ValidateEncodedFrameSize m p limits =
    (if m > UINT32_MAX \<or> m > max_metadata_size limits then
       Status ResourceExhausted ''protocol metadata exceeds configured limit''
     else if p > UINT32_MAX \<or> p > max_payload_size limits then
       Status ResourceExhausted ''protocol payload exceeds configured limit''
     else if FrameSize m p > SIZE_MAX then
       Status ResourceExhausted ''protocol frame exceeds the addressable size''
     else status_Ok)"

section \<open>Encoding\<close>

definition BuildFrame ::
  "codec_env \<Rightarrow> frame_header \<Rightarrow> bytes \<Rightarrow> bytes \<Rightarrow> protocol_limits \<Rightarrow> bytes status_or" where
  "BuildFrame env h metadata_bytes payload limits =
    (let size_status = ValidateEncodedFrameSize (length metadata_bytes) (length payload) limits
     in if \<not> status_ok size_status then Error size_status
        else let total_size = HEADER_SIZE + length metadata_bytes + length payload;
                 r0 = EncodeTo (host_order env) h (replicate total_size 0);
                 r1 = (if metadata_bytes = [] then r0
                       else write_at r0 HEADER_SIZE metadata_bytes);
                 r2 = (if payload = [] then r1
                       else write_at r1 (HEADER_SIZE + length metadata_bytes) payload)
             in Value r2)"

definition BuildRequestFrame ::
  "codec_env \<Rightarrow> request_envelope \<Rightarrow> protocol_limits \<Rightarrow> bytes status_or" where
  "BuildRequestFrame env request limits =
    (case ser_req env (service_name request) (method_name request) of
       (ok, metadata_bytes) \<Rightarrow>
         if \<not> ok then Error (Status Internal ''failed to encode request metadata'')
         else BuildFrame env
           (default_header\<lparr>message_type := Request, request_id := req_id request,
              metadata_size := of_nat (length metadata_bytes),
              payload_size := of_nat (length (req_payload request))\<rparr>)
           metadata_bytes (req_payload request) limits)"

text \<open>The return value of \<^verbatim>\<open>SerializeToString\<close> is ignored here, as in the code.\<close>

definition EncodeResponseMetadata :: "codec_env \<Rightarrow> response_envelope \<Rightarrow> bytes" where
  "EncodeResponseMetadata env response =
    (if st_code (resp_status response) = Ok \<and> st_message (resp_status response) = [] then []
     else snd (ser_resp env (ucast (status_code_value (st_code (resp_status response))))
                 (st_message (resp_status response))))"

definition BuildResponseFrame ::
  "codec_env \<Rightarrow> response_envelope \<Rightarrow> protocol_limits \<Rightarrow> bytes status_or" where
  "BuildResponseFrame env response limits =
    (let metadata_bytes = EncodeResponseMetadata env response
     in BuildFrame env
          (default_header\<lparr>message_type := Response, request_id := resp_id response,
             metadata_size := of_nat (length metadata_bytes),
             payload_size := of_nat (length (resp_payload response))\<rparr>)
          metadata_bytes (resp_payload response) limits)"

section \<open>Decoding\<close>

definition DecodeRequestEnvelope ::
  "codec_env \<Rightarrow> frame_header \<Rightarrow> bytes \<Rightarrow> bytes \<Rightarrow> request_envelope option" where
  "DecodeRequestEnvelope env h metadata_bytes payload =
    (if \<not> FitsProtobufParseArray metadata_bytes then None
     else case parse_req env metadata_bytes of
       None \<Rightarrow> None
     | Some (s, m) \<Rightarrow> Some \<lparr>req_id = request_id h, service_name = s, method_name = m,
                           req_payload = payload\<rparr>)"

text \<open>\<^verbatim>\<open>static_cast<StatusCode>(code)\<close> converts the \<^verbatim>\<open>int32\<close> to the underlying \<^verbatim>\<open>uint8_t\<close>
  before the \<^verbatim>\<open>switch\<close> looks at it.\<close>

definition DecodeStatus :: "u32 \<Rightarrow> string \<Rightarrow> status" where
  "DecodeStatus wire_code text =
    (let c = (ucast wire_code :: byte)
     in if c = status_code_value Ok then status_Ok
        else if c = status_code_value InvalidArgument then Status InvalidArgument text
        else if c = status_code_value DeadlineExceeded then Status DeadlineExceeded text
        else if c = status_code_value NotFound then Status NotFound text
        else if c = status_code_value ResourceExhausted then Status ResourceExhausted text
        else if c = status_code_value FailedPrecondition then Status FailedPrecondition text
        else if c = status_code_value Unimplemented then Status Unimplemented text
        else if c = status_code_value Internal then Status Internal text
        else if c = status_code_value Unavailable then Status Unavailable text
        else if c = status_code_value DataLoss then Status DataLoss text
        else Status DataLoss ''response contains an invalid RPC status code'')"

definition DecodeResponseEnvelope ::
  "codec_env \<Rightarrow> frame_header \<Rightarrow> bytes \<Rightarrow> bytes \<Rightarrow> response_envelope option" where
  "DecodeResponseEnvelope env h metadata_bytes payload =
    (if \<not> FitsProtobufParseArray metadata_bytes then None
     else case parse_resp env metadata_bytes of
       None \<Rightarrow> None
     | Some (c, t) \<Rightarrow> Some \<lparr>resp_id = request_id h, resp_status = DecodeStatus c t,
                           resp_payload = payload\<rparr>)"

record frame_view =
  fv_error :: protocol_error
  fv_consumed :: nat
  fv_header :: frame_header
  fv_metadata :: bytes
  fv_payload :: bytes

definition view_error :: "protocol_error \<Rightarrow> frame_view" where
  "view_error e = \<lparr>fv_error = e, fv_consumed = 0, fv_header = default_header,
     fv_metadata = [], fv_payload = []\<rparr>"

definition ReadFrame :: "codec_env \<Rightarrow> bytes \<Rightarrow> protocol_limits \<Rightarrow> frame_view" where
  "ReadFrame env buf limits =
    (if length buf < HEADER_SIZE then view_error NeedMoreData
     else case Decode_header (host_order env) (sub_bytes 0 HEADER_SIZE buf) of
       None \<Rightarrow> view_error InvalidMagic
     | Some h \<Rightarrow>
         if version h \<noteq> VERSION then view_error UnsupportedVersion
         else if unat (metadata_size h) > max_metadata_size limits \<or>
                 unat (payload_size h) > max_payload_size limits \<or>
                 FrameSize (unat (metadata_size h)) (unat (payload_size h)) > SIZE_MAX
           then view_error FrameTooLarge
         else let total = HEADER_SIZE + unat (metadata_size h) + unat (payload_size h)
           in if length buf < total then view_error NeedMoreData
              else \<lparr>fv_error = ProtoOk, fv_consumed = total, fv_header = h,
                fv_metadata = sub_bytes HEADER_SIZE (unat (metadata_size h)) buf,
                fv_payload = sub_bytes (HEADER_SIZE + unat (metadata_size h))
                               (unat (payload_size h)) buf\<rparr>)"

definition decode_failure :: "protocol_error \<Rightarrow> nat \<Rightarrow> frame_decode_result" where
  "decode_failure e n = \<lparr>dec_error = e, consumed = n, dec_request = None, dec_response = None\<rparr>"

definition Encode_request ::
  "codec_env \<Rightarrow> protocol_limits \<Rightarrow> request_envelope \<Rightarrow> bytes status_or" where
  "Encode_request env limits request = BuildRequestFrame env request limits"

definition Encode_response ::
  "codec_env \<Rightarrow> protocol_limits \<Rightarrow> response_envelope \<Rightarrow> bytes status_or" where
  "Encode_response env limits response = BuildResponseFrame env response limits"

definition Decode :: "codec_env \<Rightarrow> protocol_limits \<Rightarrow> bytes \<Rightarrow> frame_decode_result" where
  "Decode env limits buf =
    (let frame = ReadFrame env buf limits
     in if fv_error frame \<noteq> ProtoOk then decode_failure (fv_error frame) (fv_consumed frame)
        else if message_type (fv_header frame) = Request then
          (case DecodeRequestEnvelope env (fv_header frame) (fv_metadata frame)
                  (fv_payload frame) of
             None \<Rightarrow> decode_failure DecodeError (fv_consumed frame)
           | Some r \<Rightarrow> \<lparr>dec_error = ProtoOk, consumed = fv_consumed frame,
                        dec_request = Some r, dec_response = None\<rparr>)
        else if message_type (fv_header frame) = Response then
          (case DecodeResponseEnvelope env (fv_header frame) (fv_metadata frame)
                  (fv_payload frame) of
             None \<Rightarrow> decode_failure DecodeError (fv_consumed frame)
           | Some r \<Rightarrow> \<lparr>dec_error = ProtoOk, consumed = fv_consumed frame,
                        dec_request = None, dec_response = Some r\<rparr>)
        else decode_failure InvalidMessageType (fv_consumed frame))"

section \<open>Shape of encoded frames\<close>

text \<open>What the size check accepts; its third branch is never taken, the sum of two 32-bit
  sizes and 24 being far below \<open>2 ^ 64\<close>.\<close>

definition frame_fits :: "protocol_limits \<Rightarrow> nat \<Rightarrow> nat \<Rightarrow> bool" where
  "frame_fits limits m p \<longleftrightarrow>
     m \<le> UINT32_MAX \<and> m \<le> max_metadata_size limits \<and> p \<le> UINT32_MAX \<and> p \<le> max_payload_size limits"

lemma FrameSize_u32:
  "m \<le> UINT32_MAX \<Longrightarrow> p \<le> UINT32_MAX \<Longrightarrow> FrameSize m p = HEADER_SIZE + m + p"
  by (simp add: FrameSize_def HEADER_SIZE_def)

lemma FrameSize_bound: "FrameSize m p \<le> SIZE_MAX"
proof -
  have "FrameSize m p < 2 ^ 64" unfolding FrameSize_def by (rule mod_less_divisor) simp
  then show ?thesis by simp
qed

lemma ValidateEncodedFrameSize_ok:
  "status_ok (ValidateEncodedFrameSize m p limits) \<longleftrightarrow> frame_fits limits m p"
  using FrameSize_bound[of m p]
  by (auto simp: ValidateEncodedFrameSize_def frame_fits_def)

lemma ValidateEncodedFrameSize_code:
  "\<not> frame_fits limits m p \<Longrightarrow>
     st_code (ValidateEncodedFrameSize m p limits) = ResourceExhausted"
  using FrameSize_bound[of m p]
  by (auto simp: ValidateEncodedFrameSize_def frame_fits_def)

lemma BuildFrame_eq:
  "BuildFrame env h m p limits =
    (if frame_fits limits (length m) (length p) then Value (wire_header h @ m @ p)
     else Error (ValidateEncodedFrameSize (length m) (length p) limits))"
proof -
  have "write_at (wire_header h @ replicate (length m + length p) 0) HEADER_SIZE m
      = wire_header h @ m @ replicate (length p) 0"
    by (simp add: write_at_def)
  moreover have "write_at (wire_header h @ m @ replicate (length p) 0)
      (HEADER_SIZE + length m) p = wire_header h @ m @ p"
    by (simp add: write_at_def)
  ultimately show ?thesis
    by (auto simp: BuildFrame_def ValidateEncodedFrameSize_ok EncodeTo_wire Let_def)
qed

lemma BuildFrame_Value:
  "BuildFrame env h m p limits = Value frame \<longleftrightarrow>
     frame_fits limits (length m) (length p) \<and> frame = wire_header h @ m @ p"
  by (auto simp: BuildFrame_eq)

section \<open>Reading frames\<close>

lemma ReadFrame_short: "length buf < HEADER_SIZE \<Longrightarrow> ReadFrame env buf limits = view_error NeedMoreData"
  by (simp add: ReadFrame_def)

text \<open>The framing verdict depends on the header and on how many bytes there are.\<close>

lemma ReadFrame_header:
  assumes "magic h = MAGIC" "version h = VERSION"
    "unat (metadata_size h) \<le> max_metadata_size limits"
    "unat (payload_size h) \<le> max_payload_size limits"
  shows "ReadFrame env (wire_header h @ body) limits =
    (if length body < unat (metadata_size h) + unat (payload_size h) then view_error NeedMoreData
     else \<lparr>fv_error = ProtoOk,
       fv_consumed = HEADER_SIZE + unat (metadata_size h) + unat (payload_size h), fv_header = h,
       fv_metadata = take (unat (metadata_size h)) body,
       fv_payload = take (unat (payload_size h)) (drop (unat (metadata_size h)) body)\<rparr>)"
  using assms FrameSize_bound[of "unat (metadata_size h)" "unat (payload_size h)"]
    Decode_wire_header[of "host_order env" h "[]"]
  by (auto simp: ReadFrame_def Let_def sub_bytes_def not_le)

text \<open>More input never changes a verdict other than \<open>NeedMoreData\<close>.\<close>

lemma ReadFrame_extend:
  assumes "fv_error (ReadFrame env buf limits) \<noteq> NeedMoreData"
  shows "ReadFrame env (buf @ rest) limits = ReadFrame env buf limits"
proof -
  have "\<not> length buf < HEADER_SIZE"
    using assms by (auto simp: ReadFrame_short view_error_def)
  then have len: "HEADER_SIZE \<le> length buf" by simp
  show ?thesis
    using assms len
    by (auto simp: ReadFrame_def Let_def view_error_def sub_bytes_append_left
        split: option.splits if_splits)
qed

lemma ReadFrame_ok_bounds:
  assumes "fv_error (ReadFrame env buf limits) = ProtoOk"
  shows "HEADER_SIZE \<le> fv_consumed (ReadFrame env buf limits)"
    and "fv_consumed (ReadFrame env buf limits) \<le> length buf"
  using assms
  by (auto simp: ReadFrame_def Let_def view_error_def split: option.splits if_splits)

lemma ReadFrame_error_consumed:
  "fv_error (ReadFrame env buf limits) \<noteq> ProtoOk \<Longrightarrow> fv_consumed (ReadFrame env buf limits) = 0"
  by (auto simp: ReadFrame_def Let_def view_error_def split: option.splits if_splits)

section \<open>Laws of Decode\<close>

lemma decode_failure_simps [simp]:
  "dec_error (decode_failure e n) = e" "consumed (decode_failure e n) = n"
  "dec_request (decode_failure e n) = None" "dec_response (decode_failure e n) = None"
  by (simp_all add: decode_failure_def)

lemma Decode_need_more:
  "dec_error (Decode env limits buf) = NeedMoreData \<longleftrightarrow>
     fv_error (ReadFrame env buf limits) = NeedMoreData"
  by (auto simp: Decode_def Let_def split: option.splits)

lemma Decode_extend:
  "dec_error (Decode env limits buf) \<noteq> NeedMoreData \<Longrightarrow>
     Decode env limits (buf @ rest) = Decode env limits buf"
  unfolding Decode_need_more by (simp add: Decode_def ReadFrame_extend)

lemma Decode_ok_read:
  "dec_error (Decode env limits buf) = ProtoOk \<Longrightarrow>
     fv_error (ReadFrame env buf limits) = ProtoOk \<and>
     consumed (Decode env limits buf) = fv_consumed (ReadFrame env buf limits)"
  by (auto simp: Decode_def Let_def split: option.splits if_splits)

lemma Decode_ok_bounds:
  assumes "dec_error (Decode env limits buf) = ProtoOk"
  shows "HEADER_SIZE \<le> consumed (Decode env limits buf)"
    and "consumed (Decode env limits buf) \<le> length buf"
  using Decode_ok_read[OF assms] ReadFrame_ok_bounds[of env buf limits] by auto

lemma Decode_empty: "dec_error (Decode env limits []) = NeedMoreData"
  by (simp add: Decode_need_more ReadFrame_short HEADER_SIZE_def view_error_def)

text \<open>The envelope a frame decodes to, once it is complete and within the limits.\<close>

lemma Decode_frame:
  assumes "magic h = MAGIC" "version h = VERSION"
    "metadata_size h = of_nat (length m)" "payload_size h = of_nat (length p)"
    "frame_fits limits (length m) (length p)"
  shows "Decode env limits (wire_header h @ m @ p @ rest) =
    (let n = HEADER_SIZE + length m + length p
     in if message_type h = Request then
       (case DecodeRequestEnvelope env h m p of
          None \<Rightarrow> decode_failure DecodeError n
        | Some r \<Rightarrow> \<lparr>dec_error = ProtoOk, consumed = n, dec_request = Some r, dec_response = None\<rparr>)
     else if message_type h = Response then
       (case DecodeResponseEnvelope env h m p of
          None \<Rightarrow> decode_failure DecodeError n
        | Some r \<Rightarrow> \<lparr>dec_error = ProtoOk, consumed = n, dec_request = None, dec_response = Some r\<rparr>)
     else decode_failure InvalidMessageType n)"
proof -
  have "unat (metadata_size h) = length m" "unat (payload_size h) = length p"
    using assms by (auto simp: frame_fits_def unat_of_nat)
  then show ?thesis
    using assms by (simp add: Decode_def ReadFrame_header frame_fits_def Let_def split: option.split)
qed

section \<open>Round trips\<close>

text \<open>
  What the code relies on from the generated classes, for the values at hand: serialising
  succeeds and parsing the result gives the fields back. (Proto3 parsing rejects a
  \<^verbatim>\<open>string\<close> field that is not UTF-8, so this is a condition on the values, not a law.) An
  empty buffer is the message with every field at its default.
\<close>

definition request_metadata_ok :: "codec_env \<Rightarrow> request_envelope \<Rightarrow> bool" where
  "request_metadata_ok env r \<longleftrightarrow>
     fst (ser_req env (service_name r) (method_name r)) \<and>
     parse_req env (snd (ser_req env (service_name r) (method_name r))) =
       Some (service_name r, method_name r)"

definition response_metadata_ok :: "codec_env \<Rightarrow> status \<Rightarrow> bool" where
  "response_metadata_ok env s \<longleftrightarrow>
     parse_resp env [] = Some (0, []) \<and>
     parse_resp env (snd (ser_resp env (ucast (status_code_value (st_code s))) (st_message s))) =
       Some (ucast (status_code_value (st_code s)), st_message s)"

definition parseable_limits :: "protocol_limits \<Rightarrow> bool" where
  "parseable_limits limits \<longleftrightarrow> max_metadata_size limits \<le> INT_MAX"

lemma MakeProtocolLimits_parseable:
  "MakeProtocolLimits n = Value limits \<Longrightarrow> parseable_limits limits"
  by (auto simp: MakeProtocolLimits_def parseable_limits_def DEFAULT_MAX_METADATA_SIZE_def
      split: if_splits)

lemma frame_fits_parse:
  "parseable_limits limits \<Longrightarrow> frame_fits limits (length m) p \<Longrightarrow> FitsProtobufParseArray m"
  by (simp add: parseable_limits_def frame_fits_def FitsProtobufParseArray_def)

text \<open>The header a frame is built with, and the frame's three sections.\<close>

lemma Encode_request_Value:
  "Encode_request env limits r = Value frame \<longleftrightarrow>
     (let m = snd (ser_req env (service_name r) (method_name r))
      in fst (ser_req env (service_name r) (method_name r)) \<and>
         frame_fits limits (length m) (length (req_payload r)) \<and>
         frame = wire_header (default_header\<lparr>message_type := Request, request_id := req_id r,
                   metadata_size := of_nat (length m),
                   payload_size := of_nat (length (req_payload r))\<rparr>) @ m @ req_payload r)"
  by (auto simp: Encode_request_def BuildRequestFrame_def BuildFrame_Value Let_def
      split: prod.splits)

lemma Encode_response_Value:
  "Encode_response env limits r = Value frame \<longleftrightarrow>
     (let m = EncodeResponseMetadata env r
      in frame_fits limits (length m) (length (resp_payload r)) \<and>
         frame = wire_header (default_header\<lparr>message_type := Response, request_id := resp_id r,
                   metadata_size := of_nat (length m),
                   payload_size := of_nat (length (resp_payload r))\<rparr>) @ m @ resp_payload r)"
  by (auto simp: Encode_response_def BuildResponseFrame_def BuildFrame_Value Let_def)

lemma default_header_simps [simp]:
  "magic (default_header\<lparr>message_type := t, request_id := i, metadata_size := a,
     payload_size := b\<rparr>) = MAGIC"
  "version (default_header\<lparr>message_type := t, request_id := i, metadata_size := a,
     payload_size := b\<rparr>) = VERSION"
  by (simp_all add: default_header_def)

lemma Response_not_Request [simp]: "Response \<noteq> Request" "Request \<noteq> Response"
  by (simp_all add: Request_def Response_def)

lemma Decode_encoded_request:
  assumes "request_metadata_ok env r" "parseable_limits limits"
    "Encode_request env limits r = Value frame"
  shows "Decode env limits (frame @ rest) =
    \<lparr>dec_error = ProtoOk, consumed = length frame, dec_request = Some r, dec_response = None\<rparr>"
  using assms frame_fits_parse[OF assms(2)]
  by (auto simp: Encode_request_Value Let_def Decode_frame DecodeRequestEnvelope_def
      request_metadata_ok_def)

text \<open>Decoding a code that the encoder wrote: a successful status loses its text.\<close>

definition wire_status :: "status \<Rightarrow> status" where
  "wire_status s = (if status_ok s then status_Ok else s)"

lemma DecodeStatus_value:
  "DecodeStatus (ucast (status_code_value c)) t = (if c = Ok then status_Ok else Status c t)"
  by (cases c) (simp_all add: DecodeStatus_def)

lemma DecodeResponseEnvelope_encoded:
  assumes "response_metadata_ok env (resp_status r)"
    "FitsProtobufParseArray (EncodeResponseMetadata env r)" "request_id h = resp_id r"
  shows "DecodeResponseEnvelope env h (EncodeResponseMetadata env r) (resp_payload r) =
    Some (r\<lparr>resp_status := wire_status (resp_status r)\<rparr>)"
  using assms DecodeStatus_value[of Ok]
  by (auto simp: DecodeResponseEnvelope_def EncodeResponseMetadata_def response_metadata_ok_def
      DecodeStatus_value wire_status_def status_ok_def)

lemma Decode_encoded_response:
  assumes "response_metadata_ok env (resp_status r)" "parseable_limits limits"
    "Encode_response env limits r = Value frame"
  shows "Decode env limits (frame @ rest) =
    \<lparr>dec_error = ProtoOk, consumed = length frame, dec_request = None,
     dec_response = Some (r\<lparr>resp_status := wire_status (resp_status r)\<rparr>)\<rparr>"
  using assms frame_fits_parse[OF assms(2)] DecodeResponseEnvelope_encoded[OF assms(1)]
  by (auto simp: Encode_response_Value Let_def Decode_frame)

text \<open>A strict prefix of a frame is never an error.\<close>

lemma wire_prefix_needs_more:
  assumes "magic h = MAGIC" "version h = VERSION"
    "metadata_size h = of_nat (length m)" "payload_size h = of_nat (length p)"
    "frame_fits limits (length m) (length p)" "n < HEADER_SIZE + length m + length p"
  shows "dec_error (Decode env limits (take n (wire_header h @ m @ p))) = NeedMoreData"
proof (cases "n < HEADER_SIZE")
  case True
  then show ?thesis by (simp add: Decode_need_more ReadFrame_short view_error_def)
next
  case False
  have "unat (metadata_size h) = length m" "unat (payload_size h) = length p"
    using assms by (auto simp: frame_fits_def unat_of_nat)
  moreover have "take n (wire_header h @ m @ p) = wire_header h @ take (n - HEADER_SIZE) (m @ p)"
    using False by simp
  ultimately show ?thesis
    using assms False
    by (simp add: Decode_need_more ReadFrame_header frame_fits_def view_error_def
        del: take_append)
qed

section \<open>Properties of the codec\<close>

lemma Encode_request_host [simp]:
  "Encode_request (env\<lparr>host_order := e\<rparr>) limits r = Encode_request env limits r"
  by (simp add: Encode_request_def BuildRequestFrame_def BuildFrame_eq split: prod.splits)

lemma Encode_response_host [simp]:
  "Encode_response (env\<lparr>host_order := e\<rparr>) limits r = Encode_response env limits r"
  by (simp add: Encode_response_def BuildResponseFrame_def EncodeResponseMetadata_def BuildFrame_eq
      Let_def)

lemma metadata_ok_host [simp]:
  "request_metadata_ok (env\<lparr>host_order := e\<rparr>) r = request_metadata_ok env r"
  "response_metadata_ok (env\<lparr>host_order := e\<rparr>) s = response_metadata_ok env s"
  by (simp_all add: request_metadata_ok_def response_metadata_ok_def)

text \<open>A small instance of the generated classes for concrete runs: a length byte and two
  strings, and a code byte and a string.\<close>

definition demo_env :: codec_env where
  "demo_env = \<lparr>host_order = LittleEndian,
     ser_req = (\<lambda>s m. (True, of_nat (length s) # map (\<lambda>c. of_nat (of_char c)) (s @ m))),
     parse_req = (\<lambda>bs. case bs of [] \<Rightarrow> None
       | b # cs \<Rightarrow> (let t = map (\<lambda>c. char_of (unat c)) cs in Some (take (unat b) t, drop (unat b) t))),
     ser_resp = (\<lambda>c t. (True, ucast c # map (\<lambda>c. of_nat (of_char c)) t)),
     parse_resp = (\<lambda>bs. case bs of [] \<Rightarrow> Some (0, [])
       | b # cs \<Rightarrow> Some (ucast b, map (\<lambda>c. char_of (unat c)) cs))\<rparr>"

definition demo_limits :: protocol_limits where
  "demo_limits = \<lparr>max_metadata_size = DEFAULT_MAX_METADATA_SIZE, max_payload_size = 16\<rparr>"

definition demo_request :: request_envelope where
  "demo_request = \<lparr>req_id = 7, service_name = ''Echo'', method_name = ''Say'',
     req_payload = [1, 2, 3]\<rparr>"

definition demo_response :: response_envelope where
  "demo_response = \<lparr>resp_id = 7, resp_status = Status NotFound ''no'', resp_payload = [9]\<rparr>"

lemma demo_ok:
  "request_metadata_ok demo_env demo_request"
  "response_metadata_ok demo_env (resp_status demo_response)"
  "parseable_limits demo_limits"
  "\<exists>f. Encode_request demo_env demo_limits demo_request = Value f"
  "\<exists>f. Encode_response demo_env demo_limits demo_response = Value f"
  by (simp_all add: request_metadata_ok_def response_metadata_ok_def parseable_limits_def
      Encode_request_Value Encode_response_Value EncodeResponseMetadata_def frame_fits_def
      demo_env_def demo_request_def demo_response_def demo_limits_def
      DEFAULT_MAX_METADATA_SIZE_def Let_def char_of_def bit_Suc_0_iff)

text \<open>C11. A request survives the wire: whatever follows the frame in the buffer and whatever the
  byte order of the receiver, decoding an encoded request consumes exactly the frame and gives
  the same request id, service, method and payload, and no response. The Protobuf classes are
  assumed to parse what they serialised for this request, and the metadata limit to fit an int.\<close>

theorem request_round_trip:
  assumes "request_metadata_ok env r" "parseable_limits limits"
    "Encode_request env limits r = Value frame"
  shows "Decode (env\<lparr>host_order := e\<rparr>) limits (frame @ rest) =
    \<lparr>dec_error = ProtoOk, consumed = length frame, dec_request = Some r, dec_response = None\<rparr>"
  using assms by (intro Decode_encoded_request) simp_all

theorem request_round_trip_witness:
  "Decode (demo_env\<lparr>host_order := BigEndian\<rparr>) demo_limits
      (the_value (Encode_request demo_env demo_limits demo_request) @ [1, 2]) =
    \<lparr>dec_error = ProtoOk,
     consumed = length (the_value (Encode_request demo_env demo_limits demo_request)),
     dec_request = Some demo_request, dec_response = None\<rparr>"
  using request_round_trip[OF demo_ok(1,3), of _ BigEndian "[1, 2]"] demo_ok(4) by auto

text \<open>C18. A response survives the wire with its request id, payload and status, except that the
  text of an OK status is dropped (\<^verbatim>\<open>DecodeStatus\<close> returns the plain OK status).\<close>

theorem response_round_trip:
  assumes "response_metadata_ok env (resp_status r)" "parseable_limits limits"
    "Encode_response env limits r = Value frame"
  shows "Decode (env\<lparr>host_order := e\<rparr>) limits (frame @ rest) =
    \<lparr>dec_error = ProtoOk, consumed = length frame, dec_request = None,
     dec_response = Some (r\<lparr>resp_status :=
       (if st_code (resp_status r) = Ok then status_Ok else resp_status r)\<rparr>)\<rparr>"
  using Decode_encoded_response[of "env\<lparr>host_order := e\<rparr>" r limits frame rest] assms
  by (simp add: wire_status_def status_ok_def)

theorem response_round_trip_witness:
  "Decode (demo_env\<lparr>host_order := BigEndian\<rparr>) demo_limits
      (the_value (Encode_response demo_env demo_limits demo_response) @ [1, 2]) =
    \<lparr>dec_error = ProtoOk,
     consumed = length (the_value (Encode_response demo_env demo_limits demo_response)),
     dec_request = None, dec_response = Some demo_response\<rparr>"
  using response_round_trip[OF demo_ok(2,3), of _ BigEndian "[1, 2]"] demo_ok(5)
  by (auto simp: demo_response_def)

text \<open>An incomplete frame is never an error: every strict prefix of an encoded request or
  response, however short, decodes to \<^verbatim>\<open>NeedMoreData\<close> with nothing consumed.\<close>

theorem strict_prefix_needs_more:
  assumes "Encode_request env limits q = Value frame \<or> Encode_response env limits r = Value frame"
    "n < length frame"
  shows "Decode (env\<lparr>host_order := e\<rparr>) limits (take n frame) = decode_failure NeedMoreData 0"
proof -
  have "dec_error (Decode (env\<lparr>host_order := e\<rparr>) limits (take n frame)) = NeedMoreData"
    using assms
    by (auto simp: Encode_request_Value Encode_response_Value Let_def simp del: take_append
        intro!: wire_prefix_needs_more)
  then show ?thesis
    using ReadFrame_error_consumed[of "env\<lparr>host_order := e\<rparr>" "take n frame" limits]
    by (auto simp: Decode_need_more) (simp add: Decode_def)
qed

theorem strict_prefix_needs_more_witness:
  "Decode (demo_env\<lparr>host_order := BigEndian\<rparr>) demo_limits
     (take 25 (the_value (Encode_request demo_env demo_limits demo_request))) =
   decode_failure NeedMoreData 0"
proof -
  obtain f where f: "Encode_request demo_env demo_limits demo_request = Value f"
    using demo_ok(4) by blast
  then have "25 < length f"
    by (auto simp: Encode_request_Value demo_env_def demo_request_def HEADER_SIZE_def Let_def)
  with f show ?thesis
    using strict_prefix_needs_more[of demo_env demo_limits demo_request f demo_response 25 BigEndian]
    by simp
qed

text \<open>C20. The shape of a decoding result, for every buffer and every behaviour of the Protobuf
  parsers: success comes with exactly one envelope and every failure with none; the consumed
  length is non-zero exactly when a frame boundary was established (success, an unknown message
  type, or metadata that does not parse), and then it covers the header, stays inside the buffer
  and inside the configured limits; \<^verbatim>\<open>EncodeError\<close> is never reported.\<close>

theorem decode_result_shape:
  "let d = Decode env limits buf
   in (dec_error d = ProtoOk) = ((dec_request d = None) \<noteq> (dec_response d = None)) \<and>
      (dec_error d \<noteq> ProtoOk) = (dec_request d = None \<and> dec_response d = None) \<and>
      (consumed d \<noteq> 0) = (dec_error d \<in> {ProtoOk, InvalidMessageType, DecodeError}) \<and>
      (consumed d = 0 \<or> HEADER_SIZE \<le> consumed d) \<and>
      consumed d \<le> length buf \<and>
      consumed d \<le> HEADER_SIZE + max_metadata_size limits + max_payload_size limits \<and>
      dec_error d \<noteq> EncodeError"
  by (simp add: Decode_def ReadFrame_def Let_def view_error_def HEADER_SIZE_def split: option.split)

text \<open>Encoding a request on every branch: a metadata serialiser that fails is an Internal
  error; sections that exceed the limits or a 32-bit length are a ResourceExhausted error;
  otherwise the frame is the header with the exact section lengths, the metadata and the
  payload, of at most 24 bytes plus the two limits.\<close>

theorem encode_request_branches:
  "case ser_req env (service_name r) (method_name r) of (ok, m) \<Rightarrow>
     (if \<not> ok then \<exists>s. Encode_request env limits r = Error s \<and> st_code s = Internal
      else if length m \<le> min UINT32_MAX (max_metadata_size limits) \<and>
              length (req_payload r) \<le> min UINT32_MAX (max_payload_size limits)
      then \<exists>h. Encode_request env limits r = Value (wire_header h @ m @ req_payload r) \<and>
             unat (metadata_size h) = length m \<and> unat (payload_size h) = length (req_payload r) \<and>
             request_id h = req_id r \<and> message_type h = Request \<and>
             HEADER_SIZE + length m + length (req_payload r) \<le>
               24 + max_metadata_size limits + max_payload_size limits
      else \<exists>s. Encode_request env limits r = Error s \<and> st_code s = ResourceExhausted)"
  using ValidateEncodedFrameSize_code[of limits "length (snd (ser_req env (service_name r) (method_name r)))"
      "length (req_payload r)"]
  by (auto simp: Encode_request_def BuildRequestFrame_def BuildFrame_eq frame_fits_def unat_of_nat
      Status_def HEADER_SIZE_def default_header_def split: prod.splits intro!: exI)

lemma ucast_low_byte: "(ucast (c AND 0xFF :: u32) :: byte) = ucast c"
proof -
  have "(0xFF :: u32) = mask 8" by (simp add: mask_eq_exp_minus_1)
  then have "ucast (c AND 0xFF) = (ucast (c AND mask 8) :: byte)" by (simp only:)
  also have "\<dots> = ucast c"
    by (auto intro!: bit_word_eqI simp: bit_ucast_iff bit_and_iff bit_mask_iff)
  finally show ?thesis .
qed

text \<open>C22. The narrowing cast in \<^verbatim>\<open>DecodeStatus\<close>: only the low byte of the 32-bit wire code counts,
  so the out-of-range code 256 is taken for OK and 258 for the status of code 2, while an
  in-range code decodes to its own status and code 255 to DataLoss.\<close>

theorem decode_status_low_byte:
  "DecodeStatus c t = DecodeStatus (c AND 0xFF) t \<and>
   DecodeStatus (ucast (status_code_value k)) t = (if k = Ok then status_Ok else Status k t) \<and>
   DecodeStatus (256 + ucast (status_code_value k)) t =
     (if k = Ok then status_Ok else Status k t) \<and>
   DecodeStatus 256 t = status_Ok \<and> st_code (DecodeStatus 255 t) = DataLoss"
proof -
  have "DecodeStatus c t = DecodeStatus (c AND 0xFF) t"
    by (simp add: DecodeStatus_def ucast_low_byte)
  moreover have "DecodeStatus (256 + ucast (status_code_value k)) t =
      DecodeStatus (ucast (status_code_value k)) t"
    by (cases k) (simp_all add: DecodeStatus_def)
  ultimately show ?thesis
    by (simp add: DecodeStatus_value) (simp add: DecodeStatus_def Status_def)
qed

end
