(* ===== verification/Frame_Decoder.thy ===== *)
theory Frame_Decoder
  imports Frame_Codec
begin

text \<open>
  The contract between the codec and the two components that decode a TCP byte stream with
  it: the server's \<^verbatim>\<open>RpcFrameStream\<close> and the client's \<^verbatim>\<open>ReaderLoop\<close>. Both repeat one decoding
  step on the bytes they have buffered. The locale states what such a step has to satisfy;
  the lemmas about splitting a stream into chunks are proved once, inside it.
\<close>

datatype 'm decode_step = More | Bad | Frame nat 'm

text \<open>The server accepts request frames only, the client response frames only.\<close>

definition request_step :: "codec_env \<Rightarrow> protocol_limits \<Rightarrow> bytes \<Rightarrow> request_envelope decode_step" where
  "request_step env limits buf =
    (let d = Decode env limits buf
     in if dec_error d = NeedMoreData then More
        else if dec_error d \<noteq> ProtoOk then Bad
        else case dec_request d of None \<Rightarrow> Bad | Some r \<Rightarrow> Frame (consumed d) r)"

definition response_step :: "codec_env \<Rightarrow> protocol_limits \<Rightarrow> bytes \<Rightarrow> response_envelope decode_step" where
  "response_step env limits buf =
    (let d = Decode env limits buf
     in if dec_error d = NeedMoreData then More
        else if dec_error d \<noteq> ProtoOk then Bad
        else case dec_response d of None \<Rightarrow> Bad | Some r \<Rightarrow> Frame (consumed d) r)"

text \<open>\<open>decode_all step buf\<close>: the messages at the front of \<open>buf\<close>, the bytes after them and
  whether decoding stopped at a bad frame. A step that makes no progress counts as bad, which
  the contract below excludes.\<close>

function decode_all :: "(bytes \<Rightarrow> 'm decode_step) \<Rightarrow> bytes \<Rightarrow> 'm list \<times> bytes \<times> bool" where
  "decode_all step buf =
    (case step buf of
       More \<Rightarrow> ([], buf, False)
     | Bad \<Rightarrow> ([], buf, True)
     | Frame n m \<Rightarrow>
         if 0 < n \<and> n \<le> length buf
         then (case decode_all step (drop n buf) of (ms, rest, bad) \<Rightarrow> (m # ms, rest, bad))
         else ([], buf, True))"
  by pat_completeness auto
termination
  by (relation "measure (\<lambda>(step, buf). length buf)") auto

declare decode_all.simps [simp del]

text \<open>Feeding the chunks of a stream one after the other: the bytes left over from one chunk
  are put in front of the next, and nothing is decoded after a bad frame.\<close>

fun feed_chunks ::
  "(bytes \<Rightarrow> 'm decode_step) \<Rightarrow> bytes \<times> bool \<Rightarrow> bytes list \<Rightarrow> 'm list \<times> bytes \<times> bool" where
  "feed_chunks step (buf, bad) [] = ([], buf, bad)"
| "feed_chunks step (buf, bad) (c # cs) =
    (if bad then feed_chunks step (buf, bad) cs
     else case decode_all step (buf @ c) of
       (ms, buf', bad') \<Rightarrow>
         (case feed_chunks step (buf', bad') cs of (ms', r) \<Rightarrow> (ms @ ms', r)))"

locale frame_decoder =
  fixes step :: "bytes \<Rightarrow> 'm decode_step"
  assumes step_empty: "step [] = More"
    and step_progress: "step buf = Frame n m \<Longrightarrow> 0 < n \<and> n \<le> length buf"
    and step_frame_extend: "step buf = Frame n m \<Longrightarrow> step (buf @ suf) = Frame n m"
    and step_bad_extend: "step buf = Bad \<Longrightarrow> step (buf @ suf) = Bad"
begin

lemma decode_all_More: "step buf = More \<Longrightarrow> decode_all step buf = ([], buf, False)"
  by (simp add: decode_all.simps[of step buf])

lemma decode_all_Bad: "step buf = Bad \<Longrightarrow> decode_all step buf = ([], buf, True)"
  by (simp add: decode_all.simps[of step buf])

lemma decode_all_Frame:
  "step buf = Frame n m \<Longrightarrow> decode_all step buf =
     (case decode_all step (drop n buf) of (ms, rest, bad) \<Rightarrow> (m # ms, rest, bad))"
  using step_progress[of buf n m] by (simp add: decode_all.simps[of step buf])

lemma decode_all_extend:
  "decode_all step (buf @ suf) =
    (case decode_all step buf of (ms, rest, bad) \<Rightarrow>
       if bad then (ms, rest @ suf, True)
       else (case decode_all step (rest @ suf) of (ms', r) \<Rightarrow> (ms @ ms', r)))"
proof (induction "length buf" arbitrary: buf rule: less_induct)
  case less
  show ?case
  proof (cases "step buf")
    case More
    then show ?thesis by (simp add: decode_all_More)
  next
    case Bad
    then show ?thesis by (simp add: decode_all_Bad decode_all_Bad[OF step_bad_extend])
  next
    case (Frame n m)
    with step_progress have n: "0 < n" "n \<le> length buf" by blast+
    have "decode_all step (buf @ suf) =
        (case decode_all step (drop n buf @ suf) of (ms, rest, bad) \<Rightarrow> (m # ms, rest, bad))"
      using decode_all_Frame[OF step_frame_extend[OF Frame]] n by simp
    moreover have "length (drop n buf) < length buf" using n by simp
    ultimately show ?thesis
      by (auto simp: less decode_all_Frame[OF Frame] split: prod.splits)
  qed
qed

text \<open>What is left over never contains a complete frame.\<close>

lemma decode_all_rest:
  "decode_all step buf = (ms, rest, bad) \<Longrightarrow> step rest = (if bad then Bad else More)"
proof (induction "length buf" arbitrary: buf ms rule: less_induct)
  case less
  show ?case
  proof (cases "step buf")
    case More
    then show ?thesis using less.prems by (simp add: decode_all_More)
  next
    case Bad
    then show ?thesis using less.prems by (simp add: decode_all_Bad)
  next
    case (Frame n m)
    with step_progress have "length (drop n buf) < length buf" by fastforce
    moreover obtain ms' where "decode_all step (drop n buf) = (ms', rest, bad)"
      using less.prems by (auto simp: decode_all_Frame[OF Frame] split: prod.splits)
    ultimately show ?thesis by (rule less.hyps)
  qed
qed

lemma decode_all_idem:
  "decode_all step buf = (ms, rest, bad) \<Longrightarrow> decode_all step rest = ([], rest, bad)"
  using decode_all_rest[of buf ms rest bad]
  by (auto simp: decode_all_More decode_all_Bad split: if_splits)

text \<open>The split of a stream into chunks is irrelevant: the messages and the verdict are those
  of decoding the whole stream at once.\<close>

lemma feed_chunks_bad: "feed_chunks step (buf, True) cs = ([], buf, True)"
  by (induction cs) auto

lemma feed_chunks_concat:
  "decode_all step buf = ([], buf, False) \<Longrightarrow>
     fst (feed_chunks step (buf, False) cs) = fst (decode_all step (buf @ concat cs)) \<and>
     snd (snd (feed_chunks step (buf, False) cs)) = snd (snd (decode_all step (buf @ concat cs)))"
proof (induction cs arbitrary: buf)
  case Nil
  then show ?case by simp
next
  case (Cons c cs)
  obtain ms rest bad where d: "decode_all step (buf @ c) = (ms, rest, bad)"
    by (metis prod_cases3)
  have e: "decode_all step (buf @ c @ concat cs) =
      (if bad then (ms, rest @ concat cs, True)
       else (case decode_all step (rest @ concat cs) of (ms', r) \<Rightarrow> (ms @ ms', r)))"
    using decode_all_extend[of "buf @ c" "concat cs"] d by simp
  show ?case
  proof (cases bad)
    case True
    then show ?thesis using d e by (simp add: feed_chunks_bad)
  next
    case False
    with decode_all_idem[OF d] Cons.IH[of rest] d e show ?thesis
      by (auto split: prod.splits)
  qed
qed

text \<open>A stream of complete frames decodes to their messages, and nothing is left over.\<close>

lemma decode_all_frames:
  assumes "\<And>f m suf. (f, m) \<in> set fms \<Longrightarrow> step (f @ suf) = Frame (length f) m"
  shows "decode_all step (concat (map fst fms) @ tail) =
    (case decode_all step tail of (ms, r) \<Rightarrow> (map snd fms @ ms, r))"
  using assms
proof (induction fms)
  case Nil
  then show ?case by (simp split: prod.splits)
next
  case (Cons fm fms)
  obtain f m where fm: "fm = (f, m)" by (cases fm)
  have "step (f @ concat (map fst fms) @ tail) = Frame (length f) m"
    using Cons.prems fm by simp
  then have "decode_all step (f @ concat (map fst fms) @ tail) =
      (case decode_all step (concat (map fst fms) @ tail) of (ms, r, b) \<Rightarrow> (m # ms, r, b))"
    by (simp add: decode_all_Frame)
  then show ?case using Cons fm by (auto split: prod.splits)
qed

end

lemma request_step_laws:
  "request_step env limits [] = More"
  "request_step env limits buf = Frame n m \<Longrightarrow> 0 < n \<and> n \<le> length buf"
  "request_step env limits buf = Frame n m \<Longrightarrow> request_step env limits (buf @ suf) = Frame n m"
  "request_step env limits buf = Bad \<Longrightarrow> request_step env limits (buf @ suf) = Bad"
  using Decode_ok_bounds[of env limits buf]
  by (auto simp: request_step_def Let_def Decode_empty Decode_extend HEADER_SIZE_def
      split: if_splits option.splits)

lemma response_step_laws:
  "response_step env limits [] = More"
  "response_step env limits buf = Frame n m' \<Longrightarrow> 0 < n \<and> n \<le> length buf"
  "response_step env limits buf = Frame n m' \<Longrightarrow> response_step env limits (buf @ suf) = Frame n m'"
  "response_step env limits buf = Bad \<Longrightarrow> response_step env limits (buf @ suf) = Bad"
  using Decode_ok_bounds[of env limits buf]
  by (auto simp: response_step_def Let_def Decode_empty Decode_extend HEADER_SIZE_def
      split: if_splits option.splits)

interpretation request_frames: frame_decoder "request_step env limits" for env limits
  by unfold_locales (fact request_step_laws)+

interpretation response_frames: frame_decoder "response_step env limits" for env limits
  by unfold_locales (fact response_step_laws)+

end
