(* ===== verification/Frame_Stream.thy ===== *)
theory Frame_Stream
  imports Frame_Decoder
begin

text \<open>
  \<^verbatim>\<open>src/server/rpc_frame_stream.cpp\<close>: the server's incremental decoder. An operation that calls
  \<^verbatim>\<open>Abort\<close> or fails an \<^verbatim>\<open>assert\<close> returns \<open>None\<close>; the lemmas show that this never happens.
\<close>

section \<open>ByteBuffer\<close>

record byte_buffer =
  bb_buffer :: bytes
  read_offset :: nat

definition ReadableSize :: "byte_buffer \<Rightarrow> nat" where
  "ReadableSize bb = length (bb_buffer bb) - read_offset bb"

definition Buffer_Empty :: "byte_buffer \<Rightarrow> bool" where
  "Buffer_Empty bb \<longleftrightarrow> ReadableSize bb = 0"

definition ReadableBytes :: "byte_buffer \<Rightarrow> bytes" where
  "ReadableBytes bb = (if ReadableSize bb = 0 then []
     else sub_bytes (read_offset bb) (ReadableSize bb) (bb_buffer bb))"

definition Compact :: "byte_buffer \<Rightarrow> byte_buffer option" where
  "Compact bb =
    (if read_offset bb = 0 then Some bb
     else if \<not> read_offset bb < length (bb_buffer bb) then None
     else Some \<lparr>bb_buffer = drop (read_offset bb) (bb_buffer bb), read_offset = 0\<rparr>)"

text \<open>\<open>cap\<close> is the string's \<^verbatim>\<open>capacity()\<close>, which the standard library chooses.\<close>

definition Append :: "nat \<Rightarrow> bytes \<Rightarrow> byte_buffer \<Rightarrow> byte_buffer option" where
  "Append cap bs bb =
    (if bs = [] then Some bb
     else case (if length bs > cap - length (bb_buffer bb) then Compact bb else Some bb) of
       None \<Rightarrow> None
     | Some bb' \<Rightarrow> Some (bb'\<lparr>bb_buffer := bb_buffer bb' @ bs\<rparr>))"

definition Consume :: "nat \<Rightarrow> byte_buffer \<Rightarrow> byte_buffer option" where
  "Consume n bb =
    (if n > ReadableSize bb then None
     else let off = read_offset bb + n
       in if off = length (bb_buffer bb) then Some \<lparr>bb_buffer = [], read_offset = 0\<rparr>
          else Some (bb\<lparr>read_offset := off\<rparr>))"

text \<open>A fully consumed buffer is cleared, so a non-zero offset points into the buffer.\<close>

definition wf_buffer :: "byte_buffer \<Rightarrow> bool" where
  "wf_buffer bb \<longleftrightarrow> read_offset bb = 0 \<or> read_offset bb < length (bb_buffer bb)"

lemma ReadableBytes_drop: "ReadableBytes bb = drop (read_offset bb) (bb_buffer bb)"
  by (simp add: ReadableBytes_def ReadableSize_def sub_bytes_def)

lemma ReadableSize_length: "ReadableSize bb = length (ReadableBytes bb)"
  by (simp add: ReadableBytes_drop ReadableSize_def)

lemma Append_readable:
  assumes "wf_buffer bb"
  shows "\<exists>bb'. Append cap bs bb = Some bb' \<and> wf_buffer bb' \<and>
    ReadableBytes bb' = ReadableBytes bb @ bs"
  using assms by (auto simp: Append_def Compact_def wf_buffer_def ReadableBytes_drop)

lemma Consume_readable:
  assumes "wf_buffer bb" "n \<le> length (ReadableBytes bb)"
  shows "\<exists>bb'. Consume n bb = Some bb' \<and> wf_buffer bb' \<and>
    ReadableBytes bb' = drop n (ReadableBytes bb)"
proof -
  have "\<not> n > ReadableSize bb" using assms by (simp add: ReadableSize_length)
  moreover have "read_offset bb + n \<le> length (bb_buffer bb)"
    using assms by (auto simp: wf_buffer_def ReadableBytes_drop)
  ultimately show ?thesis
    by (auto simp: Consume_def Let_def wf_buffer_def ReadableBytes_drop add.commute)
qed

section \<open>RequestEnvelopeBatch\<close>

record request_batch =
  first_request :: "request_envelope option"
  additional_requests :: "request_envelope list"

definition empty_batch :: request_batch where
  "empty_batch = \<lparr>first_request = None, additional_requests = []\<rparr>"

definition Push :: "request_envelope \<Rightarrow> request_batch \<Rightarrow> request_batch" where
  "Push r b = (case first_request b of
      None \<Rightarrow> b\<lparr>first_request := Some r\<rparr>
    | Some _ \<Rightarrow> b\<lparr>additional_requests := additional_requests b @ [r]\<rparr>)"

definition batch_size :: "request_batch \<Rightarrow> nat" where
  "batch_size b = (if first_request b \<noteq> None then 1 else 0) + length (additional_requests b)"

text \<open>\<^verbatim>\<open>operator[]\<close>; reading past the end of the vector is undefined in C++, here \<open>None\<close>.\<close>

definition batch_index :: "request_batch \<Rightarrow> nat \<Rightarrow> request_envelope option" where
  "batch_index b i =
    (let at = \<lambda>k. if k < length (additional_requests b) then Some (additional_requests b ! k) else None
     in case first_request b of
       None \<Rightarrow> at i
     | Some r \<Rightarrow> if i = 0 then Some r else at (i - 1))"

text \<open>\<^verbatim>\<open>std::ranges::all_of\<close> and \<^verbatim>\<open>ConsumeEach\<close> with a callback that has an effect on a state.\<close>

fun all_of :: "('a \<Rightarrow> 's \<Rightarrow> bool \<times> 's) \<Rightarrow> 'a list \<Rightarrow> 's \<Rightarrow> bool \<times> 's" where
  "all_of cb [] s = (True, s)"
| "all_of cb (x # xs) s = (case cb x s of (ok, s') \<Rightarrow> if ok then all_of cb xs s' else (False, s'))"

definition ConsumeEach ::
  "(request_envelope \<Rightarrow> 's \<Rightarrow> bool \<times> 's) \<Rightarrow> request_batch \<Rightarrow> 's \<Rightarrow> bool \<times> 's" where
  "ConsumeEach cb b s =
    (case first_request b of
       None \<Rightarrow> all_of cb (additional_requests b) s
     | Some r \<Rightarrow> (case cb r s of (ok, s') \<Rightarrow>
         if ok then all_of cb (additional_requests b) s' else (False, s')))"

definition batch_list :: "request_batch \<Rightarrow> request_envelope list" where
  "batch_list b = (case first_request b of None \<Rightarrow> [] | Some r \<Rightarrow> [r]) @ additional_requests b"

definition wf_batch :: "request_batch \<Rightarrow> bool" where
  "wf_batch b \<longleftrightarrow> (first_request b = None \<longrightarrow> additional_requests b = [])"

lemma empty_batch_list [simp]: "batch_list empty_batch = []" "wf_batch empty_batch"
  by (simp_all add: batch_list_def empty_batch_def wf_batch_def)

lemma Push_list [simp]: "wf_batch b \<Longrightarrow> batch_list (Push r b) = batch_list b @ [r]"
  by (auto simp: Push_def batch_list_def wf_batch_def split: option.splits)

lemma Push_wf [simp]: "wf_batch (Push r b)"
  by (auto simp: Push_def wf_batch_def split: option.splits)

lemma batch_size_list: "batch_size b = length (batch_list b)"
  by (auto simp: batch_size_def batch_list_def split: option.splits)

lemma batch_index_list:
  "batch_index b i = (if i < length (batch_list b) then Some (batch_list b ! i) else None)"
  by (cases i) (auto simp: batch_index_def batch_list_def Let_def split: option.splits)

lemma ConsumeEach_all_of: "ConsumeEach cb b s = all_of cb (batch_list b) s"
  by (auto simp: ConsumeEach_def batch_list_def split: option.splits prod.splits)

section \<open>RpcFrameStream\<close>

record frame_stream =
  fs_buffer :: byte_buffer
  fs_limits :: protocol_limits
  fs_closed :: bool

definition new_stream :: "protocol_limits \<Rightarrow> frame_stream" where
  "new_stream limits = \<lparr>fs_buffer = \<lparr>bb_buffer = [], read_offset = 0\<rparr>, fs_limits = limits,
     fs_closed = False\<rparr>"

text \<open>The loop of \<^verbatim>\<open>DecodeAvailableRequests\<close>. It ends because a decoded frame consumes at
  least a header's worth of readable bytes.\<close>

function decode_loop ::
  "codec_env \<Rightarrow> protocol_limits \<Rightarrow> byte_buffer \<Rightarrow> bool \<Rightarrow> request_batch \<Rightarrow>
     (byte_buffer \<times> bool \<times> request_batch) option" where
  "decode_loop env limits bb closed requests =
    (if Buffer_Empty bb \<or> closed then Some (bb, closed, requests)
     else let decoded = Decode env limits (ReadableBytes bb)
       in if dec_error decoded = NeedMoreData then Some (bb, closed, requests)
          else if dec_error decoded \<noteq> ProtoOk \<or> dec_request decoded = None
            then Some (bb, True, requests)
          else case Consume (consumed decoded) bb of
            None \<Rightarrow> None
          | Some bb' \<Rightarrow>
              decode_loop env limits bb' closed (Push (the (dec_request decoded)) requests))"
  by pat_completeness auto
termination
proof (relation "measure (\<lambda>(env, limits, bb, closed, requests). ReadableSize bb)", simp)
  fix env :: codec_env and limits bb closed requests bb'
  fix d :: frame_decode_result
  assume d: "d = Decode env limits (ReadableBytes bb)"
    and ok: "\<not> (dec_error d \<noteq> ProtoOk \<or> dec_request d = None)"
    and c: "Consume (consumed d) bb = Some bb'"
    and ne: "\<not> (Buffer_Empty bb \<or> closed)"
  have "0 < consumed d"
    using Decode_ok_bounds(1)[of env limits "ReadableBytes bb"] d ok by (auto simp: HEADER_SIZE_def)
  then have "ReadableSize bb' < ReadableSize bb"
    using c ne by (auto simp: Consume_def Let_def ReadableSize_def Buffer_Empty_def split: if_splits)
  then show "((env, limits, bb', closed, Push (the (dec_request d)) requests),
      env, limits, bb, closed, requests)
      \<in> measure (\<lambda>(env, limits, bb, closed, requests). ReadableSize bb)"
    by simp
qed

declare decode_loop.simps [simp del]

definition DecodeAvailableRequests ::
  "codec_env \<Rightarrow> frame_stream \<Rightarrow> (frame_stream \<times> request_batch) option" where
  "DecodeAvailableRequests env fs =
    (case decode_loop env (fs_limits fs) (fs_buffer fs) (fs_closed fs) empty_batch of
       None \<Rightarrow> None
     | Some (bb, closed, requests) \<Rightarrow> Some (fs\<lparr>fs_buffer := bb, fs_closed := closed\<rparr>, requests))"

record feed_result =
  feed_requests :: request_batch
  feed_closed :: bool

definition FeedBytes ::
  "codec_env \<Rightarrow> nat \<Rightarrow> bytes \<Rightarrow> frame_stream \<Rightarrow> (frame_stream \<times> feed_result) option" where
  "FeedBytes env cap bs fs =
    (if fs_closed fs then Some (fs, \<lparr>feed_requests = empty_batch, feed_closed = True\<rparr>)
     else case Append cap bs (fs_buffer fs) of
       None \<Rightarrow> None
     | Some bb \<Rightarrow>
         (case DecodeAvailableRequests env (fs\<lparr>fs_buffer := bb\<rparr>) of
            None \<Rightarrow> None
          | Some (fs', requests) \<Rightarrow>
              Some (fs', \<lparr>feed_requests = requests, feed_closed = fs_closed fs'\<rparr>)))"

text \<open>A connection's successive feeds: each with the capacity the string had at that time.\<close>

fun feed_all ::
  "codec_env \<Rightarrow> frame_stream \<Rightarrow> (nat \<times> bytes) list \<Rightarrow>
     (frame_stream \<times> request_envelope list) option" where
  "feed_all env fs [] = Some (fs, [])"
| "feed_all env fs ((cap, bs) # cs) =
    (case FeedBytes env cap bs fs of
       None \<Rightarrow> None
     | Some (fs', r) \<Rightarrow>
         (case feed_all env fs' cs of
            None \<Rightarrow> None
          | Some (fs'', rs) \<Rightarrow> Some (fs'', batch_list (feed_requests r) @ rs)))"

section \<open>The stream implements the abstract decoder\<close>

definition wf_stream :: "frame_stream \<Rightarrow> bool" where
  "wf_stream fs \<longleftrightarrow> wf_buffer (fs_buffer fs)"

lemma new_stream_simps [simp]:
  "wf_stream (new_stream limits)" "fs_closed (new_stream limits) = False"
  "fs_limits (new_stream limits) = limits" "ReadableBytes (fs_buffer (new_stream limits)) = []"
  by (simp_all add: new_stream_def wf_stream_def wf_buffer_def ReadableBytes_drop)

lemma decode_loop_refines:
  assumes "wf_buffer bb" "wf_batch requests"
    "decode_all (request_step env limits) (ReadableBytes bb) = (ms, rest, bad)"
  shows "\<exists>bb' requests'. decode_loop env limits bb False requests = Some (bb', bad, requests') \<and>
    wf_buffer bb' \<and> wf_batch requests' \<and> ReadableBytes bb' = rest \<and>
    batch_list requests' = batch_list requests @ ms"
  using assms
proof (induction "length (ReadableBytes bb)" arbitrary: bb requests ms rule: less_induct)
  case less
  let ?d = "Decode env limits (ReadableBytes bb)"
  note unfold = decode_loop.simps[of env limits bb False requests]
  show ?case
  proof (cases "request_step env limits (ReadableBytes bb)")
    case More
    then have "Buffer_Empty bb \<or> dec_error ?d = NeedMoreData"
      by (auto simp: request_step_def Let_def split: if_splits option.splits)
    then show ?thesis
      using less.prems request_frames.decode_all_More[OF More] by (auto simp: unfold Let_def)
  next
    case Bad
    then have "dec_error ?d \<noteq> NeedMoreData" "dec_error ?d \<noteq> ProtoOk \<or> dec_request ?d = None"
      by (auto simp: request_step_def Let_def split: if_splits option.splits)
    moreover have "\<not> Buffer_Empty bb"
      using Bad request_step_laws(1) by (auto simp: Buffer_Empty_def ReadableSize_length)
    ultimately show ?thesis
      using less.prems request_frames.decode_all_Bad[OF Bad] by (auto simp: unfold Let_def)
  next
    case (Frame n m)
    then have d: "dec_error ?d = ProtoOk" "dec_request ?d = Some m" "consumed ?d = n"
      by (auto simp: request_step_def Let_def split: if_splits option.splits)
    have n: "0 < n" "n \<le> length (ReadableBytes bb)" using request_step_laws(2)[OF Frame] by auto
    obtain bb1 where c: "Consume n bb = Some bb1" "wf_buffer bb1"
        "ReadableBytes bb1 = drop n (ReadableBytes bb)"
      using Consume_readable[OF less.prems(1) n(2)] by blast
    obtain ms1 where ms1: "ms = m # ms1"
        "decode_all (request_step env limits) (ReadableBytes bb1) = (ms1, rest, bad)"
      using less.prems(3) request_frames.decode_all_Frame[OF Frame] c(3) by (auto split: prod.splits)
    have "length (ReadableBytes bb1) < length (ReadableBytes bb)" using c(3) n by simp
    from less.hyps[OF this c(2) Push_wf ms1(2), of m requests] show ?thesis
      using less.prems(2) d c(1) n ms1(1)
      by (auto simp: unfold Let_def Buffer_Empty_def ReadableSize_length)
  qed
qed

text \<open>One feed: no abort, and the effect on the readable bytes and the closed flag is that of
  one chunk of the abstract decoder.\<close>

lemma FeedBytes_refines:
  assumes "wf_stream fs" "\<not> fs_closed fs"
    "decode_all (request_step env (fs_limits fs)) (ReadableBytes (fs_buffer fs) @ bs) =
       (ms, rest, bad)"
  shows "\<exists>fs' r. FeedBytes env cap bs fs = Some (fs', r) \<and> wf_stream fs' \<and>
    fs_limits fs' = fs_limits fs \<and> fs_closed fs' = bad \<and> feed_closed r = bad \<and>
    ReadableBytes (fs_buffer fs') = rest \<and> batch_list (feed_requests r) = ms"
proof -
  obtain bb where a: "Append cap bs (fs_buffer fs) = Some bb" "wf_buffer bb"
      "ReadableBytes bb = ReadableBytes (fs_buffer fs) @ bs"
    using Append_readable assms(1) unfolding wf_stream_def by blast
  obtain bb' b where "decode_loop env (fs_limits fs) bb False empty_batch = Some (bb', bad, b)"
      "wf_buffer bb'" "ReadableBytes bb' = rest" "batch_list b = ms"
    using decode_loop_refines[OF a(2) empty_batch_list(2), of env "fs_limits fs" ms rest bad] assms(3) a(3)
    by auto
  then show ?thesis
    using a assms(2) by (simp add: FeedBytes_def DecodeAvailableRequests_def wf_stream_def)
qed

lemma FeedBytes_closed:
  "fs_closed fs \<Longrightarrow>
     FeedBytes env cap bs fs = Some (fs, \<lparr>feed_requests = empty_batch, feed_closed = True\<rparr>)"
  by (simp add: FeedBytes_def)

lemma FeedBytes_total:
  assumes "wf_stream fs"
  shows "\<exists>fs' r. FeedBytes env cap bs fs = Some (fs', r) \<and> wf_stream fs' \<and> fs_limits fs' = fs_limits fs"
  using FeedBytes_refines[OF assms] FeedBytes_closed[of fs] assms
  by (cases "fs_closed fs") (metis prod_cases3)+

lemma feed_all_refines:
  assumes "wf_stream fs"
    "feed_chunks (request_step env (fs_limits fs)) (ReadableBytes (fs_buffer fs), fs_closed fs)
       (map snd cs) = (ms, rest, bad)"
  shows "\<exists>fs'. feed_all env fs cs = Some (fs', ms) \<and> wf_stream fs' \<and> fs_closed fs' = bad \<and>
    ReadableBytes (fs_buffer fs') = rest"
  using assms
proof (induction cs arbitrary: fs ms)
  case Nil
  then show ?case by simp
next
  case (Cons c cs)
  obtain cap bs where c: "c = (cap, bs)" by (cases c)
  show ?case
  proof (cases "fs_closed fs")
    case True
    then show ?thesis
      using Cons.IH[OF Cons.prems(1), of ms] Cons.prems c by (auto simp: FeedBytes_closed)
  next
    case False
    obtain ms1 rest1 bad1 where
      d: "decode_all (request_step env (fs_limits fs)) (ReadableBytes (fs_buffer fs) @ bs) =
        (ms1, rest1, bad1)" by (metis prod_cases3)
    obtain fs1 r where f: "FeedBytes env cap bs fs = Some (fs1, r)" "wf_stream fs1"
        "fs_limits fs1 = fs_limits fs" "fs_closed fs1 = bad1"
        "ReadableBytes (fs_buffer fs1) = rest1" "batch_list (feed_requests r) = ms1"
      using FeedBytes_refines[OF Cons.prems(1) False d, of cap] by blast
    obtain ms2 where ms2: "ms = ms1 @ ms2"
      "feed_chunks (request_step env (fs_limits fs1)) (ReadableBytes (fs_buffer fs1), fs_closed fs1)
         (map snd cs) = (ms2, rest, bad)"
      using Cons.prems(2) False d f c by (auto split: prod.splits)
    from Cons.IH[OF f(2) ms2(2)] f ms2(1) c show ?thesis by auto
  qed
qed

lemma feed_all_stream:
  "\<exists>fs'. feed_all env (new_stream limits) cs =
      Some (fs', fst (decode_all (request_step env limits) (concat (map snd cs)))) \<and>
    fs_closed fs' = snd (snd (decode_all (request_step env limits) (concat (map snd cs))))"
proof -
  have "decode_all (request_step env limits) [] = ([], [], False)"
    by (simp add: request_frames.decode_all_More request_step_laws(1))
  note eq = request_frames.feed_chunks_concat[OF this, of "map snd cs"]
  obtain ms rest bad where
    f: "feed_chunks (request_step env limits) ([], False) (map snd cs) = (ms, rest, bad)"
    by (metis prod_cases3)
  show ?thesis
    using feed_all_refines[of "new_stream limits" env cs ms rest bad] f eq by auto
qed

section \<open>Properties\<close>

text \<open>C17. The server's incremental decoder does not depend on how TCP splits the byte stream, nor
  on the capacities its string buffer happens to have: two sequences of feeds with the same
  concatenation neither abort nor fail an assertion, and deliver the same requests in the same
  order and the same verdict on the stream.\<close>

theorem stream_chunking_independent:
  assumes "concat (map snd cs) = concat (map snd cs')"
  shows "\<exists>fs fs' requests. feed_all env (new_stream limits) cs = Some (fs, requests) \<and>
    feed_all env (new_stream limits) cs' = Some (fs', requests) \<and> fs_closed fs = fs_closed fs'"
  using feed_all_stream[of env limits cs] feed_all_stream[of env limits cs'] assms by auto

theorem stream_chunking_independent_witness:
  "\<exists>fs fs' requests. feed_all demo_env (new_stream demo_limits) [(15, [88, 82]), (4, [80])] =
       Some (fs, requests) \<and>
     feed_all demo_env (new_stream demo_limits) [(0, [88]), (0, []), (30, [82, 80])] =
       Some (fs', requests) \<and> fs_closed fs = fs_closed fs'"
  using stream_chunking_independent[of "[(15, [88, 82]), (4, [80])]"
      "[(0, [88]), (0, []), (30, [82, 80])]" demo_env demo_limits] by simp

lemma request_step_encoded:
  assumes "request_metadata_ok env r" "parseable_limits limits"
    "Encode_request env limits r = Value f"
  shows "request_step env limits (f @ suf) = Frame (length f) r"
  using Decode_encoded_request[OF assms, of suf] by (simp add: request_step_def)

lemma encoded_stream_decodes:
  assumes "list_all2 (\<lambda>r f. request_metadata_ok env r \<and> Encode_request env limits r = Value f) rs frames"
    "parseable_limits limits"
  shows "decode_all (request_step env limits) (concat frames @ suf) =
    (case decode_all (request_step env limits) suf of (ms, r) \<Rightarrow> (rs @ ms, r))"
proof -
  have len: "length frames = length rs" using assms(1) by (simp add: list_all2_lengthD)
  have "request_step env limits (f @ s) = Frame (length f) r" if "(f, r) \<in> set (zip frames rs)" for f r s
  proof -
    obtain i where "i < length rs" "f = frames ! i" "r = rs ! i"
      using \<open>(f, r) \<in> set (zip frames rs)\<close> len by (auto simp: in_set_zip)
    then show ?thesis
      using assms by (auto simp: list_all2_conv_all_nth intro!: request_step_encoded)
  qed
  then show ?thesis
    using request_frames.decode_all_frames[of "zip frames rs" env limits suf] len by simp
qed

text \<open>C1. End to end over one connection: when a client writes the frames of the requests \<open>rs\<close> and
  TCP delivers their bytes in any pieces, the server's stream yields exactly \<open>rs\<close>, each once and
  in order, and stays open; if the last frame is cut short, the complete ones before it are
  still delivered and the stream waits for the rest.\<close>

theorem stream_delivers_requests:
  assumes "list_all2 (\<lambda>r f. request_metadata_ok env r \<and> Encode_request env limits r = Value f)
      rs frames"
    "request_metadata_ok env q" "Encode_request env limits q = Value last_frame"
    "n < length last_frame" "parseable_limits limits"
    "concat (map snd cs) = concat frames @ take n last_frame"
  shows "\<exists>fs. feed_all env (new_stream limits) cs = Some (fs, rs) \<and> \<not> fs_closed fs"
proof -
  have "dec_error (Decode env limits (take n last_frame)) = NeedMoreData"
    using assms(3,4)
    by (auto simp: Encode_request_Value Let_def simp del: take_append intro!: wire_prefix_needs_more)
  then have "request_step env limits (take n last_frame) = More"
    by (simp add: request_step_def)
  then have "decode_all (request_step env limits) (concat frames @ take n last_frame) =
      (rs, take n last_frame, False)"
    using encoded_stream_decodes[OF assms(1,5), of "take n last_frame"]
    by (simp add: request_frames.decode_all_More)
  then show ?thesis using feed_all_stream[of env limits cs] assms(6) by auto
qed

theorem stream_delivers_requests_witness:
  "\<exists>fs. feed_all demo_env (new_stream demo_limits)
      (let f = the_value (Encode_request demo_env demo_limits demo_request)
       in [(15, take 10 f), (64, drop 10 f @ take 2 f), (64, []), (64, take 3 (drop 2 f))]) =
      Some (fs, [demo_request]) \<and> \<not> fs_closed fs"
proof -
  obtain f where f: "Encode_request demo_env demo_limits demo_request = Value f"
    using demo_ok(4) by blast
  then have "5 < length f"
    by (auto simp: Encode_request_Value demo_env_def demo_request_def HEADER_SIZE_def Let_def)
  moreover have "concat (map snd [(15 :: nat, take 10 f), (64, drop 10 f @ take 2 f), (64, []),
      (64, take 3 (drop 2 f))]) = concat [f] @ take 5 f"
    using take_add[of 2 3 f] by simp
  ultimately show ?thesis
    using stream_delivers_requests[of demo_env demo_limits "[demo_request]" "[f]" demo_request f 5
        "[(15, take 10 f), (64, drop 10 f @ take 2 f), (64, []), (64, take 3 (drop 2 f))]"]
      f demo_ok(1,3) by (simp add: Let_def del: feed_all.simps)
qed

text \<open>C19. A protocol error closes the stream for good: from the feed in which a bad frame shows up,
  the requests decoded before it are still handed out, and every later feed reports the stream
  closed with no request, whatever the bytes.\<close>

theorem bad_frame_closes_stream:
  assumes "list_all2 (\<lambda>r f. request_metadata_ok env r \<and> Encode_request env limits r = Value f)
      rs frames"
    "parseable_limits limits" "request_step env limits bad = Bad"
    "concat (map snd cs) = concat frames @ bad @ garbage"
  shows "\<exists>fs. feed_all env (new_stream limits) cs = Some (fs, rs) \<and> fs_closed fs \<and>
    FeedBytes env cap bs fs = Some (fs, \<lparr>feed_requests = empty_batch, feed_closed = True\<rparr>)"
proof -
  have "decode_all (request_step env limits) (bad @ garbage) = ([], bad @ garbage, True)"
    using request_frames.decode_all_Bad[OF request_step_laws(4)[OF assms(3)]] .
  with encoded_stream_decodes[OF assms(1,2), of "bad @ garbage"]
  have "decode_all (request_step env limits) (concat frames @ bad @ garbage) =
      (rs, bad @ garbage, True)" by simp
  then show ?thesis
    using feed_all_stream[of env limits cs] assms(4) FeedBytes_closed by auto
qed

lemma demo_bad: "request_step demo_env demo_limits (replicate 24 0) = Bad"
proof -
  have "Decode_header LittleEndian (replicate 24 0) = None" by code_simp
  then have "Decode demo_env demo_limits (replicate 24 0) = decode_failure InvalidMagic 0"
    by (simp add: Decode_def ReadFrame_def Let_def HEADER_SIZE_def sub_bytes_def view_error_def
        demo_env_def)
  then show ?thesis by (simp add: request_step_def)
qed

theorem bad_frame_closes_stream_witness:
  "\<exists>fs. feed_all demo_env (new_stream demo_limits)
      [(64, the_value (Encode_request demo_env demo_limits demo_request) @ replicate 7 0),
       (64, replicate 17 0 @ [1])] = Some (fs, [demo_request]) \<and> fs_closed fs \<and>
    FeedBytes demo_env 64 [5] fs =
      Some (fs, \<lparr>feed_requests = empty_batch, feed_closed = True\<rparr>)"
proof -
  obtain f where f: "Encode_request demo_env demo_limits demo_request = Value f"
    using demo_ok(4) by blast
  have "replicate 7 (0 :: byte) @ replicate 17 0 = replicate 24 0"
    by (simp flip: replicate_add)
  then have "concat (map snd [(64 :: nat, f @ replicate 7 0), (64, replicate 17 0 @ [1])]) =
      concat [f] @ replicate 24 0 @ [1]" by simp
  then show ?thesis
    using bad_frame_closes_stream[of demo_env demo_limits "[demo_request]" "[f]" "replicate 24 0"
        "[(64, f @ replicate 7 0), (64, replicate 17 0 @ [1])]" "[1]" 64 "[5]"]
      f demo_ok(1,3) demo_bad by (simp del: feed_all.simps)
qed

end
