(* ===== verification/Mpsc_Queue.thy ===== *)
theory Mpsc_Queue
  imports Status
begin

text \<open>
  \<^verbatim>\<open>src/include/common/mpsc_queue.h\<close>: the bounded lock-free queue. Each atomic access of the
  source is one step of a thread, and threads interleave arbitrarily (sequentially consistent
  interleaving; the acquire and release annotations are not modelled further). Positions are
  64-bit and wrap. Constructing over a live value and moving out of an empty slot are undefined
  behaviour in C++; the invariant shows that neither occurs.
\<close>

section \<open>The queue\<close>

record 'a slot =
  storage :: "'a option"
  ready :: bool

record 'a mpsc_queue =
  enqueue_position :: u64
  capacity :: nat
  slots :: "'a slot list"
  dequeue_position :: u64

definition empty_slot :: "'a slot" where
  "empty_slot = \<lparr>storage = None, ready = False\<rparr>"

definition MpscQueue :: "nat \<Rightarrow> (cxx_exception + 'a mpsc_queue)" where
  "MpscQueue cap =
    (if cap = 0 then Inl (StdInvalidArgument ''MpscQueue capacity must be greater than zero'')
     else Inr \<lparr>enqueue_position = 0, capacity = cap, slots = replicate cap empty_slot,
       dequeue_position = 0\<rparr>)"

definition slot_index :: "'a mpsc_queue \<Rightarrow> u64 \<Rightarrow> nat" where
  "slot_index q p = unat p mod capacity q"

definition set_slot :: "u64 \<Rightarrow> ('a slot \<Rightarrow> 'a slot) \<Rightarrow> 'a mpsc_queue \<Rightarrow> 'a mpsc_queue" where
  "set_slot p f q = q\<lparr>slots := (slots q)[slot_index q p := f (slots q ! slot_index q p)]\<rparr>"

section \<open>Threads\<close>

text \<open>Where a producer is inside \<^verbatim>\<open>TryPush(value)\<close>, with its local variables.\<close>

datatype 'a push_pc =
    PushIdle
  | PushLoadDequeue 'a
  | PushLoadEnqueue 'a u64
  | PushCas 'a u64 u64
  | PushConstruct 'a u64
  | PushPublish 'a u64

datatype 'a push_event = NoPush | Reserved 'a | Pushed | PushFull 'a

text \<open>One atomic step. \<open>weak\<close> lets \<^verbatim>\<open>compare_exchange_weak\<close> fail spuriously.\<close>

fun TryPush_step ::
  "bool \<Rightarrow> 'a push_pc \<Rightarrow> 'a mpsc_queue \<Rightarrow> 'a mpsc_queue \<times> 'a push_pc \<times> 'a push_event" where
  "TryPush_step weak PushIdle q = (q, PushIdle, NoPush)"
| "TryPush_step weak (PushLoadDequeue v) q = (q, PushLoadEnqueue v (dequeue_position q), NoPush)"
| "TryPush_step weak (PushLoadEnqueue v d) q =
    (let e = enqueue_position q
     in if unat (e - d) \<ge> capacity q then (q, PushIdle, PushFull v)
        else (q, PushCas v d e, NoPush))"
| "TryPush_step weak (PushCas v d e) q =
    (if enqueue_position q = e \<and> \<not> weak
     then (q\<lparr>enqueue_position := e + 1\<rparr>, PushConstruct v e, Reserved v)
     else (q, PushLoadDequeue v, NoPush))"
| "TryPush_step weak (PushConstruct v e) q =
    (set_slot e (\<lambda>s. s\<lparr>storage := Some v\<rparr>) q, PushPublish v e, NoPush)"
| "TryPush_step weak (PushPublish v e) q = (set_slot e (\<lambda>s. s\<lparr>ready := True\<rparr>) q, PushIdle, Pushed)"

text \<open>Where the consumer is inside \<^verbatim>\<open>TryPop(output)\<close>; \<open>PopClear\<close> and \<open>PopAdvance\<close> carry the
  output moved out of the slot.\<close>

datatype 'a pop_pc =
    PopIdle
  | PopLoadEnqueue
  | PopLoadDequeue u64
  | PopLoadReady u64
  | PopTake u64
  | PopClear u64 'a
  | PopAdvance u64 'a

datatype 'a pop_event = NoPop | PopEmpty | Popped 'a

fun TryPop_step :: "'a pop_pc \<Rightarrow> 'a mpsc_queue \<Rightarrow> ('a mpsc_queue \<times> 'a pop_pc \<times> 'a pop_event) option" where
  "TryPop_step PopIdle q = Some (q, PopIdle, NoPop)"
| "TryPop_step PopLoadEnqueue q = Some (q, PopLoadDequeue (enqueue_position q), NoPop)"
| "TryPop_step (PopLoadDequeue e) q =
    (let d = dequeue_position q
     in if e = d then Some (q, PopIdle, PopEmpty) else Some (q, PopLoadReady d, NoPop))"
| "TryPop_step (PopLoadReady d) q =
    (if \<not> ready (slots q ! slot_index q d) then Some (q, PopIdle, PopEmpty)
     else Some (q, PopTake d, NoPop))"
| "TryPop_step (PopTake d) q =
    (case storage (slots q ! slot_index q d) of
       None \<Rightarrow> None
     | Some v \<Rightarrow> Some (set_slot d (\<lambda>s. s\<lparr>storage := None\<rparr>) q, PopClear d v, NoPop))"
| "TryPop_step (PopClear d v) q =
    Some (set_slot d (\<lambda>s. s\<lparr>ready := False\<rparr>) q, PopAdvance d v, NoPop)"
| "TryPop_step (PopAdvance d v) q = Some (q\<lparr>dequeue_position := d + 1\<rparr>, PopIdle, Popped v)"

section \<open>Interleaving\<close>

text \<open>Producers are numbered. \<open>reserved\<close> and \<open>taken\<close> record which producer reserved the next
  position for which value, and which values the consumer received, in the order in which
  they happened; \<open>undefined_behaviour\<close> records a move out of an empty slot.\<close>

record 'a mpsc_system =
  shared_queue :: "'a mpsc_queue"
  producers :: "nat \<Rightarrow> 'a push_pc"
  consumer :: "'a pop_pc"
  reserved :: "(nat \<times> 'a) list"
  taken :: "'a list"
  undefined_behaviour :: bool

definition mpsc_init :: "'a mpsc_queue \<Rightarrow> 'a mpsc_system" where
  "mpsc_init q = \<lparr>shared_queue = q, producers = (\<lambda>t. PushIdle), consumer = PopIdle, reserved = [],
     taken = [], undefined_behaviour = False\<rparr>"

definition producer_acts :: "nat \<Rightarrow> bool \<Rightarrow> 'a mpsc_system \<Rightarrow> 'a mpsc_system" where
  "producer_acts t weak s =
    (case TryPush_step weak (producers s t) (shared_queue s) of (q, pc, ev) \<Rightarrow>
       s\<lparr>shared_queue := q, producers := (producers s)(t := pc),
         reserved := (case ev of Reserved v \<Rightarrow> reserved s @ [(t, v)] | _ \<Rightarrow> reserved s)\<rparr>)"

definition consumer_acts :: "'a mpsc_system \<Rightarrow> 'a mpsc_system" where
  "consumer_acts s =
    (case TryPop_step (consumer s) (shared_queue s) of
       None \<Rightarrow> s\<lparr>undefined_behaviour := True\<rparr>
     | Some (q, pc, ev) \<Rightarrow>
         s\<lparr>shared_queue := q, consumer := pc,
           taken := (case ev of Popped v \<Rightarrow> taken s @ [v] | _ \<Rightarrow> taken s)\<rparr>)"

inductive mpsc_step :: "'a mpsc_system \<Rightarrow> 'a mpsc_system \<Rightarrow> bool" where
  call_push: "producers s t = PushIdle \<Longrightarrow>
    mpsc_step s (s\<lparr>producers := (producers s)(t := PushLoadDequeue v)\<rparr>)"
| producer: "mpsc_step s (producer_acts t weak s)"
| call_pop: "consumer s = PopIdle \<Longrightarrow> mpsc_step s (s\<lparr>consumer := PopLoadEnqueue\<rparr>)"
| consumer: "mpsc_step s (consumer_acts s)"

text \<open>The systems that a queue of capacity \<open>cap\<close> can get into.\<close>

inductive mpsc_reach :: "nat \<Rightarrow> 'a mpsc_system \<Rightarrow> bool" for cap where
  mpsc_start: "MpscQueue cap = Inr q \<Longrightarrow> mpsc_reach cap (mpsc_init q)"
| mpsc_next: "mpsc_reach cap s \<Longrightarrow> mpsc_step s s' \<Longrightarrow> mpsc_reach cap s'"

section \<open>The invariant\<close>

text \<open>The producer of position \<open>i\<close> has finished writing it.\<close>

definition published :: "'a mpsc_system \<Rightarrow> nat \<Rightarrow> bool" where
  "published s i \<longleftrightarrow>
    (case reserved s ! i of (t, v) \<Rightarrow>
       producers s t \<noteq> PushConstruct v (of_nat i) \<and> producers s t \<noteq> PushPublish v (of_nat i))"

text \<open>What the slot of position \<open>i\<close> holds, for the positions in the current window.\<close>

definition position_slot :: "'a mpsc_system \<Rightarrow> nat \<Rightarrow> 'a slot" where
  "position_slot s i =
    (if length (reserved s) \<le> i then empty_slot
     else case reserved s ! i of (t, v) \<Rightarrow>
       if producers s t = PushConstruct v (of_nat i) then empty_slot
       else if producers s t = PushPublish v (of_nat i) then \<lparr>storage = Some v, ready = False\<rparr>
       else if i = length (taken s) then
         (case consumer s of
            PopClear _ _ \<Rightarrow> \<lparr>storage = None, ready = True\<rparr>
          | PopAdvance _ _ \<Rightarrow> empty_slot
          | _ \<Rightarrow> \<lparr>storage = Some v, ready = True\<rparr>)
       else \<lparr>storage = Some v, ready = True\<rparr>)"

definition counters_ok :: "nat \<Rightarrow> 'a mpsc_system \<Rightarrow> bool" where
  "counters_ok cap s \<longleftrightarrow>
    0 < cap \<and> capacity (shared_queue s) = cap \<and> length (slots (shared_queue s)) = cap \<and>
    enqueue_position (shared_queue s) = of_nat (length (reserved s)) \<and>
    dequeue_position (shared_queue s) = of_nat (length (taken s)) \<and>
    length (taken s) \<le> length (reserved s) \<and>
    length (reserved s) \<le> length (taken s) + cap \<and> length (reserved s) < 2 ^ 64 \<and>
    map snd (take (length (taken s)) (reserved s)) = taken s \<and> \<not> undefined_behaviour s"

definition slots_ok :: "nat \<Rightarrow> 'a mpsc_system \<Rightarrow> bool" where
  "slots_ok cap s \<longleftrightarrow> (\<forall>i. length (taken s) \<le> i \<and> i < length (taken s) + cap \<longrightarrow>
     slots (shared_queue s) ! (i mod cap) = position_slot s i)"

fun push_pc_ok :: "nat \<Rightarrow> 'a mpsc_system \<Rightarrow> nat \<Rightarrow> 'a push_pc \<Rightarrow> bool" where
  "push_pc_ok cap s t (PushLoadEnqueue v d) = (unat d \<le> length (taken s))"
| "push_pc_ok cap s t (PushCas v d e) =
    (unat d \<le> length (taken s) \<and> unat d \<le> unat e \<and> unat e \<le> length (reserved s) \<and>
     unat e < unat d + cap)"
| "push_pc_ok cap s t (PushConstruct v e) =
    (length (taken s) \<le> unat e \<and> unat e < length (reserved s) \<and> reserved s ! unat e = (t, v))"
| "push_pc_ok cap s t (PushPublish v e) =
    (length (taken s) \<le> unat e \<and> unat e < length (reserved s) \<and> reserved s ! unat e = (t, v))"
| "push_pc_ok cap s t _ = True"

fun pop_pc_ok :: "'a mpsc_system \<Rightarrow> 'a pop_pc \<Rightarrow> bool" where
  "pop_pc_ok s (PopLoadDequeue e) = (length (taken s) \<le> unat e \<and> unat e \<le> length (reserved s))"
| "pop_pc_ok s (PopLoadReady d) = (d = of_nat (length (taken s)) \<and> length (taken s) < length (reserved s))"
| "pop_pc_ok s (PopTake d) = (d = of_nat (length (taken s)) \<and>
    length (taken s) < length (reserved s) \<and> published s (length (taken s)))"
| "pop_pc_ok s (PopClear d v) = (d = of_nat (length (taken s)) \<and>
    length (taken s) < length (reserved s) \<and> published s (length (taken s)) \<and>
    v = snd (reserved s ! length (taken s)))"
| "pop_pc_ok s (PopAdvance d v) = (d = of_nat (length (taken s)) \<and>
    length (taken s) < length (reserved s) \<and> published s (length (taken s)) \<and>
    v = snd (reserved s ! length (taken s)))"
| "pop_pc_ok s _ = True"

definition mpsc_inv :: "nat \<Rightarrow> 'a mpsc_system \<Rightarrow> bool" where
  "mpsc_inv cap s \<longleftrightarrow> counters_ok cap s \<and> slots_ok cap s \<and>
    (\<forall>t. push_pc_ok cap s t (producers s t)) \<and> pop_pc_ok s (consumer s)"

text \<open>Two positions of the window share a slot only if they are equal.\<close>

lemma window_inj:
  fixes i j D cap :: nat
  assumes "D \<le> i" "i < D + cap" "D \<le> j" "j < D + cap"
  shows "i mod cap = j mod cap \<longleftrightarrow> i = j"
proof
  assume m: "i mod cap = j mod cap"
  have le: "a \<le> b \<Longrightarrow> a mod cap = b mod cap \<Longrightarrow> b < a + cap \<Longrightarrow> a = b" for a b :: nat
  proof -
    assume a: "a \<le> b" "a mod cap = b mod cap" "b < a + cap"
    then have "cap dvd b - a" using mod_eq_dvd_iff_nat[of a b cap] by simp
    moreover have "b - a < cap" using a by linarith
    ultimately show "a = b" using a nat_dvd_not_less[of "b - a" cap] by linarith
  qed
  show "i = j" using le[of i j] le[of j i] m assms by linarith
qed simp

lemma set_slot_simps [simp]:
  "capacity (set_slot p f q) = capacity q" "enqueue_position (set_slot p f q) = enqueue_position q"
  "dequeue_position (set_slot p f q) = dequeue_position q"
  "length (slots (set_slot p f q)) = length (slots q)"
  by (simp_all add: set_slot_def)

lemma set_slot_nth:
  assumes "length (slots q) = capacity q" "0 < capacity q" "k < capacity q"
  shows "slots (set_slot p f q) ! k =
    (if k = unat p mod capacity q then f (slots q ! k) else slots q ! k)"
  using assms by (auto simp: set_slot_def slot_index_def)

text \<open>A step that changes only the control point of one producer, outside the two writing steps.\<close>

fun writing :: "'a push_pc \<Rightarrow> bool" where
  "writing (PushConstruct _ _) = True"
| "writing (PushPublish _ _) = True"
| "writing _ = False"

lemma not_writing: "\<not> writing pc \<Longrightarrow> pc \<noteq> PushConstruct v p \<and> pc \<noteq> PushPublish v p"
  by auto

lemma position_slot_nonwriting:
  assumes "\<not> writing (producers s t)" "\<not> writing pc"
  shows "position_slot (s\<lparr>producers := (producers s)(t := pc)\<rparr>) i = position_slot s i"
    and "published (s\<lparr>producers := (producers s)(t := pc)\<rparr>) i = published s i"
  using not_writing[OF assms(1)] not_writing[OF assms(2)]
  by (cases "reserved s ! i"; simp add: position_slot_def published_def)+

lemma push_pc_ok_frame [simp]:
  "push_pc_ok cap (s\<lparr>producers := p\<rparr>) t pc = push_pc_ok cap s t pc"
  "push_pc_ok cap (s\<lparr>consumer := c\<rparr>) t pc = push_pc_ok cap s t pc"
  "push_pc_ok cap (s\<lparr>shared_queue := q\<rparr>) t pc = push_pc_ok cap s t pc"
  by (cases pc; simp)+

lemma position_slot_frame [simp]:
  "position_slot (s\<lparr>shared_queue := q\<rparr>) i = position_slot s i"
  "published (s\<lparr>shared_queue := q\<rparr>) i = published s i"
  "published (s\<lparr>consumer := c\<rparr>) i = published s i"
  by (cases "reserved s ! i"; simp add: position_slot_def published_def)+

lemma pop_pc_ok_frame [simp]:
  "pop_pc_ok (s\<lparr>shared_queue := q\<rparr>) c = pop_pc_ok s c"
  "pop_pc_ok (s\<lparr>consumer := c'\<rparr>) c = pop_pc_ok s c"
  by (cases c; simp)+

lemma mpsc_inv_producer_local:
  assumes "mpsc_inv cap s" "\<not> writing (producers s t)" "\<not> writing pc" "push_pc_ok cap s t pc"
  shows "mpsc_inv cap (s\<lparr>producers := (producers s)(t := pc)\<rparr>)"
proof -
  have "pop_pc_ok (s\<lparr>producers := (producers s)(t := pc)\<rparr>) c = pop_pc_ok s c" for c
    using assms by (cases c) (simp_all add: position_slot_nonwriting)
  with assms show ?thesis
    unfolding mpsc_inv_def counters_ok_def slots_ok_def by (simp add: position_slot_nonwriting)
qed

lemma mpsc_inv_init:
  "MpscQueue cap = Inr q \<Longrightarrow> mpsc_inv cap (mpsc_init q)"
  by (auto simp: MpscQueue_def mpsc_inv_def counters_ok_def slots_ok_def position_slot_def
      mpsc_init_def split: if_splits)

lemma of_nat_eq64: "i < 2 ^ 64 \<Longrightarrow> j < 2 ^ 64 \<Longrightarrow> (of_nat i :: u64) = of_nat j \<longleftrightarrow> i = j"
  by (simp add: word_of_nat_eq_iff take_bit_nat_eq_self)

lemma unat64: "i < 2 ^ 64 \<Longrightarrow> unat (of_nat i :: u64) = i"
  by (simp add: unat_of_nat take_bit_nat_eq_self)

text \<open>The effect of a step of the producer of position \<open>p\<close> on the other positions.\<close>

lemma position_slot_writer:
  assumes "producers s t = PushConstruct v p \<or> producers s t = PushPublish v p"
    "\<not> writing pc \<or> pc = PushPublish v p" "i < 2 ^ 64" "i \<noteq> unat p"
  shows "position_slot (s\<lparr>producers := (producers s)(t := pc)\<rparr>) i = position_slot s i"
    and "published (s\<lparr>producers := (producers s)(t := pc)\<rparr>) i = published s i"
proof -
  have ne: "p \<noteq> of_nat i" using assms(3,4) by (auto simp: unat64)
  have pc: "pc \<noteq> PushConstruct w (of_nat i)" "pc \<noteq> PushPublish w (of_nat i)" for w
    using assms(2) ne by (auto simp: not_writing)
  have old: "producers s t \<noteq> PushConstruct w (of_nat i)" "producers s t \<noteq> PushPublish w (of_nat i)" for w
    using assms(1) ne by auto
  show "position_slot (s\<lparr>producers := (producers s)(t := pc)\<rparr>) i = position_slot s i"
    and "published (s\<lparr>producers := (producers s)(t := pc)\<rparr>) i = published s i"
    using pc old by (cases "reserved s ! i"; simp add: position_slot_def published_def)+
qed

lemma window_position:
  assumes "counters_ok cap s" "slots_ok cap s" "length (taken s) \<le> unat p"
    "unat p < length (reserved s)"
  shows "slots (shared_queue s) ! (unat p mod cap) = position_slot s (unat p)"
    and "unat p < length (taken s) + cap"
  using assms by (auto simp: counters_ok_def slots_ok_def)

lemma slots_ok_set_slot:
  assumes "counters_ok cap s" "slots_ok cap s" "length (taken s) \<le> unat p" "unat p < length (reserved s)"
    and "reserved s' = reserved s" "taken s' = taken s"
    and "shared_queue s' = set_slot p f (shared_queue s)"
    and "\<And>i. i \<noteq> unat p \<Longrightarrow> i < length (reserved s) \<Longrightarrow> position_slot s' i = position_slot s i"
    and "position_slot s' (unat p) = f (position_slot s (unat p))"
  shows "slots_ok cap s'"
  unfolding slots_ok_def
proof (intro allI impI)
  fix i assume i: "length (taken s') \<le> i \<and> i < length (taken s') + cap"
  have c: "capacity (shared_queue s) = cap" "length (slots (shared_queue s)) = cap" "0 < cap"
    using assms(1) by (auto simp: counters_ok_def)
  have q: "slots (shared_queue s') ! (i mod cap) =
      (if i mod cap = unat p mod cap then f (slots (shared_queue s) ! (i mod cap))
       else slots (shared_queue s) ! (i mod cap))"
    using set_slot_nth[of "shared_queue s" "i mod cap" p f] c assms(7) by simp
  have w: "unat p < length (taken s) + cap" using window_position(2)[OF assms(1-4)] .
  then have eq: "i mod cap = unat p mod cap \<longleftrightarrow> i = unat p"
    using i assms(3,6) by (intro window_inj) auto
  have old: "slots (shared_queue s) ! (i mod cap) = position_slot s i"
    using i assms(2,6) by (simp add: slots_ok_def)
  show "slots (shared_queue s') ! (i mod cap) = position_slot s' i"
  proof (cases "i < length (reserved s)")
    case True
    then show ?thesis using q eq old assms(8,9) by (cases "i = unat p") auto
  next
    case False
    then have "i \<noteq> unat p" using assms(4) by auto
    then show ?thesis using q eq old False assms(5) by (simp add: position_slot_def)
  qed
qed

lemma counters_ok_writer:
  "counters_ok cap s \<Longrightarrow> counters_ok cap (s\<lparr>shared_queue := set_slot p f (shared_queue s),
     producers := x\<rparr>)"
  by (simp add: counters_ok_def)

lemma pop_pc_ok_published:
  assumes "pop_pc_ok s c" "\<And>i. i < length (reserved s) \<Longrightarrow> published s i \<Longrightarrow> published s' i"
    "reserved s' = reserved s" "taken s' = taken s"
  shows "pop_pc_ok s' c"
  using assms by (cases c) auto

lemma mpsc_inv_construct:
  assumes "mpsc_inv cap s" "producers s t = PushConstruct v p"
  shows "mpsc_inv cap (s\<lparr>shared_queue := set_slot p (\<lambda>x. x\<lparr>storage := Some v\<rparr>) (shared_queue s),
    producers := (producers s)(t := PushPublish v p)\<rparr>)" (is "mpsc_inv cap ?s'")
proof -
  have inv: "counters_ok cap s" "slots_ok cap s" "\<And>t. push_pc_ok cap s t (producers s t)"
      "pop_pc_ok s (consumer s)" using assms(1) by (auto simp: mpsc_inv_def)
  have p: "length (taken s) \<le> unat p" "unat p < length (reserved s)" "reserved s ! unat p = (t, v)"
    using inv(3)[of t] assms(2) by auto
  have E: "length (reserved s) < 2 ^ 64" using inv(1) by (simp add: counters_ok_def)
  have other: "position_slot ?s' i = position_slot s i" "published ?s' i = published s i"
    if "i \<noteq> unat p" "i < length (reserved s)" for i
    using position_slot_writer[of "s\<lparr>shared_queue := set_slot p (\<lambda>x. x\<lparr>storage := Some v\<rparr>) (shared_queue s)\<rparr>"
        t v p "PushPublish v p" i] assms(2) that E by auto
  have here: "position_slot s (unat p) = empty_slot"
      "position_slot ?s' (unat p) = \<lparr>storage = Some v, ready = False\<rparr>" "\<not> published s (unat p)"
    using p assms(2) by (auto simp: position_slot_def published_def)
  have "slots_ok cap ?s'"
    by (rule slots_ok_set_slot[OF inv(1,2) p(1,2), where f = "\<lambda>x. x\<lparr>storage := Some v\<rparr>"])
      (auto simp: other here empty_slot_def)
  moreover have "published ?s' i" if "i < length (reserved s)" "published s i" for i
    using other(2)[of i] here(3) that by (cases "i = unat p") simp_all
  then have "pop_pc_ok ?s' (consumer s)"
    by (rule pop_pc_ok_published[OF inv(4)]) simp_all
  moreover have "push_pc_ok cap ?s' u (producers ?s' u)" for u
    using inv(3)[of u] p by simp
  ultimately show ?thesis using counters_ok_writer[OF inv(1)] by (simp add: mpsc_inv_def)
qed

lemma mpsc_inv_publish:
  assumes "mpsc_inv cap s" "producers s t = PushPublish v p"
  shows "mpsc_inv cap (s\<lparr>shared_queue := set_slot p (\<lambda>x. x\<lparr>ready := True\<rparr>) (shared_queue s),
    producers := (producers s)(t := PushIdle)\<rparr>)" (is "mpsc_inv cap ?s'")
proof -
  have inv: "counters_ok cap s" "slots_ok cap s" "\<And>t. push_pc_ok cap s t (producers s t)"
      "pop_pc_ok s (consumer s)" using assms(1) by (auto simp: mpsc_inv_def)
  have p: "length (taken s) \<le> unat p" "unat p < length (reserved s)" "reserved s ! unat p = (t, v)"
    using inv(3)[of t] assms(2) by auto
  have E: "length (reserved s) < 2 ^ 64" using inv(1) by (simp add: counters_ok_def)
  have other: "position_slot ?s' i = position_slot s i" "published ?s' i = published s i"
    if "i \<noteq> unat p" "i < length (reserved s)" for i
    using position_slot_writer[of "s\<lparr>shared_queue := set_slot p (\<lambda>x. x\<lparr>ready := True\<rparr>) (shared_queue s)\<rparr>"
        t v p "PushIdle" i] assms(2) that E by auto
  have unpub: "\<not> published s (unat p)" using p assms(2) by (auto simp: published_def)
  then have "position_slot ?s' (unat p) = \<lparr>storage = Some v, ready = True\<rparr>"
    using p inv(4) by (auto simp: position_slot_def split: pop_pc.splits)
  moreover have "position_slot s (unat p) = \<lparr>storage = Some v, ready = False\<rparr>"
    using p assms(2) by (auto simp: position_slot_def)
  ultimately have "slots_ok cap ?s'"
    by (intro slots_ok_set_slot[OF inv(1,2) p(1,2), where f = "\<lambda>x. x\<lparr>ready := True\<rparr>"])
      (auto simp: other)
  moreover have "published ?s' i" if "i < length (reserved s)" "published s i" for i
    using other(2)[of i] unpub that by (cases "i = unat p") simp_all
  then have "pop_pc_ok ?s' (consumer s)"
    by (rule pop_pc_ok_published[OF inv(4)]) simp_all
  moreover have "push_pc_ok cap ?s' u (producers ?s' u)" for u
    using inv(3)[of u] p by simp
  ultimately show ?thesis using counters_ok_writer[OF inv(1)] by (simp add: mpsc_inv_def)
qed

lemma mpsc_inv_cas:
  assumes "mpsc_inv cap s" "producers s t = PushCas v d (enqueue_position (shared_queue s))"
    "Suc (length (reserved s)) < 2 ^ 64"
  shows "mpsc_inv cap (s\<lparr>shared_queue := (shared_queue s)\<lparr>enqueue_position :=
      enqueue_position (shared_queue s) + 1\<rparr>,
    producers := (producers s)(t := PushConstruct v (enqueue_position (shared_queue s))),
    reserved := reserved s @ [(t, v)]\<rparr>)" (is "mpsc_inv cap ?s'")
proof -
  let ?E = "length (reserved s)"
  have inv: "counters_ok cap s" "slots_ok cap s" "\<And>t. push_pc_ok cap s t (producers s t)"
      "pop_pc_ok s (consumer s)" using assms(1) by (auto simp: mpsc_inv_def)
  have c: "enqueue_position (shared_queue s) = of_nat ?E" "?E < 2 ^ 64"
      "length (taken s) \<le> ?E" "?E \<le> length (taken s) + cap"
    using inv(1) by (auto simp: counters_ok_def)
  have room: "?E < length (taken s) + cap"
    using inv(3)[of t] assms(2) c by (auto simp: unat64)
  have nt: "producers s t \<noteq> PushConstruct w x" "producers s t \<noteq> PushPublish w x" for w x
    using assms(2) by auto
  have old: "published ?s' i = published s i" "position_slot ?s' i = position_slot s i"
    if "i < ?E" for i
    using that nt c
    by (cases "reserved s ! i"; simp add: published_def position_slot_def nth_append of_nat_eq64)+
  have new: "position_slot ?s' i = position_slot s i" if "?E \<le> i" for i
    using that c by (cases "i = ?E") (auto simp: position_slot_def nth_append)
  have "position_slot ?s' i = position_slot s i" for i
    using old(2) new by (cases "i < ?E") simp_all
  then have "slots_ok cap ?s'"
    using inv(2) by (simp add: slots_ok_def)
  moreover have "counters_ok cap ?s'"
    using inv(1) room assms(3) by (simp add: counters_ok_def add.commute)
  moreover have "pop_pc_ok ?s' (consumer s)"
    using inv(4) old(1) by (cases "consumer s") (auto simp: nth_append)
  moreover have "push_pc_ok cap ?s' u (producers ?s' u)" for u
    using inv(3)[of u] c by (cases "producers s u") (auto simp: nth_append unat64)
  ultimately show ?thesis by (simp add: mpsc_inv_def)
qed

lemma mpsc_inv_producer_acts:
  assumes "mpsc_inv cap s" "length (reserved (producer_acts t weak s)) < 2 ^ 64"
  shows "mpsc_inv cap (producer_acts t weak s)"
proof (cases "producers s t")
  case PushIdle
  then show ?thesis
    using mpsc_inv_producer_local[OF assms(1), of t PushIdle] by (simp add: producer_acts_def)
next
  case (PushLoadDequeue v)
  moreover have "push_pc_ok cap s t (PushLoadEnqueue v (dequeue_position (shared_queue s)))"
    using assms(1) by (simp add: mpsc_inv_def counters_ok_def unat64)
  ultimately show ?thesis
    using mpsc_inv_producer_local[OF assms(1), of t] by (simp add: producer_acts_def)
next
  case (PushLoadEnqueue v d)
  let ?e = "enqueue_position (shared_queue s)"
  have "push_pc_ok cap s t (PushLoadEnqueue v d)" "counters_ok cap s"
    using assms(1) PushLoadEnqueue unfolding mpsc_inv_def by metis+
  then have c: "unat d \<le> length (taken s)" "?e = of_nat (length (reserved s))"
      "length (reserved s) < 2 ^ 64" "length (taken s) \<le> length (reserved s)"
      "capacity (shared_queue s) = cap"
    by (auto simp: counters_ok_def)
  then have "unat (?e - d) = unat ?e - unat d" by (intro unat_sub) (simp add: word_le_nat_alt unat64)
  then have "push_pc_ok cap s t (PushCas v d ?e)" if "unat (?e - d) < cap"
    using c that by (auto simp: unat64)
  then show ?thesis
    using mpsc_inv_producer_local[OF assms(1), of t PushIdle]
      mpsc_inv_producer_local[OF assms(1), of t "PushCas v d ?e"] PushLoadEnqueue c(5)
    by (auto simp: producer_acts_def Let_def)
next
  case (PushCas v d e)
  then show ?thesis
    using mpsc_inv_producer_local[OF assms(1), of t "PushLoadDequeue v"]
      mpsc_inv_cas[OF assms(1), of t v d] assms(2)
    by (auto simp: producer_acts_def split: if_splits)
next
  case (PushConstruct v p)
  then show ?thesis
    using mpsc_inv_construct[OF assms(1), of t v p] by (simp add: producer_acts_def)
next
  case (PushPublish v p)
  then show ?thesis
    using mpsc_inv_publish[OF assms(1), of t v p] by (simp add: producer_acts_def)
qed

lemma unat_u64D: "unat (p :: u64) = n \<Longrightarrow> p = of_nat n"
  by auto

text \<open>The consumer's steps touch the oldest position only.\<close>

fun popping :: "'a pop_pc \<Rightarrow> bool" where
  "popping (PopClear _ _) = True"
| "popping (PopAdvance _ _) = True"
| "popping _ = False"

lemma position_slot_consumer:
  assumes "i \<noteq> length (taken s) \<or> \<not> popping (consumer s) \<and> \<not> popping c"
  shows "position_slot (s\<lparr>consumer := c\<rparr>) i = position_slot s i"
  using assms
  by (cases "reserved s ! i"; cases "consumer s"; cases c) (simp_all add: position_slot_def)

lemma position_slot_oldest:
  assumes "length (taken s) < length (reserved s)" "published s (length (taken s))"
  shows "position_slot s (length (taken s)) =
    (case consumer s of
       PopClear _ _ \<Rightarrow> \<lparr>storage = None, ready = True\<rparr>
     | PopAdvance _ _ \<Rightarrow> empty_slot
     | _ \<Rightarrow> \<lparr>storage = Some (snd (reserved s ! length (taken s))), ready = True\<rparr>)"
  using assms
  by (cases "reserved s ! length (taken s)"; cases "consumer s")
    (simp_all add: position_slot_def published_def)

lemma position_slot_unpublished:
  "i < length (reserved s) \<Longrightarrow> \<not> published s i \<Longrightarrow> \<not> ready (position_slot s i)"
  by (cases "reserved s ! i") (auto simp: position_slot_def published_def empty_slot_def)

lemma mpsc_inv_consumer_local:
  assumes "mpsc_inv cap s" "\<not> popping (consumer s)" "\<not> popping c" "pop_pc_ok s c"
  shows "mpsc_inv cap (s\<lparr>consumer := c\<rparr>)"
  using assms unfolding mpsc_inv_def counters_ok_def slots_ok_def
  by (simp add: position_slot_consumer)

lemma oldest_slot:
  assumes "mpsc_inv cap s" "length (taken s) < length (reserved s)"
  shows "slots (shared_queue s) ! slot_index (shared_queue s) (of_nat (length (taken s))) =
    position_slot s (length (taken s))"
  using assms by (simp add: mpsc_inv_def counters_ok_def slots_ok_def slot_index_def unat64)

text \<open>The two steps that change the oldest slot.\<close>

lemma mpsc_inv_oldest:
  assumes inv: "mpsc_inv cap s" and ne: "length (taken s) < length (reserved s)"
    and pc: "pop_pc_ok s c"
    and f: "position_slot (s\<lparr>consumer := c\<rparr>) (length (taken s)) =
      f (position_slot s (length (taken s)))"
  shows "mpsc_inv cap (s\<lparr>shared_queue := set_slot (of_nat (length (taken s))) f (shared_queue s),
    consumer := c\<rparr>)" (is "mpsc_inv cap ?s'")
proof -
  let ?D = "length (taken s)"
  have ok: "counters_ok cap s" "slots_ok cap s" using inv by (auto simp: mpsc_inv_def)
  then have D: "unat (of_nat ?D :: u64) = ?D" using ne by (intro unat64) (simp add: counters_ok_def)
  have slot: "position_slot ?s' i = position_slot (s\<lparr>consumer := c\<rparr>) i" for i
    by (cases "reserved s ! i") (simp add: position_slot_def)
  have "slots_ok cap ?s'"
    by (rule slots_ok_set_slot[OF ok, where f = f and p = "of_nat ?D"])
      (use ne f D in \<open>simp_all add: slot position_slot_consumer\<close>)
  then show ?thesis
    using inv pc by (simp add: mpsc_inv_def counters_ok_def)
qed

lemma mpsc_inv_advance:
  assumes inv: "mpsc_inv cap s" and c: "consumer s = PopAdvance d v"
  shows "mpsc_inv cap (s\<lparr>shared_queue := (shared_queue s)\<lparr>dequeue_position := d + 1\<rparr>,
    consumer := PopIdle, taken := taken s @ [v]\<rparr>)" (is "mpsc_inv cap ?s'")
proof -
  let ?D = "length (taken s)"
  have ok: "counters_ok cap s" "slots_ok cap s" "\<And>t. push_pc_ok cap s t (producers s t)"
    using inv by (auto simp: mpsc_inv_def)
  have pc: "d = of_nat ?D" "?D < length (reserved s)" "published s ?D" "v = snd (reserved s ! ?D)"
    using inv c by (auto simp: mpsc_inv_def)
  have cap: "0 < cap" "length (reserved s) \<le> ?D + cap" "length (reserved s) < 2 ^ 64"
    using ok(1) by (auto simp: counters_ok_def)
  have slot: "position_slot ?s' i = position_slot s i" if "i \<noteq> ?D" for i
    using that c by (cases "reserved s ! i") (simp add: position_slot_def)
  have "position_slot s ?D = empty_slot" using position_slot_oldest[OF pc(2,3)] c by simp
  moreover have "slots (shared_queue s) ! (?D mod cap) = position_slot s ?D"
    using ok(2) cap by (simp add: slots_ok_def)
  ultimately have "slots (shared_queue s) ! ((?D + cap) mod cap) = position_slot ?s' (?D + cap)"
    using cap by (simp add: position_slot_def)
  then have "slots (shared_queue s) ! (i mod cap) = position_slot ?s' i"
    if "?D < i" "i \<le> ?D + cap" for i
    using ok(2) slot[of i] that by (cases "i = ?D + cap") (simp_all add: slots_ok_def)
  then have "slots_ok cap ?s'" by (simp add: slots_ok_def Suc_le_eq less_Suc_eq_le)
  moreover have "counters_ok cap ?s'"
    using ok(1) pc by (simp add: counters_ok_def take_Suc_conv_app_nth add.commute)
  moreover have "push_pc_ok cap ?s' t (producers s t)" for t
  proof -
    have "unat p \<noteq> ?D" if "producers s t = PushConstruct w p \<or> producers s t = PushPublish w p" for w p
      using pc(3) ok(3)[of t] that unat_u64D[of p ?D] by (auto simp: published_def)
    then show ?thesis using ok(3)[of t] by (cases "producers s t") (auto simp: Suc_le_eq le_neq_implies_less)
  qed
  ultimately show ?thesis by (simp add: mpsc_inv_def)
qed

lemma mpsc_inv_consumer_acts:
  assumes "mpsc_inv cap s"
  shows "mpsc_inv cap (consumer_acts s)"
proof (cases "consumer s")
  case PopIdle
  then show ?thesis
    using mpsc_inv_consumer_local[OF assms, of PopIdle] by (simp add: consumer_acts_def)
next
  case PopLoadEnqueue
  moreover have "pop_pc_ok s (PopLoadDequeue (enqueue_position (shared_queue s)))"
    using assms by (simp add: mpsc_inv_def counters_ok_def unat64)
  ultimately show ?thesis
    using mpsc_inv_consumer_local[OF assms] by (simp add: consumer_acts_def)
next
  case (PopLoadDequeue e)
  let ?d = "dequeue_position (shared_queue s)"
  have d: "?d = of_nat (length (taken s))" "length (taken s) < 2 ^ 64"
      "length (taken s) \<le> unat e" "unat e \<le> length (reserved s)"
    using assms PopLoadDequeue by (auto simp: mpsc_inv_def counters_ok_def)
  then have "length (taken s) < length (reserved s)" if "e \<noteq> ?d"
    using that unat_u64D[of e] by (cases "unat e = length (taken s)") auto
  then have "e \<noteq> ?d \<Longrightarrow> pop_pc_ok s (PopLoadReady ?d)" using d by simp
  then show ?thesis
    using mpsc_inv_consumer_local[OF assms] PopLoadDequeue by (simp add: consumer_acts_def Let_def)
next
  case (PopLoadReady d)
  then have d: "d = of_nat (length (taken s))" "length (taken s) < length (reserved s)"
    using assms by (auto simp: mpsc_inv_def)
  then have "ready (slots (shared_queue s) ! slot_index (shared_queue s) d) \<Longrightarrow>
      pop_pc_ok s (PopTake d)"
    using oldest_slot[OF assms d(2)] position_slot_unpublished[OF d(2)] by auto
  then show ?thesis
    using mpsc_inv_consumer_local[OF assms] PopLoadReady by (simp add: consumer_acts_def)
next
  case (PopTake d)
  then have d: "d = of_nat (length (taken s))" "length (taken s) < length (reserved s)"
      "published s (length (taken s))"
    using assms by (auto simp: mpsc_inv_def)
  let ?v = "snd (reserved s ! length (taken s))"
  have "position_slot s (length (taken s)) = \<lparr>storage = Some ?v, ready = True\<rparr>"
      "position_slot (s\<lparr>consumer := PopClear d ?v\<rparr>) (length (taken s)) = \<lparr>storage = None, ready = True\<rparr>"
    using position_slot_oldest[OF d(2,3)] PopTake d
      position_slot_oldest[of "s\<lparr>consumer := PopClear d ?v\<rparr>"] by auto
  then show ?thesis
    using mpsc_inv_oldest[OF assms d(2), of "PopClear d ?v" "\<lambda>x. x\<lparr>storage := None\<rparr>"] d PopTake
      oldest_slot[OF assms d(2)] by (simp add: consumer_acts_def)
next
  case (PopClear d v)
  then have d: "d = of_nat (length (taken s))" "length (taken s) < length (reserved s)"
      "published s (length (taken s))" "v = snd (reserved s ! length (taken s))"
    using assms by (auto simp: mpsc_inv_def)
  have "position_slot s (length (taken s)) = \<lparr>storage = None, ready = True\<rparr>"
      "position_slot (s\<lparr>consumer := PopAdvance d v\<rparr>) (length (taken s)) = empty_slot"
    using position_slot_oldest[OF d(2,3)] PopClear d
      position_slot_oldest[of "s\<lparr>consumer := PopAdvance d v\<rparr>"] by auto
  then show ?thesis
    using mpsc_inv_oldest[OF assms d(2), of "PopAdvance d v" "\<lambda>x. x\<lparr>ready := False\<rparr>"] d PopClear
    by (simp add: consumer_acts_def empty_slot_def)
next
  case (PopAdvance d v)
  then show ?thesis
    using mpsc_inv_advance[OF assms PopAdvance] by (simp add: consumer_acts_def)
qed

lemma mpsc_step_reserved: "mpsc_step s s' \<Longrightarrow> length (reserved s) \<le> length (reserved s')"
  by (induction rule: mpsc_step.induct)
    (auto simp: producer_acts_def consumer_acts_def split: prod.splits option.splits push_event.splits)

lemma mpsc_inv_step:
  assumes "mpsc_step s s'" "mpsc_inv cap s" "length (reserved s') < 2 ^ 64"
  shows "mpsc_inv cap s'"
  using assms
proof (induction rule: mpsc_step.induct)
  case (call_push s t v)
  then show ?case using mpsc_inv_producer_local[of cap s t "PushLoadDequeue v"] by simp
next
  case (producer s t weak)
  then show ?case by (simp add: mpsc_inv_producer_acts)
next
  case (call_pop s)
  then show ?case using mpsc_inv_consumer_local[of cap s PopLoadEnqueue] by simp
next
  case (consumer s)
  then show ?case by (simp add: mpsc_inv_consumer_acts)
qed

lemma mpsc_reach_inv: "mpsc_reach cap s \<Longrightarrow> length (reserved s) < 2 ^ 64 \<Longrightarrow> mpsc_inv cap s"
proof (induction rule: mpsc_reach.induct)
  case (mpsc_start q)
  then show ?case by (simp add: mpsc_inv_init)
next
  case (mpsc_next s s')
  then have "mpsc_inv cap s" using mpsc_step_reserved[of s s'] by auto
  with mpsc_next show ?case by (blast intro: mpsc_inv_step)
qed

section \<open>Uninterrupted calls\<close>

text \<open>A call that no other thread interleaves with. It takes at most five (six) accesses, so the
  fuel below is enough; \<open>None\<close> is running out of it, or a move out of an empty slot.\<close>

fun run_push :: "nat \<Rightarrow> 'a push_pc \<Rightarrow> 'a mpsc_queue \<Rightarrow> (bool \<times> 'a mpsc_queue) option" where
  "run_push 0 pc q = None"
| "run_push (Suc n) pc q =
    (case TryPush_step False pc q of (q', pc', ev) \<Rightarrow>
       (case ev of Pushed \<Rightarrow> Some (True, q') | PushFull v \<Rightarrow> Some (False, q')
        | _ \<Rightarrow> run_push n pc' q'))"

definition TryPush :: "'a \<Rightarrow> 'a mpsc_queue \<Rightarrow> (bool \<times> 'a mpsc_queue) option" where
  "TryPush v q = run_push 5 (PushLoadDequeue v) q"

fun run_pop :: "nat \<Rightarrow> 'a pop_pc \<Rightarrow> 'a mpsc_queue \<Rightarrow> ('a option \<times> 'a mpsc_queue) option" where
  "run_pop 0 pc q = None"
| "run_pop (Suc n) pc q =
    (case TryPop_step pc q of
       None \<Rightarrow> None
     | Some (q', pc', ev) \<Rightarrow>
         (case ev of PopEmpty \<Rightarrow> Some (None, q') | Popped v \<Rightarrow> Some (Some v, q')
          | NoPop \<Rightarrow> run_pop n pc' q'))"

definition TryPop :: "'a mpsc_queue \<Rightarrow> ('a option \<times> 'a mpsc_queue) option" where
  "TryPop q = run_pop 6 PopLoadEnqueue q"

text \<open>What a client of a bounded queue relies on: \<open>rep q xs\<close> says that \<open>q\<close> holds the values
  \<open>xs\<close>, oldest first.\<close>

locale bounded_queue =
  fixes rep :: "'q \<Rightarrow> 'a list \<Rightarrow> bool"
    and try_push :: "'a \<Rightarrow> 'q \<Rightarrow> (bool \<times> 'q) option"
    and try_pop :: "'q \<Rightarrow> ('a option \<times> 'q) option"
    and bound :: nat
  assumes push_room: "rep q xs \<Longrightarrow> length xs < bound \<Longrightarrow>
      \<exists>q'. try_push v q = Some (True, q') \<and> rep q' (xs @ [v])"
    and push_full: "rep q xs \<Longrightarrow> length xs = bound \<Longrightarrow> try_push v q = Some (False, q)"
    and pop_oldest: "rep q (x # xs) \<Longrightarrow> \<exists>q'. try_pop q = Some (Some x, q') \<and> rep q' xs"
    and pop_empty: "rep q [] \<Longrightarrow> try_pop q = Some (None, q)"
    and rep_bound: "rep q xs \<Longrightarrow> length xs \<le> bound"

text \<open>Pushing a list of values, keeping those that did not fit, and popping at most \<open>n\<close>.\<close>

fun push_all ::
  "('a \<Rightarrow> 'q \<Rightarrow> (bool \<times> 'q) option) \<Rightarrow> 'a list \<Rightarrow> 'q \<Rightarrow> ('a list \<times> 'q) option" where
  "push_all push [] q = Some ([], q)"
| "push_all push (v # vs) q =
    (case push v q of
       None \<Rightarrow> None
     | Some (ok, q') \<Rightarrow>
         (case push_all push vs q' of
            None \<Rightarrow> None
          | Some (rejected, q'') \<Rightarrow> Some (if ok then rejected else v # rejected, q'')))"

fun pop_upto :: "('q \<Rightarrow> ('a option \<times> 'q) option) \<Rightarrow> nat \<Rightarrow> 'q \<Rightarrow> ('a list \<times> 'q) option" where
  "pop_upto pop 0 q = Some ([], q)"
| "pop_upto pop (Suc n) q =
    (case pop q of
       None \<Rightarrow> None
     | Some (None, q') \<Rightarrow> Some ([], q')
     | Some (Some v, q') \<Rightarrow>
         (case pop_upto pop n q' of None \<Rightarrow> None | Some (vs, q'') \<Rightarrow> Some (v # vs, q'')))"

context bounded_queue
begin

lemma push_all_splits:
  "rep q xs \<Longrightarrow> \<exists>q'. push_all try_push vs q = Some (drop (bound - length xs) vs, q') \<and>
     rep q' (xs @ take (bound - length xs) vs)"
proof (induction vs arbitrary: q xs)
  case Nil
  then show ?case by simp
next
  case (Cons v vs)
  show ?case
  proof (cases "length xs < bound")
    case True
    then obtain q1 where q1: "try_push v q = Some (True, q1)" "rep q1 (xs @ [v])"
      using push_room[OF Cons.prems] by blast
    obtain n where n: "bound - length xs = Suc n" "bound - length (xs @ [v]) = n"
      using True by (metis Suc_diff_Suc diff_Suc_eq_diff_pred length_append_singleton)
    from Cons.IH[OF q1(2)] q1(1) n show ?thesis by auto
  next
    case False
    with rep_bound[OF Cons.prems] have "length xs = bound" by simp
    with push_full[OF Cons.prems] Cons.IH[OF Cons.prems] show ?thesis by auto
  qed
qed

lemma pop_upto_prefix:
  "rep q xs \<Longrightarrow> \<exists>q'. pop_upto try_pop n q = Some (take n xs, q') \<and> rep q' (drop n xs)"
proof (induction n arbitrary: q xs)
  case 0
  then show ?case by simp
next
  case (Suc n)
  show ?case
  proof (cases xs)
    case Nil
    with Suc.prems pop_empty show ?thesis by auto
  next
    case (Cons x ys)
    with Suc.prems pop_oldest obtain q1 where q1: "try_pop q = Some (Some x, q1)" "rep q1 ys"
      by blast
    from Suc.IH[OF q1(2)] q1(1) Cons show ?thesis by auto
  qed
qed

end

text \<open>The concrete queue, for a capacity that divides \<open>2 ^ 64\<close> such as the default 4096; the
  positions may then wrap any number of times.\<close>

definition mpsc_rep :: "nat \<Rightarrow> 'a mpsc_queue \<Rightarrow> 'a list \<Rightarrow> bool" where
  "mpsc_rep cap q xs \<longleftrightarrow>
    0 < cap \<and> cap < 2 ^ 64 \<and> cap dvd 2 ^ 64 \<and> capacity q = cap \<and> length (slots q) = cap \<and>
    enqueue_position q = dequeue_position q + of_nat (length xs) \<and> length xs \<le> cap \<and>
    (\<forall>k<cap. slots q ! ((unat (dequeue_position q) + k) mod cap) =
      (if k < length xs then \<lparr>storage = Some (xs ! k), ready = True\<rparr> else empty_slot))"

lemma TryPush_eq:
  "TryPush v q =
    (let e = enqueue_position q
     in if capacity q \<le> unat (e - dequeue_position q) then Some (False, q)
        else Some (True, set_slot e (\<lambda>s. s\<lparr>ready := True\<rparr>)
          (set_slot e (\<lambda>s. s\<lparr>storage := Some v\<rparr>) (q\<lparr>enqueue_position := e + 1\<rparr>))))"
  by (simp add: TryPush_def numeral_eq_Suc Let_def)

lemma TryPop_eq:
  "TryPop q =
    (let d = dequeue_position q; s = slots q ! slot_index q d
     in if enqueue_position q = d \<or> \<not> ready s then Some (None, q)
        else case storage s of
          None \<Rightarrow> None
        | Some v \<Rightarrow> Some (Some v, (set_slot d (\<lambda>s. s\<lparr>ready := False\<rparr>)
            (set_slot d (\<lambda>s. s\<lparr>storage := None\<rparr>) q))\<lparr>dequeue_position := d + 1\<rparr>))"
  by (auto simp: TryPop_def numeral_eq_Suc Let_def split: option.split)

lemma position_mod:
  assumes "cap dvd 2 ^ 64"
  shows "unat (d + of_nat k :: u64) mod cap = (unat d + k) mod cap"
proof -
  have "unat (d + of_nat k :: u64) = (unat d + k) mod 2 ^ 64"
    by (simp add: unat_word_ariths unat_of_nat mod_simps)
  then show ?thesis using assms by (simp only: mod_mod_cancel)
qed

lemma mpsc_rep_push:
  assumes "mpsc_rep cap q xs"
  shows "length xs < cap \<Longrightarrow> \<exists>q'. TryPush v q = Some (True, q') \<and> mpsc_rep cap q' (xs @ [v])"
    and "length xs = cap \<Longrightarrow> TryPush v q = Some (False, q)"
proof -
  let ?d = "dequeue_position q" and ?e = "enqueue_position q"
  have rep: "0 < cap" "cap < 2 ^ 64" "cap dvd 2 ^ 64" "capacity q = cap" "length (slots q) = cap"
      "?e = ?d + of_nat (length xs)" "length xs \<le> cap"
    and slots: "\<And>k. k < cap \<Longrightarrow> slots q ! ((unat ?d + k) mod cap) =
      (if k < length xs then \<lparr>storage = Some (xs ! k), ready = True\<rparr> else empty_slot)"
    using assms by (auto simp: mpsc_rep_def)
  have n: "unat (?e - ?d) = length xs" using rep by (simp add: unat64)
  then show "length xs = cap \<Longrightarrow> TryPush v q = Some (False, q)"
    using rep(4) by (simp add: TryPush_eq Let_def)
  assume room: "length xs < cap"
  let ?q = "set_slot ?e (\<lambda>s. s\<lparr>ready := True\<rparr>)
    (set_slot ?e (\<lambda>s. s\<lparr>storage := Some v\<rparr>) (q\<lparr>enqueue_position := ?e + 1\<rparr>))"
  have "slots ?q ! ((unat ?d + k) mod cap) =
      (if k < length (xs @ [v]) then \<lparr>storage = Some ((xs @ [v]) ! k), ready = True\<rparr> else empty_slot)"
    if k: "k < cap" for k
  proof -
    have "(unat ?d + k) mod cap = unat ?e mod cap \<longleftrightarrow> k = length xs"
      using window_inj[of "unat ?d" "unat ?d + k" cap "unat ?d + length xs"] k room rep(6)
        position_mod[OF rep(3), of ?d "length xs"] by simp
    moreover have "(unat ?d + k) mod cap < cap" using rep(1) by simp
    ultimately show ?thesis
      using slots[OF k] slots[OF room] rep
      by (auto simp: set_slot_def slot_index_def nth_append empty_slot_def)
  qed
  then have "mpsc_rep cap ?q (xs @ [v])" using rep room by (simp add: mpsc_rep_def add.assoc)
  moreover have "TryPush v q = Some (True, ?q)" using n room rep(4) by (simp add: TryPush_eq Let_def)
  ultimately show "\<exists>q'. TryPush v q = Some (True, q') \<and> mpsc_rep cap q' (xs @ [v])" by blast
qed

lemma mpsc_rep_pop_empty:
  assumes "mpsc_rep cap q []"
  shows "TryPop q = Some (None, q)"
  using assms by (simp add: mpsc_rep_def TryPop_eq Let_def)

lemma mpsc_rep_pop:
  assumes "mpsc_rep cap q (x # xs)"
  shows "\<exists>q'. TryPop q = Some (Some x, q') \<and> mpsc_rep cap q' xs"
proof -
  let ?d = "dequeue_position q"
  have rep: "0 < cap" "cap < 2 ^ 64" "cap dvd 2 ^ 64" "capacity q = cap" "length (slots q) = cap"
      "enqueue_position q = ?d + 1 + of_nat (length xs)" "length xs < cap"
    and slots: "\<And>k. k < cap \<Longrightarrow> slots q ! ((unat ?d + k) mod cap) =
      (if k < length (x # xs) then \<lparr>storage = Some ((x # xs) ! k), ready = True\<rparr> else empty_slot)"
    using assms by (auto simp: mpsc_rep_def ac_simps)
  let ?q = "(set_slot ?d (\<lambda>s. s\<lparr>ready := False\<rparr>)
    (set_slot ?d (\<lambda>s. s\<lparr>storage := None\<rparr>) q))\<lparr>dequeue_position := ?d + 1\<rparr>"
  have first: "slots q ! (unat ?d mod cap) = \<lparr>storage = Some x, ready = True\<rparr>"
    using slots[of 0] rep(1) by simp
  have "unat (1 + of_nat (length xs) :: u64) = Suc (length xs)"
    using unat64[of "Suc (length xs)"] rep by simp
  then have "enqueue_position q \<noteq> ?d" using rep(6) by (auto simp: add.assoc)
  then have "TryPop q = Some (Some x, ?q)"
    using first rep(4) by (simp add: TryPop_eq Let_def slot_index_def)
  moreover have "slots ?q ! ((unat (?d + 1) + k) mod cap) =
      (if k < length xs then \<lparr>storage = Some (xs ! k), ready = True\<rparr> else empty_slot)"
    if k: "k < cap" for k
  proof -
    have pos: "(unat (?d + 1) + k) mod cap = (unat ?d + Suc k) mod cap"
      using position_mod[OF rep(3), of ?d 1] by (simp add: mod_simps) (metis add_Suc mod_add_left_eq)
    show ?thesis
    proof (cases "Suc k < cap")
      case True
      then have "(unat ?d + Suc k) mod cap \<noteq> unat ?d mod cap"
        using window_inj[of "unat ?d" "unat ?d + Suc k" cap "unat ?d"] rep(1) by simp
      then show ?thesis
        using pos slots[OF True] rep(4) by (simp add: set_slot_def slot_index_def)
    next
      case False
      then have "Suc k = cap" using k by simp
      moreover have "unat ?d mod cap < cap" using rep(1) by simp
      ultimately show ?thesis
        using pos rep first by (simp add: set_slot_def slot_index_def empty_slot_def)
    qed
  qed
  then have "mpsc_rep cap ?q xs" using rep by (simp add: mpsc_rep_def)
  ultimately show ?thesis by blast
qed

lemma mpsc_rep_bound: "mpsc_rep cap q xs \<Longrightarrow> length xs \<le> cap"
  by (simp add: mpsc_rep_def)

interpretation worker_results: bounded_queue "mpsc_rep cap" TryPush TryPop cap for cap
  by unfold_locales (fact mpsc_rep_push mpsc_rep_pop mpsc_rep_pop_empty mpsc_rep_bound)+

lemma mpsc_rep_new:
  "MpscQueue cap = Inr q \<Longrightarrow> cap < 2 ^ 64 \<Longrightarrow> cap dvd 2 ^ 64 \<Longrightarrow> mpsc_rep cap q []"
  by (auto simp: MpscQueue_def mpsc_rep_def split: if_splits)

section \<open>Properties\<close>

text \<open>C2. The lock-free queue under every interleaving of any number of producers and one consumer,
  with spurious failures of the compare-exchange, up to \<open>2 ^ 64\<close> reservations: the consumer
  receives exactly the reserved values, each once and in reservation order; at most \<open>cap\<close> values
  are outstanding; a producer only ever constructs into an empty slot; and the consumer never
  moves out of a slot that holds no value.\<close>

theorem mpsc_queue_safe:
  assumes "mpsc_reach cap s" "length (reserved s) < 2 ^ 64"
  shows "taken s = take (length (taken s)) (map snd (reserved s)) \<and>
    length (taken s) \<le> length (reserved s) \<and>
    length (reserved s) - length (taken s) \<le> cap \<and>
    (\<forall>t v p. producers s t = PushConstruct v p \<longrightarrow>
       slots (shared_queue s) ! slot_index (shared_queue s) p = empty_slot) \<and>
    \<not> undefined_behaviour s"
proof -
  have inv: "counters_ok cap s" "slots_ok cap s" "\<And>t. push_pc_ok cap s t (producers s t)"
    using mpsc_reach_inv[OF assms] by (auto simp: mpsc_inv_def)
  have "slots (shared_queue s) ! slot_index (shared_queue s) p = empty_slot"
    if "producers s t = PushConstruct v p" for t v p
    using inv(3)[of t] that window_position(1)[OF inv(1,2), of p] inv(1)
    by (simp add: position_slot_def slot_index_def counters_ok_def)
  then show ?thesis using inv(1) by (auto simp: counters_ok_def take_map)
qed

text \<open>Runs given as lists of actions; \<open>None\<close> when a call is not allowed.\<close>

datatype 'a mpsc_action = CallPush nat 'a | Producer nat bool | CallPop | Consumer

fun mpsc_run :: "'a mpsc_action list \<Rightarrow> 'a mpsc_system \<Rightarrow> 'a mpsc_system option" where
  "mpsc_run [] s = Some s"
| "mpsc_run (CallPush t v # as) s =
    (case producers s t of
       PushIdle \<Rightarrow> mpsc_run as (s\<lparr>producers := (producers s)(t := PushLoadDequeue v)\<rparr>)
     | _ \<Rightarrow> None)"
| "mpsc_run (Producer t weak # as) s = mpsc_run as (producer_acts t weak s)"
| "mpsc_run (CallPop # as) s =
    (case consumer s of PopIdle \<Rightarrow> mpsc_run as (s\<lparr>consumer := PopLoadEnqueue\<rparr>) | _ \<Rightarrow> None)"
| "mpsc_run (Consumer # as) s = mpsc_run as (consumer_acts s)"

lemma mpsc_run_reach: "mpsc_run as s = Some s' \<Longrightarrow> mpsc_reach cap s \<Longrightarrow> mpsc_reach cap s'"
  by (induction as s rule: mpsc_run.induct)
    (auto intro: mpsc_next mpsc_step.intros split: push_pc.splits pop_pc.splits)

text \<open>A run with two producers: both reserve, the second publishes first, and the consumer
  receives the value of the first.\<close>

definition demo_queue :: "nat mpsc_queue" where
  "demo_queue = \<lparr>enqueue_position = 0, capacity = 2, slots = replicate 2 empty_slot,
     dequeue_position = 0\<rparr>"

definition demo_actions :: "nat mpsc_action list" where
  "demo_actions = CallPush 0 5 # replicate 3 (Producer 0 False) @ CallPush 1 6 #
     Producer 1 True # replicate 5 (Producer 1 False) @ replicate 2 (Producer 0 False) @
     CallPop # replicate 6 Consumer"

lemma demo_run:
  "map_option (\<lambda>s. (taken s, reserved s)) (mpsc_run demo_actions (mpsc_init demo_queue)) =
     Some ([5], [(0, 5), (1, 6)])"
  by code_simp

theorem mpsc_queue_safe_witness:
  "\<exists>s. mpsc_reach 2 s \<and> reserved s = [(0, 5), (1, 6 :: nat)] \<and> taken s = [5] \<and>
     length (reserved s) - length (taken s) \<le> 2 \<and> \<not> undefined_behaviour s"
proof -
  obtain s where s: "mpsc_run demo_actions (mpsc_init demo_queue) = Some s" "taken s = [5]"
      "reserved s = [(0, 5), (1, 6)]"
    using demo_run by auto
  have "mpsc_reach 2 (mpsc_init demo_queue)"
    by (rule mpsc_start) (simp add: MpscQueue_def demo_queue_def)
  then have "mpsc_reach 2 s" by (rule mpsc_run_reach[OF s(1)])
  with mpsc_queue_safe[OF this] s show ?thesis by auto
qed



end
