(* ===== verification/Service_Registry.thy ===== *)
theory Service_Registry
  imports Frame_Codec
begin

text \<open>
  \<^verbatim>\<open>src/server/service_registry.cpp\<close> and the method adapters of \<^verbatim>\<open>include/xrpc/rpc_server.h\<close>:
  registration and dispatch of RPC handlers. User code (the method itself, the parser and the
  serialiser of its message types) is a parameter; a handler either throws or returns.
\<close>

section \<open>Registry\<close>

type_synonym request_handler = "request_envelope \<Rightarrow> cxx_exception + response_envelope"
type_synonym method_map = "string \<rightharpoonup> request_handler"
type_synonym service_registry = "string \<rightharpoonup> method_map"

definition Register ::
  "string \<Rightarrow> string \<Rightarrow> request_handler \<Rightarrow> service_registry \<Rightarrow> status \<times> service_registry" where
  "Register service method handler services =
    (let methods = (case services service of None \<Rightarrow> Map.empty | Some ms \<Rightarrow> ms)
     in if methods method \<noteq> None then
          (Status InvalidArgument
             (''method already registered: service='' @ service @ '', method='' @ method),
           services(service \<mapsto> methods))
        else (status_Ok, services(service \<mapsto> methods(method \<mapsto> handler))))"

definition error_response :: "u64 \<Rightarrow> status \<Rightarrow> response_envelope" where
  "error_response i s = \<lparr>resp_id = i, resp_status = s, resp_payload = []\<rparr>"

definition Dispatch :: "service_registry \<Rightarrow> request_envelope \<Rightarrow> response_envelope" where
  "Dispatch services request =
    (case services (service_name request) of
       None \<Rightarrow> error_response (req_id request) (Status NotFound ''unknown service'')
     | Some methods \<Rightarrow>
         (case methods (method_name request) of
            None \<Rightarrow> error_response (req_id request) (Status Unimplemented ''unknown method'')
          | Some handler \<Rightarrow>
              (case handler request of
                 Inr response \<Rightarrow> response
               | Inl e \<Rightarrow> error_response (req_id request)
                   (CaughtExceptionToStatus Internal ''handler threw unknown exception'' (Some e)))))"

section \<open>Method adapters\<close>

text \<open>\<^verbatim>\<open>exception.what()\<close>, for what \<^verbatim>\<open>catch (const std::exception &)\<close> catches.\<close>

fun exception_what :: "cxx_exception \<Rightarrow> string option" where
  "exception_what (XrpcException c m) = Some m"
| "exception_what BadAlloc = Some ''std::bad_alloc''"
| "exception_what (StdInvalidArgument m) = Some m"
| "exception_what (StdException m) = Some m"
| "exception_what NonStandard = None"

text \<open>The \<^verbatim>\<open>invoke_\<close> of \<^verbatim>\<open>MakeMethodRegistration\<close>. The payload length is cast to \<^verbatim>\<open>int\<close>, which is
  negative from \<open>2 ^ 31\<close> on.\<close>

definition cast_int :: "nat \<Rightarrow> int" where
  "cast_int n = sint (of_nat n :: 32 word)"

definition method_invoke ::
  "(int \<Rightarrow> bytes \<Rightarrow> 'q option) \<Rightarrow> ('q \<Rightarrow> cxx_exception + 'r) \<Rightarrow> ('r \<Rightarrow> bool \<times> bytes) \<Rightarrow>
     bytes \<Rightarrow> bytes status_or" where
  "method_invoke parse func ser payload =
    (case parse (cast_int (length payload)) payload of
       None \<Rightarrow> Error (Status InvalidArgument ''failed to parse protobuf request'')
     | Some request \<Rightarrow>
         (case func request of
            Inl e \<Rightarrow>
              (case exception_what e of
                 Some what \<Rightarrow> Error (Status Internal what)
               | None \<Rightarrow> Error (Status Internal ''handler threw unknown exception''))
          | Inr response \<Rightarrow>
              (case ser response of (ok, encoded) \<Rightarrow>
                 if \<not> ok then Error (Status Internal ''failed to serialize protobuf response'')
                 else Value encoded)))"

text \<open>The handler that \<^verbatim>\<open>RpcServer::Impl::RegisterMethod\<close> wraps around \<^verbatim>\<open>invoke_\<close>.\<close>

definition method_handler :: "(bytes \<Rightarrow> bytes status_or) \<Rightarrow> request_handler" where
  "method_handler invoke request =
    (case invoke (req_payload request) of
       Error s \<Rightarrow> Inr \<lparr>resp_id = req_id request, resp_status = s, resp_payload = []\<rparr>
     | Value bs \<Rightarrow> Inr \<lparr>resp_id = req_id request, resp_status = status_Ok, resp_payload = bs\<rparr>)"

section \<open>The dispatch contract\<close>

text \<open>What the workers rely on: whatever the registered methods do, the response carries the id
  of the request.\<close>

locale dispatcher =
  fixes dispatch :: "'g \<Rightarrow> request_envelope \<Rightarrow> response_envelope"
    and invar :: "'g \<Rightarrow> bool"
  assumes dispatch_id: "invar g \<Longrightarrow> resp_id (dispatch g r) = req_id r"
begin

lemma dispatch_ids: "invar g \<Longrightarrow> map (resp_id \<circ> dispatch g) rs = map req_id rs"
  by (simp add: dispatch_id)

end

definition wf_registry :: "service_registry \<Rightarrow> bool" where
  "wf_registry g \<longleftrightarrow> (\<forall>s ms m h q r. g s = Some ms \<longrightarrow> ms m = Some h \<longrightarrow> h q = Inr r \<longrightarrow>
     resp_id r = req_id q)"

lemma Dispatch_id: "wf_registry g \<Longrightarrow> resp_id (Dispatch g r) = req_id r"
  unfolding wf_registry_def
  by (auto simp: Dispatch_def error_response_def split: option.splits sum.splits)

interpretation registry: dispatcher Dispatch wf_registry
  by unfold_locales (fact Dispatch_id)

lemma method_handler_total:
  "\<exists>r. method_handler invoke q = Inr r \<and> resp_id r = req_id q"
  by (cases "invoke (req_payload q)") (simp_all add: method_handler_def)

lemma wf_registry_empty [simp]: "wf_registry Map.empty"
  by (simp add: wf_registry_def)

lemma Register_wf [keeps]:
  assumes "wf_registry g" "\<And>q r. h q = Inr r \<Longrightarrow> resp_id r = req_id q"
  shows "wf_registry (snd (Register s m h g))"
  using assms unfolding wf_registry_def
  by (auto simp: Register_def Let_def split: option.splits if_splits)

text \<open>Lookup after registration, per service and method.\<close>

definition lookup :: "service_registry \<Rightarrow> string \<Rightarrow> string \<Rightarrow> request_handler option" where
  "lookup g s m = (case g s of None \<Rightarrow> None | Some ms \<Rightarrow> ms m)"

lemma Register_lookup:
  "lookup (snd (Register s m h g)) s' m' =
    (if s' = s \<and> m' = m \<and> lookup g s m = None then Some h else lookup g s' m')"
  by (auto simp: Register_def lookup_def Let_def split: option.splits)

lemma Register_status: "status_ok (fst (Register s m h g)) \<longleftrightarrow> lookup g s m = None"
  by (auto simp: Register_def lookup_def Let_def split: option.splits)

lemma Dispatch_lookup:
  "lookup g (service_name q) (method_name q) = Some h \<Longrightarrow>
     Dispatch g q = (case h q of Inr r \<Rightarrow> r
       | Inl e \<Rightarrow> error_response (req_id q)
           (CaughtExceptionToStatus Internal ''handler threw unknown exception'' (Some e)))"
  by (auto simp: lookup_def Dispatch_def split: option.splits sum.splits)

section \<open>Properties\<close>

text \<open>Registering a list of methods one after the other.\<close>

fun register_all ::
  "(string \<times> string \<times> (bytes \<Rightarrow> bytes status_or)) list \<Rightarrow> service_registry \<Rightarrow> service_registry" where
  "register_all [] g = g"
| "register_all ((s, m, invoke) # ms) g =
    register_all ms (snd (Register s m (method_handler invoke) g))"

lemma register_all_wf: "wf_registry g \<Longrightarrow> wf_registry (register_all ms g)"
proof (induction ms g rule: register_all.induct)
  case (2 s m invoke ms g)
  have "wf_registry (snd (Register s m (method_handler invoke) g))"
    using 2(2) by (rule Register_wf) (metis method_handler_total sum.inject(2))
  with 2(1) show ?case by simp
qed simp

lemma register_all_keeps:
  "lookup g s m = Some h \<Longrightarrow> lookup (register_all ms g) s m = Some h"
proof (induction ms g rule: register_all.induct)
  case (2 s' m' invoke ms g)
  then have "lookup (snd (Register s' m' (method_handler invoke) g)) s m = Some h"
    by (auto simp: Register_lookup)
  with 2(1) show ?case by simp
qed simp

lemma register_all_lookup:
  assumes "lookup g s m = None"
  shows "lookup (register_all ms g) s m =
    map_option method_handler (map_of (map (\<lambda>(s, m, i). ((s, m), i)) ms) (s, m))"
  using assms
  by (induction ms g rule: register_all.induct) (auto simp: Register_lookup register_all_keeps)

text \<open>C25. Dispatch after registration: on a registry built from any list of method registrations,
  the first registration of a service and method wins and later ones are refused; a request is
  answered by exactly that method with its status or payload; the response always carries the
  request's id; an unknown method answers Unimplemented, an unknown service NotFound.\<close>

theorem dispatch_after_register:
  "let g = register_all ms Map.empty; r = Dispatch g q;
       status = fst (Register (service_name q) (method_name q) h g)
   in resp_id r = req_id q \<and>
      (case map_of (map (\<lambda>(s, m, i). ((s, m), i)) ms) (service_name q, method_name q) of
         Some invoke \<Rightarrow>
           (case invoke (req_payload q) of
              Value bs \<Rightarrow> resp_status r = status_Ok \<and> resp_payload r = bs
            | Error s \<Rightarrow> resp_status r = s \<and> resp_payload r = []) \<and> \<not> status_ok status
       | None \<Rightarrow> st_code (resp_status r) =
             (if g (service_name q) = None then NotFound else Unimplemented) \<and> status_ok status)"
proof (cases "map_of (map (\<lambda>(s, m, i). ((s, m), i)) ms) (service_name q, method_name q)")
  case None
  then have "lookup (register_all ms Map.empty) (service_name q) (method_name q) = None"
    using register_all_lookup[of Map.empty] by (simp add: lookup_def)
  then show ?thesis
    using None Register_status[of "service_name q" "method_name q" h "register_all ms Map.empty"]
    by (auto simp: Dispatch_def lookup_def error_response_def Status_def Let_def split: option.splits)
next
  case (Some invoke)
  then have l: "lookup (register_all ms Map.empty) (service_name q) (method_name q) =
      Some (method_handler invoke)"
    using register_all_lookup[of Map.empty] by (simp add: lookup_def)
  then show ?thesis
    using Some Register_status[of "service_name q" "method_name q" h "register_all ms Map.empty"]
    by (auto simp: Dispatch_lookup[OF l] method_handler_def Let_def split: status_or.splits)
qed

end
