(* ===== verification/Worker_Pool.thy ===== *)
theory Worker_Pool
  imports Status "HOL-Library.Multiset"
begin

text \<open>
  \<^verbatim>\<open>src/server/worker_pool.cpp\<close>: admission, scheduling and draining of worker jobs. Submitting
  threads, worker threads and the thread that shuts the pool down interleave; a step is one
  atomic access or one critical section, with the acquisition and the release of a queue's mutex
  by a submitter kept apart, since the admission flag is not protected by it.
\<close>

section \<open>State\<close>

record 'j worker_queue =
  mutex :: "nat option"
  jobs :: "('j \<times> nat) list"
  queued_logical_jobs :: nat
  queued_logical_jobs_peak :: nat
  pending_logical_jobs :: nat

record worker_pool_config =
  wp_threads :: nat
  wp_max_pending_jobs :: nat

text \<open>\<open>hardware\<close> is \<^verbatim>\<open>std::thread::hardware_concurrency()\<close>.\<close>

definition MakeWorkerPoolConfig :: "nat \<Rightarrow> nat \<Rightarrow> nat \<Rightarrow> worker_pool_config status_or" where
  "MakeWorkerPoolConfig hardware requested_threads max_pending =
    (if max_pending = 0 then
       Error (Status InvalidArgument ''RpcServer max_pending_jobs_global must be greater than 0'')
     else Value \<lparr>wp_threads = (if requested_threads = 0 then (if hardware = 0 then 1 else hardware)
                               else requested_threads),
                 wp_max_pending_jobs = max_pending\<rparr>)"

record 'j worker_pool =
  worker_queues :: "'j worker_queue list"
  next_worker_index :: u64
  max_pending_jobs :: nat
  pending_jobs :: nat
  accepting_submissions :: bool
  drain_requested :: bool
  stats_window_id :: u64

definition empty_queue :: "'j worker_queue" where
  "empty_queue = \<lparr>mutex = None, jobs = [], queued_logical_jobs = 0,
     queued_logical_jobs_peak = 0, pending_logical_jobs = 0\<rparr>"

definition WorkerPool :: "worker_pool_config \<Rightarrow> 'j worker_pool" where
  "WorkerPool config = \<lparr>worker_queues = replicate (wp_threads config) empty_queue,
     next_worker_index = 0, max_pending_jobs = wp_max_pending_jobs config, pending_jobs = 0,
     accepting_submissions = True, drain_requested = False, stats_window_id = 0\<rparr>"

definition set_queue :: "nat \<Rightarrow> 'j worker_queue \<Rightarrow> 'j worker_pool \<Rightarrow> 'j worker_pool" where
  "set_queue i q p = p\<lparr>worker_queues := (worker_queues p)[i := q]\<rparr>"

section \<open>Operations\<close>

text \<open>\<^verbatim>\<open>loads k\<close> is the value the \<open>k\<close>-th load of a queue's counter returns.\<close>

function probe_queues :: "(nat \<Rightarrow> nat) \<Rightarrow> nat \<Rightarrow> nat \<Rightarrow> nat \<Rightarrow> nat \<Rightarrow> nat \<Rightarrow> nat" where
  "probe_queues loads start worker_count offset selected selected_pending =
    (if offset < worker_count \<and> selected_pending > 0 then
       let candidate = (start + offset) mod worker_count; candidate_pending = loads offset
       in if candidate_pending < selected_pending
          then probe_queues loads start worker_count (offset + 1) candidate candidate_pending
          else probe_queues loads start worker_count (offset + 1) selected selected_pending
     else selected)"
  by pat_completeness auto
termination
  by (relation "measure (\<lambda>(loads, start, worker_count, offset, selected, pend). worker_count - offset)") auto

declare probe_queues.simps [simp del]

definition SelectWorkerQueue :: "(nat \<Rightarrow> nat) \<Rightarrow> 'j worker_pool \<Rightarrow> nat \<times> 'j worker_pool" where
  "SelectWorkerQueue loads p =
    (let worker_count = length (worker_queues p);
         start = unat (next_worker_index p) mod worker_count
     in (probe_queues loads start worker_count 1 start (loads 0),
         p\<lparr>next_worker_index := next_worker_index p + 1\<rparr>))"

definition ReleasePendingJobs :: "nat \<Rightarrow> 'j worker_pool \<Rightarrow> 'j worker_pool" where
  "ReleasePendingJobs n p = p\<lparr>pending_jobs := pending_jobs p - n\<rparr>"

text \<open>Where a thread is inside \<^verbatim>\<open>TrySubmitBatch(job, logical_jobs)\<close>. The job and its weight are
  the first two arguments; \<open>SubCas\<close> carries the expected counter value, \<open>SubLock\<close> and
  \<open>SubEnqueue\<close> the selected queue.\<close>

datatype 'j submit_pc =
    SubIdle
  | SubCheck 'j nat
  | SubReserve 'j nat
  | SubCas 'j nat nat
  | SubSelect 'j nat
  | SubLock 'j nat nat
  | SubEnqueue 'j nat nat

text \<open>\<^verbatim>\<open>logical_jobs == 0\<close> aborts.\<close>

definition TrySubmitBatch :: "'j \<Rightarrow> nat \<Rightarrow> 'j submit_pc option" where
  "TrySubmitBatch job n = (if n = 0 then None else Some (SubCheck job n))"

definition reserve_or_fail :: "'j \<Rightarrow> nat \<Rightarrow> nat \<Rightarrow> 'j worker_pool \<Rightarrow> 'j submit_pc" where
  "reserve_or_fail job n pend p =
    (if pend > max_pending_jobs p \<or> n > max_pending_jobs p - pend then SubIdle
     else SubCas job n pend)"

text \<open>One step of thread \<open>t\<close>; \<open>None\<close> while the selected queue's mutex is taken. \<open>weak\<close> is a
  spurious failure of the compare-exchange, \<open>oom\<close> an allocation failure in the queue.\<close>

fun submit_step ::
  "nat \<Rightarrow> bool \<Rightarrow> (nat \<Rightarrow> nat) \<Rightarrow> bool \<Rightarrow> 'j submit_pc \<Rightarrow> 'j worker_pool \<Rightarrow>
     ('j worker_pool \<times> 'j submit_pc) option" where
  "submit_step t weak loads oom SubIdle p = Some (p, SubIdle)"
| "submit_step t weak loads oom (SubCheck job n) p =
    Some (p, if accepting_submissions p then SubReserve job n else SubIdle)"
| "submit_step t weak loads oom (SubReserve job n) p =
    Some (p, reserve_or_fail job n (pending_jobs p) p)"
| "submit_step t weak loads oom (SubCas job n pend) p =
    (if pending_jobs p = pend \<and> \<not> weak
     then Some (p\<lparr>pending_jobs := pend + n\<rparr>, SubSelect job n)
     else Some (p, reserve_or_fail job n (pending_jobs p) p))"
| "submit_step t weak loads oom (SubSelect job n) p =
    (case SelectWorkerQueue loads p of (i, p') \<Rightarrow> Some (p', SubLock job n i))"
| "submit_step t weak loads oom (SubLock job n i) p =
    (let q = worker_queues p ! i
     in if mutex q \<noteq> None then None
        else if \<not> accepting_submissions p then Some (ReleasePendingJobs n p, SubIdle)
        else Some (set_queue i (q\<lparr>mutex := Some t\<rparr>) p, SubEnqueue job n i))"
| "submit_step t weak loads oom (SubEnqueue job n i) p =
    (let q = worker_queues p ! i
     in if oom then Some (ReleasePendingJobs n (set_queue i (q\<lparr>mutex := None\<rparr>) p), SubIdle)
        else Some (set_queue i (q\<lparr>mutex := None, jobs := jobs q @ [(job, n)],
               pending_logical_jobs := pending_logical_jobs q + n,
               queued_logical_jobs := queued_logical_jobs q + n,
               queued_logical_jobs_peak :=
                 max (queued_logical_jobs_peak q) (queued_logical_jobs q + n)\<rparr>) p, SubIdle))"

text \<open>Where a worker is inside \<^verbatim>\<open>WorkerLoop\<close>.\<close>

datatype 'j worker_pc =
    WorkerWait
  | WorkerRun 'j nat
  | WorkerRan nat
  | WorkerRelease nat
  | WorkerExit

fun WorkerLoop_step ::
  "nat \<Rightarrow> 'j worker_pc \<Rightarrow> 'j worker_pool \<Rightarrow> ('j worker_pool \<times> 'j worker_pc) option" where
  "WorkerLoop_step w WorkerWait p =
    (let q = worker_queues p ! w
     in if mutex q \<noteq> None then None
        else case jobs q of
          [] \<Rightarrow> if drain_requested p then Some (p, WorkerExit) else None
        | (job, n) # rest \<Rightarrow>
            Some (set_queue w (q\<lparr>jobs := rest,
                queued_logical_jobs := queued_logical_jobs q - n\<rparr>) p, WorkerRun job n))"
| "WorkerLoop_step w (WorkerRun job n) p = Some (p, WorkerRan n)"
| "WorkerLoop_step w (WorkerRan n) p =
    (let q = worker_queues p ! w
     in Some (set_queue w (q\<lparr>pending_logical_jobs := pending_logical_jobs q - n\<rparr>) p,
          WorkerRelease n))"
| "WorkerLoop_step w (WorkerRelease n) p = Some (ReleasePendingJobs n p, WorkerWait)"
| "WorkerLoop_step w WorkerExit p = None"

text \<open>The shutdown thread: \<^verbatim>\<open>CloseSubmissions\<close> is \<open>CloseStore\<close> and the sweep over the mutexes,
  \<^verbatim>\<open>DrainAndJoin\<close> goes on to set the drain flag and to join the workers.\<close>

datatype close_pc = CloseStore | CloseSweep nat | CloseDone | DrainJoin | DrainJoined

fun close_step :: "'j worker_pc list \<Rightarrow> close_pc \<Rightarrow> 'j worker_pool \<Rightarrow> ('j worker_pool \<times> close_pc) option" where
  "close_step ws CloseStore p = Some (p\<lparr>accepting_submissions := False\<rparr>, CloseSweep 0)"
| "close_step ws (CloseSweep i) p =
    (if i < length (worker_queues p) then
       (if mutex (worker_queues p ! i) \<noteq> None then None else Some (p, CloseSweep (i + 1)))
     else Some (p, CloseDone))"
| "close_step ws CloseDone p = Some (p\<lparr>drain_requested := True\<rparr>, DrainJoin)"
| "close_step ws DrainJoin p = (if list_all (\<lambda>w. w = WorkerExit) ws then Some (p, DrainJoined) else None)"
| "close_step ws DrainJoined p = None"

record queue_stats =
  qs_queued :: nat
  qs_pending :: nat
  qs_peak :: nat

record pool_stats =
  ps_pending :: nat
  ps_window :: u64
  ps_queues :: "queue_stats list"

definition SnapshotStats :: "bool \<Rightarrow> 'j worker_pool \<Rightarrow> pool_stats \<times> 'j worker_pool" where
  "SnapshotStats start_window p =
    (let window = (if start_window then stats_window_id p + 1 else stats_window_id p);
         qs = (if start_window
               then map (\<lambda>q. q\<lparr>queued_logical_jobs_peak := queued_logical_jobs q\<rparr>) (worker_queues p)
               else worker_queues p)
     in (\<lparr>ps_pending = pending_jobs p, ps_window = window,
          ps_queues = map (\<lambda>q. \<lparr>qs_queued = queued_logical_jobs q, qs_pending = pending_logical_jobs q,
            qs_peak = queued_logical_jobs_peak q\<rparr>) qs\<rparr>,
         p\<lparr>worker_queues := qs, stats_window_id := window\<rparr>))"

section \<open>Interleaving\<close>

text \<open>\<open>accepted\<close> and \<open>executed\<close> record the jobs put into a queue and the jobs run.\<close>

record 'j pool_system =
  pool :: "'j worker_pool"
  submitters :: "'j submit_pc list"
  workers :: "'j worker_pc list"
  closer :: close_pc
  accepted :: "'j list"
  executed :: "'j list"

fun accepted_by :: "bool \<Rightarrow> 'j submit_pc \<Rightarrow> 'j list" where
  "accepted_by oom (SubEnqueue job n i) = (if oom then [] else [job])"
| "accepted_by oom _ = []"

fun executed_by :: "'j worker_pc \<Rightarrow> 'j list" where
  "executed_by (WorkerRun job n) = [job]"
| "executed_by _ = []"

inductive pool_step :: "'j pool_system \<Rightarrow> 'j pool_system \<Rightarrow> bool" where
  pool_call: "t < length (submitters s) \<Longrightarrow> submitters s ! t = SubIdle \<Longrightarrow>
    TrySubmitBatch job n = Some pc \<Longrightarrow>
    pool_step s (s\<lparr>submitters := (submitters s)[t := pc]\<rparr>)"
| pool_submit: "t < length (submitters s) \<Longrightarrow>
    submit_step t weak loads oom (submitters s ! t) (pool s) = Some (p, pc) \<Longrightarrow>
    pool_step s (s\<lparr>pool := p, submitters := (submitters s)[t := pc],
      accepted := accepted s @ accepted_by oom (submitters s ! t)\<rparr>)"
| pool_work: "w < length (workers s) \<Longrightarrow>
    WorkerLoop_step w (workers s ! w) (pool s) = Some (p, pc) \<Longrightarrow>
    pool_step s (s\<lparr>pool := p, workers := (workers s)[w := pc],
      executed := executed s @ executed_by (workers s ! w)\<rparr>)"
| pool_close: "close_step (workers s) (closer s) (pool s) = Some (p, pc) \<Longrightarrow>
    pool_step s (s\<lparr>pool := p, closer := pc\<rparr>)"
| pool_close_again: "closer s = CloseDone \<Longrightarrow> pool_step s (s\<lparr>closer := CloseStore\<rparr>)"
| pool_stats: "SnapshotStats start_window (pool s) = (stats, p) \<Longrightarrow>
    pool_step s (s\<lparr>pool := p\<rparr>)"

definition pool_init :: "worker_pool_config \<Rightarrow> nat \<Rightarrow> 'j pool_system" where
  "pool_init config k = \<lparr>pool = WorkerPool config, submitters = replicate k SubIdle,
     workers = replicate (wp_threads config) WorkerWait, closer = CloseStore,
     accepted = [], executed = []\<rparr>"

inductive pool_reach :: "worker_pool_config \<Rightarrow> nat \<Rightarrow> 'j pool_system \<Rightarrow> bool" for config k where
  pool_start: "pool_reach config k (pool_init config k)"
| pool_next: "pool_reach config k s \<Longrightarrow> pool_step s s' \<Longrightarrow> pool_reach config k s'"

section \<open>The invariant\<close>

text \<open>The reservation a thread holds, and the part of it its queue's load counter shows.\<close>

fun submit_weight :: "'j submit_pc \<Rightarrow> nat" where
  "submit_weight (SubSelect job n) = n"
| "submit_weight (SubLock job n i) = n"
| "submit_weight (SubEnqueue job n i) = n"
| "submit_weight _ = 0"

fun worker_weight :: "'j worker_pc \<Rightarrow> nat" where
  "worker_weight (WorkerRun job n) = n"
| "worker_weight (WorkerRan n) = n"
| "worker_weight (WorkerRelease n) = n"
| "worker_weight _ = 0"

fun worker_load :: "'j worker_pc \<Rightarrow> nat" where
  "worker_load (WorkerRun job n) = n"
| "worker_load (WorkerRan n) = n"
| "worker_load _ = 0"

definition queue_weight :: "'j worker_queue \<Rightarrow> nat" where
  "queue_weight q = list_total snd (jobs q)"

definition queue_jobs :: "'j worker_queue \<Rightarrow> 'j multiset" where
  "queue_jobs q = mset (map fst (jobs q))"

definition running_job :: "'j worker_pc \<Rightarrow> 'j multiset" where
  "running_job w = mset (executed_by w)"

text \<open>The reservations are the jobs that are being submitted, queued or run, and they stay below
  the limit; every accepted job is run, running or queued.\<close>

definition sums_ok :: "'j pool_system \<Rightarrow> bool" where
  "sums_ok s \<longleftrightarrow>
    pending_jobs (pool s) = list_total submit_weight (submitters s) +
      list_total queue_weight (worker_queues (pool s)) + list_total worker_weight (workers s) \<and>
    pending_jobs (pool s) \<le> max_pending_jobs (pool s) \<and>
    mset (accepted s) = mset (executed s) + list_total queue_jobs (worker_queues (pool s)) +
      list_total running_job (workers s)"

definition queue_ok :: "'j worker_queue \<Rightarrow> 'j worker_pc \<Rightarrow> bool" where
  "queue_ok q w \<longleftrightarrow> queued_logical_jobs q = queue_weight q \<and>
    pending_logical_jobs q = queue_weight q + worker_load w \<and>
    queued_logical_jobs q \<le> queued_logical_jobs_peak q"

definition queues_ok :: "'j pool_system \<Rightarrow> bool" where
  "queues_ok s \<longleftrightarrow> length (workers s) = length (worker_queues (pool s)) \<and>
    worker_queues (pool s) \<noteq> [] \<and>
    (\<forall>i<length (workers s). queue_ok (worker_queues (pool s) ! i) (workers s ! i))"

fun submit_pc_ok :: "'j worker_pool \<Rightarrow> nat \<Rightarrow> 'j submit_pc \<Rightarrow> bool" where
  "submit_pc_ok p t (SubCas job n pend) = (pend + n \<le> max_pending_jobs p)"
| "submit_pc_ok p t (SubLock job n i) = (i < length (worker_queues p))"
| "submit_pc_ok p t (SubEnqueue job n i) =
    (i < length (worker_queues p) \<and> mutex (worker_queues p ! i) = Some t)"
| "submit_pc_ok p t _ = True"

definition submits_ok :: "'j pool_system \<Rightarrow> bool" where
  "submits_ok s \<longleftrightarrow>
    (\<forall>t<length (submitters s). submit_pc_ok (pool s) t (submitters s ! t))"

text \<open>After the sweep of \<^verbatim>\<open>CloseSubmissions\<close> no mutex is held by a submitter.\<close>

fun swept :: "close_pc \<Rightarrow> nat \<Rightarrow> bool" where
  "swept CloseStore i = False"
| "swept (CloseSweep k) i = (i < k)"
| "swept _ i = True"

definition closing_ok :: "'j pool_system \<Rightarrow> bool" where
  "closing_ok s \<longleftrightarrow>
    (closer s \<noteq> CloseStore \<longrightarrow> \<not> accepting_submissions (pool s)) \<and>
    (\<forall>i<length (worker_queues (pool s)). swept (closer s) i \<longrightarrow>
       mutex (worker_queues (pool s) ! i) = None) \<and>
    drain_requested (pool s) = (closer s \<in> {DrainJoin, DrainJoined}) \<and>
    (\<forall>w<length (workers s). workers s ! w = WorkerExit \<longrightarrow>
       drain_requested (pool s) \<and> jobs (worker_queues (pool s) ! w) = []) \<and>
    (closer s = DrainJoined \<longrightarrow> list_all (\<lambda>w. w = WorkerExit) (workers s))"

definition pool_inv :: "'j pool_system \<Rightarrow> bool" where
  "pool_inv s \<longleftrightarrow> sums_ok s \<and> queues_ok s \<and> submits_ok s \<and> closing_ok s"

lemma pool_inv_init:
  assumes "0 < wp_threads config"
  shows "pool_inv (pool_init config k)"
  using assms
  by (simp add: pool_inv_def sums_ok_def queues_ok_def submits_ok_def closing_ok_def pool_init_def
      WorkerPool_def queue_ok_def empty_queue_def queue_weight_def queue_jobs_def running_job_def
      list_total_zero list_total_zero[unfolded zero_multiset_def])

lemma probe_queues_less:
  "0 < worker_count \<Longrightarrow> selected < worker_count \<Longrightarrow>
     probe_queues loads start worker_count offset selected pend < worker_count"
proof (induction loads start worker_count offset selected pend rule: probe_queues.induct)
  case (1 loads start worker_count offset selected pend)
  then show ?case
    by (subst probe_queues.simps) (simp add: Let_def)
qed

lemma SelectWorkerQueue_less:
  "worker_queues p \<noteq> [] \<Longrightarrow> fst (SelectWorkerQueue loads p) < length (worker_queues p)"
  by (simp add: SelectWorkerQueue_def Let_def probe_queues_less)

lemma submit_pc_ok_mono:
  assumes "submit_pc_ok p t pc" "max_pending_jobs p' = max_pending_jobs p"
    "length (worker_queues p') = length (worker_queues p)"
    "\<And>job n i. pc = SubEnqueue job n i \<Longrightarrow> mutex (worker_queues p' ! i) = mutex (worker_queues p ! i)"
  shows "submit_pc_ok p' t pc"
  using assms by (cases pc) auto

text \<open>A step of a submitter that leaves the queues alone.\<close>

lemma pool_inv_submit_local:
  assumes inv: "pool_inv s" and t: "t < length (submitters s)"
    and q: "worker_queues p = worker_queues (pool s)" "max_pending_jobs p = max_pending_jobs (pool s)"
      "accepting_submissions p = accepting_submissions (pool s)"
      "drain_requested p = drain_requested (pool s)"
    and pend: "pending_jobs p + submit_weight (submitters s ! t) =
      pending_jobs (pool s) + submit_weight pc" "pending_jobs p \<le> max_pending_jobs p"
    and pc: "submit_pc_ok (pool s) t pc"
  shows "pool_inv (s\<lparr>pool := p, submitters := (submitters s)[t := pc]\<rparr>)"
proof -
  have "list_total submit_weight ((submitters s)[t := pc]) + submit_weight (submitters s ! t) =
      list_total submit_weight (submitters s) + submit_weight pc"
    using list_total_update[OF t] .
  then have "sums_ok (s\<lparr>pool := p, submitters := (submitters s)[t := pc]\<rparr>)"
    using inv q pend by (simp add: pool_inv_def sums_ok_def)
  moreover have "submit_pc_ok p u x = submit_pc_ok (pool s) u x" for u x
    using q by (cases x) simp_all
  then have "submits_ok (s\<lparr>pool := p, submitters := (submitters s)[t := pc]\<rparr>)"
    using inv pc t by (simp add: pool_inv_def submits_ok_def nth_list_update)
  ultimately show ?thesis
    using inv q by (auto simp: pool_inv_def queues_ok_def closing_ok_def)
qed

text \<open>A step of a submitter that changes its queue, holding the queue's mutex.\<close>

lemma pool_inv_submit_queue:
  assumes inv: "pool_inv s" and t: "t < length (submitters s)"
    and i: "i < length (worker_queues (pool s))"
    and p: "p = (set_queue i q (pool s))\<lparr>pending_jobs := n\<rparr>"
    and sums: "n + submit_weight (submitters s ! t) + queue_weight (worker_queues (pool s) ! i) =
        pending_jobs (pool s) + submit_weight pc + queue_weight q" "n \<le> max_pending_jobs (pool s)"
      "queue_jobs q = queue_jobs (worker_queues (pool s) ! i) + mset new"
    and qok: "queue_ok q (workers s ! i)"
    and sub: "submit_pc_ok p t pc"
    and others: "\<And>u job k. u \<noteq> t \<Longrightarrow> u < length (submitters s) \<Longrightarrow>
        submitters s ! u \<noteq> SubEnqueue job k i"
    and close: "swept (closer s) i \<Longrightarrow> mutex q = None"
      "workers s ! i = WorkerExit \<Longrightarrow> jobs q = []"
  shows "pool_inv (s\<lparr>pool := p, submitters := (submitters s)[t := pc], accepted := accepted s @ new\<rparr>)"
    (is "pool_inv ?s'")
proof -
  have ok: "sums_ok s" "queues_ok s" "submits_ok s" "closing_ok s"
    using inv by (auto simp: pool_inv_def)
  have "list_total submit_weight ((submitters s)[t := pc]) + submit_weight (submitters s ! t) =
      list_total submit_weight (submitters s) + submit_weight pc"
    "list_total queue_weight ((worker_queues (pool s))[i := q]) +
      queue_weight (worker_queues (pool s) ! i) =
      list_total queue_weight (worker_queues (pool s)) + queue_weight q"
    "list_total queue_jobs ((worker_queues (pool s))[i := q]) + queue_jobs (worker_queues (pool s) ! i) =
      list_total queue_jobs (worker_queues (pool s)) + queue_jobs q"
    by (simp_all add: list_total_update t i)
  then have "sums_ok ?s'"
    using ok(1) sums p by (auto simp: sums_ok_def set_queue_def)
  moreover have "queues_ok ?s'"
    using ok(2) qok p i by (auto simp: queues_ok_def set_queue_def nth_list_update)
  moreover have "submits_ok ?s'"
    unfolding submits_ok_def
  proof (intro allI impI)
    fix u assume u: "u < length (submitters ?s')"
    show "submit_pc_ok (pool ?s') u (submitters ?s' ! u)"
    proof (cases "u = t")
      case True
      then show ?thesis using sub t by simp
    next
      case False
      have old: "submit_pc_ok (pool s) u (submitters s ! u)" using ok(3) u by (simp add: submits_ok_def)
      have "k \<noteq> i" if "submitters s ! u = SubEnqueue job m k" for job m k
        using others[OF False] u that by auto
      then have "submit_pc_ok p u (submitters s ! u)"
        using p by (intro submit_pc_ok_mono[OF old]) (auto simp: set_queue_def)
      then show ?thesis using False by simp
    qed
  qed
  moreover have "closing_ok ?s'"
    using ok(2,4) close p i by (auto simp: closing_ok_def queues_ok_def set_queue_def nth_list_update)
  ultimately show ?thesis by (simp add: pool_inv_def)
qed

lemma reserve_or_fail_ok [simp]:
  "submit_pc_ok p t (reserve_or_fail job n pend p)" "submit_weight (reserve_or_fail job n pend p) = 0"
  by (auto simp: reserve_or_fail_def)

lemma submitter_ok: "pool_inv s \<Longrightarrow> t < length (submitters s) \<Longrightarrow>
    submit_pc_ok (pool s) t (submitters s ! t)"
  by (simp add: pool_inv_def submits_ok_def)

lemma pool_inv_bound: "pool_inv s \<Longrightarrow> pending_jobs (pool s) \<le> max_pending_jobs (pool s)"
  by (simp add: pool_inv_def sums_ok_def)

lemma submit_weight_le:
  assumes "pool_inv s" "t < length (submitters s)"
  shows "submit_weight (submitters s ! t) \<le> pending_jobs (pool s)"
  using list_total_member[OF assms(2), of submit_weight] assms(1)
  by (simp add: pool_inv_def sums_ok_def)

lemma enqueue_exclusive:
  assumes "pool_inv s" "u < length (submitters s)" "mutex (worker_queues (pool s) ! i) \<noteq> Some u"
  shows "submitters s ! u \<noteq> SubEnqueue job k i"
  using submitter_ok[OF assms(1,2)] assms(3) by auto

lemma pool_inv_lock:
  assumes inv: "pool_inv s" and t: "t < length (submitters s)" "submitters s ! t = SubLock job n i"
    and free: "mutex (worker_queues (pool s) ! i) = None" "accepting_submissions (pool s)"
  shows "pool_inv (s\<lparr>pool := set_queue i ((worker_queues (pool s) ! i)\<lparr>mutex := Some t\<rparr>) (pool s),
    submitters := (submitters s)[t := SubEnqueue job n i]\<rparr>)"
proof -
  let ?q = "worker_queues (pool s) ! i"
  have i: "i < length (worker_queues (pool s))" using submitter_ok[OF inv t(1)] t(2) by simp
  have "closer s = CloseStore" using inv free(2) by (auto simp: pool_inv_def closing_ok_def)
  moreover have "queue_ok ?q (workers s ! i)" using inv i by (simp add: pool_inv_def queues_ok_def)
  moreover have "workers s ! i \<noteq> WorkerExit"
    using inv i \<open>closer s = CloseStore\<close> by (auto simp: pool_inv_def closing_ok_def queues_ok_def)
  ultimately show ?thesis
    using pool_inv_submit_queue[OF inv t(1) i, where q = "?q\<lparr>mutex := Some t\<rparr>"
        and n = "pending_jobs (pool s)" and pc = "SubEnqueue job n i" and new = "[]"] t(2) i free(1)
      pool_inv_bound[OF inv] enqueue_exclusive[OF inv]
    by (simp add: set_queue_def queue_weight_def queue_jobs_def queue_ok_def)
qed

lemma pool_inv_enqueue:
  assumes inv: "pool_inv s" and t: "t < length (submitters s)" "submitters s ! t = SubEnqueue job n i"
    and step: "submit_step t weak loads oom (SubEnqueue job n i) (pool s) = Some (p, pc)"
  shows "pool_inv (s\<lparr>pool := p, submitters := (submitters s)[t := pc],
    accepted := accepted s @ accepted_by oom (SubEnqueue job n i)\<rparr>)"
proof -
  let ?q = "worker_queues (pool s) ! i"
  have i: "i < length (worker_queues (pool s))" "mutex ?q = Some t"
    using submitter_ok[OF inv t(1)] t(2) by simp_all
  have qok: "queue_ok ?q (workers s ! i)" using inv i by (simp add: pool_inv_def queues_ok_def)
  have "\<not> swept (closer s) i" using inv i by (auto simp: pool_inv_def closing_ok_def)
  then have "workers s ! i \<noteq> WorkerExit"
    using inv i by (auto simp: pool_inv_def closing_ok_def queues_ok_def)
  moreover have "submitters s ! u \<noteq> SubEnqueue job' k i" if "u \<noteq> t" "u < length (submitters s)" for u job' k
    using enqueue_exclusive[OF inv that(2)] i(2) that(1) by auto
  moreover have "n \<le> pending_jobs (pool s)" using submit_weight_le[OF inv t(1)] t(2) by simp
  ultimately show ?thesis
    using step qok t(2) i pool_inv_bound[OF inv]
    by (intro pool_inv_submit_queue[OF inv t(1) i(1), where
          q = "if oom then ?q\<lparr>mutex := None\<rparr> else ?q\<lparr>mutex := None, jobs := jobs ?q @ [(job, n)],
            pending_logical_jobs := pending_logical_jobs ?q + n,
            queued_logical_jobs := queued_logical_jobs ?q + n,
            queued_logical_jobs_peak := max (queued_logical_jobs_peak ?q) (queued_logical_jobs ?q + n)\<rparr>"
          and n = "if oom then pending_jobs (pool s) - n else pending_jobs (pool s)"])
      (auto simp: set_queue_def ReleasePendingJobs_def queue_weight_def queue_jobs_def queue_ok_def
        Let_def split: if_splits)
qed

lemma pool_inv_submit:
  assumes inv: "pool_inv s" and t: "t < length (submitters s)"
    and step: "submit_step t weak loads oom (submitters s ! t) (pool s) = Some (p, pc)"
  shows "pool_inv (s\<lparr>pool := p, submitters := (submitters s)[t := pc],
    accepted := accepted s @ accepted_by oom (submitters s ! t)\<rparr>)"
proof (cases "submitters s ! t")
  case SubIdle
  then show ?thesis
    using pool_inv_submit_local[OF inv t, of p pc] step pool_inv_bound[OF inv] by auto
next
  case (SubCheck job n)
  then show ?thesis
    using pool_inv_submit_local[OF inv t, of p pc] step pool_inv_bound[OF inv] by auto
next
  case (SubReserve job n)
  then show ?thesis
    using pool_inv_submit_local[OF inv t, of p pc] step pool_inv_bound[OF inv] by auto
next
  case (SubCas job n pend)
  then show ?thesis
    using pool_inv_submit_local[OF inv t, of p pc] step pool_inv_bound[OF inv] submitter_ok[OF inv t] by (auto split: if_splits)
next
  case (SubSelect job n)
  obtain i p' where sel: "SelectWorkerQueue loads (pool s) = (i, p')" by fastforce
  have "worker_queues (pool s) \<noteq> []" using inv by (simp add: pool_inv_def queues_ok_def)
  then have "i < length (worker_queues (pool s))"
    using SelectWorkerQueue_less[of "pool s" loads] sel by simp
  then show ?thesis
    using pool_inv_submit_local[OF inv t, of p pc] step pool_inv_bound[OF inv] SubSelect sel
    by (auto simp: SelectWorkerQueue_def Let_def)
next
  case (SubLock job n i)
  have n: "n \<le> pending_jobs (pool s)" using submit_weight_le[OF inv t] SubLock by simp
  show ?thesis
  proof (cases "accepting_submissions (pool s)")
    case True
    then show ?thesis
      using pool_inv_lock[OF inv t SubLock] step SubLock by (auto simp: Let_def split: if_splits)
  next
    case False
    then have p: "p = ReleasePendingJobs n (pool s)" "pc = SubIdle"
      using step SubLock by (auto simp: Let_def split: if_splits)
    then show ?thesis
      using pool_inv_submit_local[OF inv t, of p pc] n pool_inv_bound[OF inv] SubLock
      by (simp add: ReleasePendingJobs_def)
  qed
next
  case (SubEnqueue job n i)
  then show ?thesis using pool_inv_enqueue[OF inv t SubEnqueue] step by simp
qed

text \<open>A step of worker \<open>w\<close>, which may change its own queue but not the queue's mutex.\<close>

lemma pool_inv_worker_queue:
  assumes inv: "pool_inv s" and w: "w < length (workers s)" "workers s ! w \<noteq> WorkerExit"
    and p: "p = (set_queue w q (pool s))\<lparr>pending_jobs := n\<rparr>"
      "mutex q = mutex (worker_queues (pool s) ! w)"
    and sums: "n + queue_weight (worker_queues (pool s) ! w) + worker_weight (workers s ! w) =
        pending_jobs (pool s) + queue_weight q + worker_weight pc" "n \<le> max_pending_jobs (pool s)"
      "queue_jobs (worker_queues (pool s) ! w) + running_job (workers s ! w) =
        queue_jobs q + running_job pc + mset new"
    and qok: "queue_ok q pc"
    and exit: "pc = WorkerExit \<Longrightarrow> drain_requested (pool s) \<and> jobs q = []"
  shows "pool_inv (s\<lparr>pool := p, workers := (workers s)[w := pc], executed := executed s @ new\<rparr>)"
    (is "pool_inv ?s'")
proof -
  let ?qs = "worker_queues (pool s)"
  have ok: "sums_ok s" "queues_ok s" "submits_ok s" "closing_ok s"
    using inv by (auto simp: pool_inv_def)
  have wq: "w < length ?qs" using ok(2) w by (simp add: queues_ok_def)
  have up: "list_total worker_weight ((workers s)[w := pc]) + worker_weight (workers s ! w) =
      list_total worker_weight (workers s) + worker_weight pc"
    "list_total queue_weight (?qs[w := q]) + queue_weight (?qs ! w) =
      list_total queue_weight ?qs + queue_weight q"
    "list_total queue_jobs (?qs[w := q]) + queue_jobs (?qs ! w) = list_total queue_jobs ?qs + queue_jobs q"
    "list_total running_job ((workers s)[w := pc]) + running_job (workers s ! w) =
      list_total running_job (workers s) + running_job pc"
    by (simp_all only: list_total_update[OF w(1)] list_total_update[OF wq])
  have "list_total queue_jobs (?qs[w := q]) + list_total running_job ((workers s)[w := pc]) +
      (queue_jobs (?qs ! w) + running_job (workers s ! w)) =
      (list_total queue_jobs (?qs[w := q]) + queue_jobs (?qs ! w)) +
      (list_total running_job ((workers s)[w := pc]) + running_job (workers s ! w))"
    by (simp only: ac_simps)
  also have "\<dots> = (list_total queue_jobs ?qs + queue_jobs q) +
      (list_total running_job (workers s) + running_job pc)"
    by (simp only: up)
  also have "\<dots> = (list_total queue_jobs ?qs + list_total running_job (workers s)) +
      (queue_jobs q + running_job pc)"
    by (simp only: ac_simps)
  finally have "list_total queue_jobs (?qs[w := q]) + list_total running_job ((workers s)[w := pc]) +
      mset new = list_total queue_jobs ?qs + list_total running_job (workers s)"
    unfolding sums(3) by (simp add: add.assoc)
  then have "sums_ok ?s'"
    using ok(1) sums(1,2) up(1,2) p(1) by (simp add: sums_ok_def set_queue_def ac_simps)
  moreover have "queues_ok ?s'"
    using ok(2) qok p(1) w wq by (auto simp: queues_ok_def set_queue_def nth_list_update)
  moreover have "submits_ok ?s'"
    unfolding submits_ok_def
  proof (intro allI impI)
    fix u assume u: "u < length (submitters ?s')"
    then have old: "submit_pc_ok (pool s) u (submitters s ! u)" using ok(3) by (simp add: submits_ok_def)
    have "submit_pc_ok p u (submitters s ! u)"
      using p wq by (intro submit_pc_ok_mono[OF old]) (auto simp: set_queue_def nth_list_update)
    then show "submit_pc_ok (pool ?s') u (submitters ?s' ! u)" by simp
  qed
  moreover have "closer s \<noteq> DrainJoined"
    using ok(4) w by (auto simp: closing_ok_def list_all_length)
  then have "closing_ok ?s'"
    using ok(2,4) p exit wq w
    by (auto simp: closing_ok_def queues_ok_def set_queue_def nth_list_update)
  ultimately show ?thesis by (simp add: pool_inv_def)
qed

lemma worker_weight_le:
  assumes "pool_inv s" "w < length (workers s)"
  shows "worker_weight (workers s ! w) \<le> pending_jobs (pool s)"
  using list_total_member[OF assms(2), of worker_weight] assms(1)
  by (simp add: pool_inv_def sums_ok_def)

lemma pool_inv_work:
  assumes inv: "pool_inv s" and w: "w < length (workers s)"
    and step: "WorkerLoop_step w (workers s ! w) (pool s) = Some (p, pc)"
  shows "pool_inv (s\<lparr>pool := p, workers := (workers s)[w := pc],
    executed := executed s @ executed_by (workers s ! w)\<rparr>)"
proof -
  let ?q = "worker_queues (pool s) ! w"
  have qok: "queue_ok ?q (workers s ! w)" and wq: "w < length (worker_queues (pool s))"
    using inv w by (auto simp: pool_inv_def queues_ok_def)
  note general = pool_inv_worker_queue[OF inv w]
  note simps = set_queue_def queue_weight_def queue_jobs_def running_job_def queue_ok_def Let_def
    ReleasePendingJobs_def
  have same: "set_queue w ?q (pool s) = pool s" using wq by (simp add: set_queue_def)
  show ?thesis
  proof (cases "workers s ! w")
    case WorkerWait
    show ?thesis
    proof (cases "jobs ?q")
      case Nil
      then have "p = pool s" "pc = WorkerExit" "drain_requested (pool s)"
        using step WorkerWait by (auto simp: Let_def split: if_splits)
      then show ?thesis
        using general[where p = p and q = "?q" and n = "pending_jobs (pool s)"
          and pc = pc and new = "[]"] qok WorkerWait Nil same
          pool_inv_bound[OF inv] by (simp add: simps)
    next
      case (Cons jn rest)
      obtain job n where jn: "jn = (job, n)" by (cases jn)
      let ?q' = "?q\<lparr>jobs := rest, queued_logical_jobs := queued_logical_jobs ?q - n\<rparr>"
      have "p = set_queue w ?q' (pool s)" "pc = WorkerRun job n"
        using step WorkerWait Cons jn by (auto simp: Let_def split: if_splits)
      then show ?thesis
        using general[where p = p and q = "?q'" and n = "pending_jobs (pool s)"
          and pc = pc and new = "[]"] qok WorkerWait Cons jn
          pool_inv_bound[OF inv] by (simp add: simps)
    qed
  next
    case (WorkerRun job n)
    then show ?thesis
      using general[where p = p and q = "?q" and n = "pending_jobs (pool s)"
          and pc = pc and new = "[job]"] qok step same pool_inv_bound[OF inv]
      by (auto simp: simps)
  next
    case (WorkerRan n)
    then show ?thesis
      using general[where p = p and q = "?q\<lparr>pending_logical_jobs := pending_logical_jobs ?q - n\<rparr>" and n = "pending_jobs (pool s)"
          and pc = pc and new = "[]"] qok step pool_inv_bound[OF inv]
      by (auto simp: simps)
  next
    case (WorkerRelease n)
    then show ?thesis
      using general[where p = p and q = "?q" and n = "pending_jobs (pool s) - n"
          and pc = pc and new = "[]"] qok step same
        pool_inv_bound[OF inv] worker_weight_le[OF inv w]
      by (auto simp: simps)
  next
    case WorkerExit
    then show ?thesis using step by simp
  qed
qed

lemma pool_inv_close:
  assumes inv: "pool_inv s" and step: "close_step (workers s) (closer s) (pool s) = Some (p, pc)"
  shows "pool_inv (s\<lparr>pool := p, closer := pc\<rparr>)"
proof -
  have p: "worker_queues p = worker_queues (pool s)" "max_pending_jobs p = max_pending_jobs (pool s)"
      "pending_jobs p = pending_jobs (pool s)"
    using step by (cases "closer s"; auto split: if_splits)+
  then have "submit_pc_ok p u x = submit_pc_ok (pool s) u x" for u x by (cases x) simp_all
  then have "submits_ok (s\<lparr>pool := p, closer := pc\<rparr>)"
    using inv by (simp add: pool_inv_def submits_ok_def)
  moreover have "closing_ok (s\<lparr>pool := p, closer := pc\<rparr>)"
    using inv step
    by (cases "closer s") (auto simp: pool_inv_def closing_ok_def less_Suc_eq split: if_splits)
  ultimately show ?thesis using inv p by (simp add: pool_inv_def sums_ok_def queues_ok_def)
qed

lemma pool_inv_stats:
  assumes inv: "pool_inv s" and step: "SnapshotStats start_window (pool s) = (stats, p)"
  shows "pool_inv (s\<lparr>pool := p\<rparr>)"
proof -
  define f :: "'a worker_queue \<Rightarrow> 'a worker_queue" where
    "f q = (if start_window then q\<lparr>queued_logical_jobs_peak := queued_logical_jobs q\<rparr> else q)" for q
  have f: "mutex (f q) = mutex q" "jobs (f q) = jobs q" "queue_weight (f q) = queue_weight q"
    "queue_jobs (f q) = queue_jobs q" "queue_ok q w \<Longrightarrow> queue_ok (f q) w" for q w
    by (simp_all add: f_def queue_weight_def queue_jobs_def queue_ok_def)
  have p: "worker_queues p = map f (worker_queues (pool s))"
    "max_pending_jobs p = max_pending_jobs (pool s)" "pending_jobs p = pending_jobs (pool s)"
    "accepting_submissions p = accepting_submissions (pool s)"
    "drain_requested p = drain_requested (pool s)"
    using step by (auto simp: SnapshotStats_def Let_def f_def[abs_def])
  have "submit_pc_ok p u x" if "submit_pc_ok (pool s) u x" for u x
    using that p f by (cases x) simp_all
  then have "submits_ok (s\<lparr>pool := p\<rparr>)" using inv by (simp add: pool_inv_def submits_ok_def)
  moreover have "closing_ok (s\<lparr>pool := p\<rparr>)"
    using inv p f by (auto simp: pool_inv_def closing_ok_def queues_ok_def)
  ultimately show ?thesis
    using inv p f by (simp add: pool_inv_def sums_ok_def queues_ok_def comp_def)
qed

lemma pool_inv_step: "pool_step s s' \<Longrightarrow> pool_inv s \<Longrightarrow> pool_inv s'"
proof (induction rule: pool_step.induct)
  case (pool_call t s job n pc)
  then show ?case
    using pool_inv_submit_local[of s t "pool s" pc] pool_inv_bound[of s]
    by (auto simp: TrySubmitBatch_def split: if_splits)
next
  case (pool_submit t s weak loads oom p pc)
  then show ?case by (simp add: pool_inv_submit)
next
  case (pool_work w s p pc)
  then show ?case by (simp add: pool_inv_work)
next
  case (pool_close s p pc)
  then show ?case by (simp add: pool_inv_close)
next
  case (pool_close_again s)
  then show ?case by (auto simp: pool_inv_def sums_ok_def queues_ok_def submits_ok_def closing_ok_def)
next
  case (pool_stats start_window s stats p)
  then show ?case by (simp add: pool_inv_stats)
qed

lemma pool_reach_inv: "pool_reach config k s \<Longrightarrow> 0 < wp_threads config \<Longrightarrow> pool_inv s"
  by (induction rule: pool_reach.induct) (auto intro: pool_inv_init pool_inv_step)

section \<open>Closing and draining\<close>

text \<open>Admission is closed for good once no submitter is past the check under the mutex.\<close>

definition admission_closed :: "'j pool_system \<Rightarrow> bool" where
  "admission_closed s \<longleftrightarrow> \<not> accepting_submissions (pool s) \<and>
    (\<forall>t<length (submitters s). \<forall>job n i. submitters s ! t \<noteq> SubEnqueue job n i)"

lemma accepting_step: "pool_step s s' \<Longrightarrow> \<not> accepting_submissions (pool s) \<Longrightarrow>
    \<not> accepting_submissions (pool s')"
proof (induction rule: pool_step.induct)
  case (pool_submit t s weak loads oom p pc)
  then show ?case
    by (cases "submitters s ! t")
      (auto simp: Let_def set_queue_def ReleasePendingJobs_def SelectWorkerQueue_def split: if_splits)
next
  case (pool_work w s p pc)
  then show ?case
    by (cases "workers s ! w")
      (auto simp: Let_def set_queue_def ReleasePendingJobs_def split: if_splits list.splits)
next
  case (pool_close s p pc)
  then show ?case by (cases "closer s") (auto split: if_splits)
qed (auto simp: SnapshotStats_def Let_def)

lemma no_enqueue_step:
  assumes "submit_step t weak loads oom pc p = Some (p', SubEnqueue job n i)" "\<not> accepting_submissions p"
  shows False
  using assms by (cases pc) (auto simp: Let_def reserve_or_fail_def SelectWorkerQueue_def split: if_splits)

lemma admission_closed_step:
  "pool_step s s' \<Longrightarrow> admission_closed s \<Longrightarrow> admission_closed s' \<and> accepted s' = accepted s"
proof (induction rule: pool_step.induct)
  case (pool_call t s job n pc)
  then show ?case
    by (auto simp: admission_closed_def TrySubmitBatch_def nth_list_update split: if_splits)
next
  case (pool_submit t s weak loads oom p pc)
  have "\<not> accepting_submissions p"
    using accepting_step[OF pool_step.pool_submit[OF pool_submit.hyps]] pool_submit.prems
    by (simp add: admission_closed_def)
  moreover have "pc \<noteq> SubEnqueue job n i" for job n i
    using no_enqueue_step[of t weak loads oom "submitters s ! t" "pool s" p job n i] pool_submit
    by (auto simp: admission_closed_def)
  moreover have "accepted_by oom (submitters s ! t) = []"
    using pool_submit by (cases "submitters s ! t") (auto simp: admission_closed_def)
  ultimately show ?case using pool_submit by (auto simp: admission_closed_def nth_list_update)
next
  case (pool_work w s p pc)
  then show ?case
    using accepting_step[OF pool_step.pool_work[OF pool_work.hyps]] by (simp add: admission_closed_def)
next
  case (pool_close s p pc)
  then show ?case
    using accepting_step[OF pool_step.pool_close[OF pool_close.hyps]] by (simp add: admission_closed_def)
qed (auto simp: admission_closed_def SnapshotStats_def Let_def)

lemma closed_admission:
  assumes "pool_inv s" "closer s \<in> {CloseDone, DrainJoin, DrainJoined}"
  shows "admission_closed s"
proof -
  have "mutex (worker_queues (pool s) ! i) = None" if "i < length (worker_queues (pool s))" for i
    using assms that by (auto simp: pool_inv_def closing_ok_def)
  then have "submitters s ! t \<noteq> SubEnqueue job n i" if "t < length (submitters s)" for t job n i
    using submitter_ok[OF assms(1) that] by auto
  then show ?thesis using assms by (auto simp: admission_closed_def pool_inv_def closing_ok_def)
qed

text \<open>The work that is left, decreased by every step of a worker.\<close>

fun pc_work :: "'j worker_pc \<Rightarrow> nat" where
  "pc_work WorkerWait = 1"
| "pc_work (WorkerRun job n) = 4"
| "pc_work (WorkerRan n) = 3"
| "pc_work (WorkerRelease n) = 2"
| "pc_work WorkerExit = 0"

definition work_left :: "'j pool_system \<Rightarrow> nat" where
  "work_left s = list_total (\<lambda>q. 4 * length (jobs q)) (worker_queues (pool s)) +
     list_total pc_work (workers s)"

lemma work_left_worker:
  assumes inv: "pool_inv s" and w: "w < length (workers s)"
    and step: "WorkerLoop_step w (workers s ! w) (pool s) = Some (p, pc)"
  shows "work_left (s\<lparr>pool := p, workers := (workers s)[w := pc], executed := e\<rparr>) < work_left s"
proof -
  have wq: "w < length (worker_queues (pool s))" using inv w by (simp add: pool_inv_def queues_ok_def)
  note up = list_total_update[OF w, of pc_work pc]
    list_total_update[OF wq, of "\<lambda>q. 4 * length (jobs q)"]
  show ?thesis
    using step up(1)
      up(2)[of "(worker_queues (pool s) ! w)\<lparr>jobs := tl (jobs (worker_queues (pool s) ! w)),
        queued_logical_jobs := queued_logical_jobs (worker_queues (pool s) ! w) -
          snd (hd (jobs (worker_queues (pool s) ! w)))\<rparr>"]
      up(2)[of "(worker_queues (pool s) ! w)\<lparr>pending_logical_jobs :=
        pending_logical_jobs (worker_queues (pool s) ! w) - n\<rparr>" for n]
    by (cases "workers s ! w")
      (auto simp: work_left_def Let_def set_queue_def ReleasePendingJobs_def
        split: if_splits list.splits)
qed

lemma worker_enabled:
  assumes inv: "pool_inv s" "closer s = DrainJoin" and w: "w < length (workers s)" "workers s ! w \<noteq> WorkerExit"
  shows "WorkerLoop_step w (workers s ! w) (pool s) \<noteq> None"
proof -
  have "w < length (worker_queues (pool s))" using inv w by (simp add: pool_inv_def queues_ok_def)
  then have "mutex (worker_queues (pool s) ! w) = None" "drain_requested (pool s)"
    using inv by (auto simp: pool_inv_def closing_ok_def)
  then show ?thesis using w(2) by (cases "workers s ! w") (auto simp: Let_def split: list.split)
qed

section \<open>Properties\<close>

lemma MakeWorkerPoolConfig_threads:
  "MakeWorkerPoolConfig hardware req lim = Value config \<Longrightarrow>
     0 < wp_threads config \<and> wp_max_pending_jobs config = lim \<and> 0 < lim"
  by (auto simp: MakeWorkerPoolConfig_def split: if_splits)

lemma pool_reach_limit: "pool_reach config k s \<Longrightarrow> max_pending_jobs (pool s) = wp_max_pending_jobs config"
proof (induction rule: pool_reach.induct)
  case (pool_next s s')
  have "pool_step s s' \<Longrightarrow> max_pending_jobs (pool s') = max_pending_jobs (pool s)"
  proof (induction rule: pool_step.induct)
    case (pool_submit t s weak loads oom p pc)
    then show ?case
      by (cases "submitters s ! t")
        (auto simp: Let_def set_queue_def ReleasePendingJobs_def SelectWorkerQueue_def split: if_splits)
  next
    case (pool_work w s p pc)
    then show ?case
      by (cases "workers s ! w")
        (auto simp: Let_def set_queue_def ReleasePendingJobs_def split: if_splits list.splits)
  next
    case (pool_close s p pc)
    then show ?case by (cases "closer s") (auto split: if_splits)
  qed (auto simp: SnapshotStats_def Let_def)
  with pool_next show ?case by simp
qed (simp add: pool_init_def WorkerPool_def)

text \<open>C8. Admission control of the worker pool, for any number of submitters and any interleaving
  with the workers, spurious compare-exchange failures and allocation failures: the pending
  counter is exactly the weight of the jobs being submitted, queued or run, it never exceeds the
  configured limit, each queue's counters are exactly its queued and its queued or running
  weight, and every accepted job is queued, running or has run, exactly once.\<close>

theorem worker_pool_accounting:
  assumes "MakeWorkerPoolConfig hardware requested limit = Value config" "pool_reach config k s"
  shows "pending_jobs (pool s) = list_total submit_weight (submitters s) +
      list_total queue_weight (worker_queues (pool s)) + list_total worker_weight (workers s) \<and>
    pending_jobs (pool s) \<le> limit \<and>
    (\<forall>i<length (workers s).
      queued_logical_jobs (worker_queues (pool s) ! i) = queue_weight (worker_queues (pool s) ! i) \<and>
      pending_logical_jobs (worker_queues (pool s) ! i) =
        queue_weight (worker_queues (pool s) ! i) + worker_load (workers s ! i)) \<and>
    mset (accepted s) = mset (executed s) + list_total queue_jobs (worker_queues (pool s)) +
      list_total running_job (workers s)"
  using pool_reach_inv[OF assms(2)] pool_reach_limit[OF assms(2)]
    MakeWorkerPoolConfig_threads[OF assms(1)]
  by (auto simp: pool_inv_def sums_ok_def queues_ok_def queue_ok_def)

text \<open>Runs given as lists of actions, for one submitter: submit a job, let the submitter, a
  worker or the shutdown thread take a step.\<close>

datatype 'j pool_action = DoSubmit 'j nat | DoStep | DoWork nat | DoClose

fun pool_run :: "'j pool_action list \<Rightarrow> 'j pool_system \<Rightarrow> 'j pool_system option" where
  "pool_run [] s = Some s"
| "pool_run (DoSubmit job n # as) s =
    (case (submitters s, TrySubmitBatch job n) of
       ([SubIdle], Some pc) \<Rightarrow> pool_run as (s\<lparr>submitters := [pc]\<rparr>)
     | _ \<Rightarrow> None)"
| "pool_run (DoStep # as) s =
    (case submitters s of
       [pc] \<Rightarrow> (case submit_step 0 False (\<lambda>_. 0) False pc (pool s) of
           None \<Rightarrow> None
         | Some (p, pc') \<Rightarrow> pool_run as (s\<lparr>pool := p, submitters := [pc'],
             accepted := accepted s @ accepted_by False pc\<rparr>))
     | _ \<Rightarrow> None)"
| "pool_run (DoWork w # as) s =
    (if w < length (workers s) then
       (case WorkerLoop_step w (workers s ! w) (pool s) of
          None \<Rightarrow> None
        | Some (p, pc) \<Rightarrow> pool_run as (s\<lparr>pool := p, workers := (workers s)[w := pc],
            executed := executed s @ executed_by (workers s ! w)\<rparr>))
     else None)"
| "pool_run (DoClose # as) s =
    (case close_step (workers s) (closer s) (pool s) of
       None \<Rightarrow> None
     | Some (p, pc) \<Rightarrow> pool_run as (s\<lparr>pool := p, closer := pc\<rparr>))"

lemma pool_run_reach:
  "pool_run as s = Some s' \<Longrightarrow> pool_reach config k s \<Longrightarrow> pool_reach config k s'"
proof (induction as s rule: pool_run.induct)
  case (2 job n as s)
  then obtain pc where pc: "submitters s = [SubIdle]" "TrySubmitBatch job n = Some pc"
      "pool_run as (s\<lparr>submitters := [pc]\<rparr>) = Some s'"
    by (auto split: list.splits submit_pc.splits option.splits)
  then show ?case using 2 pool_next[OF 2(3) pool_call[of 0 s job n pc]] by simp
next
  case (3 as s)
  then obtain pc p pc' where pc: "submitters s = [pc]"
      "submit_step 0 False (\<lambda>_. 0) False pc (pool s) = Some (p, pc')"
      "pool_run as (s\<lparr>pool := p, submitters := [pc'],
         accepted := accepted s @ accepted_by False pc\<rparr>) = Some s'"
    by (auto split: list.splits option.splits)
  then show ?case using 3 pool_next[OF 3(3) pool_submit[of 0 s False "\<lambda>_. 0" False p pc']] by simp
next
  case (4 w as s)
  then obtain p pc where pc: "w < length (workers s)"
      "WorkerLoop_step w (workers s ! w) (pool s) = Some (p, pc)"
      "pool_run as (s\<lparr>pool := p, workers := (workers s)[w := pc],
         executed := executed s @ executed_by (workers s ! w)\<rparr>) = Some s'"
    by (auto split: option.splits if_splits)
  then show ?case using 4 pool_next[OF 4(3) pool_work[OF pc(1,2)]] by simp
next
  case (5 as s)
  then obtain p pc where pc: "close_step (workers s) (closer s) (pool s) = Some (p, pc)"
      "pool_run as (s\<lparr>pool := p, closer := pc\<rparr>) = Some s'"
    by (auto split: option.splits)
  then show ?case using 5 pool_next[OF 5(3) pool_close[OF pc(1)]] by simp
qed simp

definition demo_config :: worker_pool_config where
  "demo_config = \<lparr>wp_threads = 2, wp_max_pending_jobs = 5\<rparr>"

lemma demo_config_ok: "MakeWorkerPoolConfig 8 2 5 = Value demo_config"
  by (simp add: MakeWorkerPoolConfig_def demo_config_def)

text \<open>Two batches are accepted, the first one is being run; then the pool is closed and drained.\<close>

definition demo_submits :: "nat pool_action list" where
  "demo_submits = DoSubmit 7 3 # replicate 6 DoStep @ DoSubmit 8 2 # replicate 6 DoStep @ [DoWork 0]"

definition demo_drain :: "nat pool_action list" where
  "demo_drain = replicate 5 DoClose @ replicate 4 (DoWork 0) @ replicate 5 (DoWork 1) @ [DoClose]"

lemma demo_submits_run:
  "map_option (\<lambda>s. (pending_jobs (pool s), accepted s, executed s, closer s))
     (pool_run demo_submits (pool_init demo_config 1)) = Some (5, [7, 8], [], CloseStore)"
  by code_simp

lemma demo_drain_run:
  "map_option (\<lambda>s. (pending_jobs (pool s), accepted s, executed s, closer s, submitters s))
     (pool_run (demo_submits @ demo_drain) (pool_init demo_config 1)) =
     Some (0, [7, 8], [7, 8], DrainJoined, [SubIdle])"
  by code_simp

theorem worker_pool_accounting_witness:
  "\<exists>s. pool_reach demo_config 1 s \<and> accepted s = [7, 8 :: nat] \<and> pending_jobs (pool s) = 5 \<and>
     pending_jobs (pool s) \<le> 5 \<and>
     mset [7, 8] = mset (executed s) + list_total queue_jobs (worker_queues (pool s)) +
       list_total running_job (workers s)"
proof -
  obtain s where s: "pool_run demo_submits (pool_init demo_config 1) = Some s"
      "pending_jobs (pool s) = 5" "accepted s = [7, 8]"
    using demo_submits_run by auto
  have "pool_reach demo_config 1 s" by (rule pool_run_reach[OF s(1) pool_start])
  with worker_pool_accounting[OF demo_config_ok this] s show ?thesis by metis
qed

text \<open>Once \<^verbatim>\<open>CloseSubmissions\<close> has returned, no concurrent \<^verbatim>\<open>TrySubmitBatch\<close> can enqueue work any
  more, although the admission flag is cleared outside the queue mutexes: in every continuation
  the accepted jobs stay the same.\<close>

theorem close_submissions_final:
  assumes "MakeWorkerPoolConfig hardware requested limit = Value config" "pool_reach config k s"
    "closer s = CloseDone" "pool_step\<^sup>*\<^sup>* s s'"
  shows "accepted s' = accepted s"
proof -
  have closed: "admission_closed s"
    using closed_admission[OF pool_reach_inv[OF assms(2)]] MakeWorkerPoolConfig_threads[OF assms(1)]
      assms(3) by simp
  have "admission_closed s' \<and> accepted s' = accepted s"
    using assms(4) closed by (induction rule: rtranclp_induct) (auto dest: admission_closed_step)
  then show ?thesis by simp
qed

lemma demo_close_run:
  "map_option (\<lambda>s. (accepted s, closer s))
     (pool_run (demo_submits @ [DoSubmit 9 1, DoClose, DoClose, DoClose, DoClose])
       (pool_init demo_config 1)) = Some ([7, 8], CloseDone)"
  by code_simp

theorem close_submissions_final_witness:
  "\<exists>s. pool_reach demo_config 1 s \<and> accepted s = [7, 8 :: nat] \<and>
     (\<forall>s'. pool_step\<^sup>*\<^sup>* s s' \<longrightarrow> accepted s' = [7, 8])"
proof -
  obtain s where s: "pool_run (demo_submits @ [DoSubmit 9 1, DoClose, DoClose, DoClose, DoClose])
      (pool_init demo_config 1) = Some s" "accepted s = [7, 8]" "closer s = CloseDone"
    using demo_close_run by auto
  have "pool_reach demo_config 1 s" by (rule pool_run_reach[OF s(1) pool_start])
  with close_submissions_final[OF demo_config_ok this s(3)] s(2) show ?thesis by auto
qed

text \<open>C24. Draining: while \<^verbatim>\<open>DrainAndJoin\<close> waits, every worker that has not exited can take a step, and
  each such step strictly decreases a bound on the work left, so the drain ends; when it has
  ended, exactly the accepted jobs have been run, every queue is empty, and the only pending
  reservations left are those of submitters that have yet to find admission closed.\<close>

theorem drain_and_join:
  assumes "MakeWorkerPoolConfig hardware requested limit = Value config" "pool_reach config k s"
  shows "(closer s = DrainJoin \<longrightarrow>
      (\<forall>w<length (workers s). workers s ! w \<noteq> WorkerExit \<longrightarrow>
        (\<exists>p pc. WorkerLoop_step w (workers s ! w) (pool s) = Some (p, pc) \<and>
          work_left (s\<lparr>pool := p, workers := (workers s)[w := pc],
            executed := executed s @ executed_by (workers s ! w)\<rparr>) < work_left s))) \<and>
    (closer s = DrainJoined \<longrightarrow>
      mset (executed s) = mset (accepted s) \<and>
      (\<forall>i<length (worker_queues (pool s)). jobs (worker_queues (pool s) ! i) = []) \<and>
      pending_jobs (pool s) = list_total submit_weight (submitters s))"
proof -
  have inv: "pool_inv s"
    using pool_reach_inv[OF assms(2)] MakeWorkerPoolConfig_threads[OF assms(1)] by simp
  have joined: "mset (executed s) = mset (accepted s) \<and>
      (\<forall>i<length (worker_queues (pool s)). jobs (worker_queues (pool s) ! i) = []) \<and>
      pending_jobs (pool s) = list_total submit_weight (submitters s)" if "closer s = DrainJoined"
  proof -
    have exit: "\<forall>i<length (workers s). workers s ! i = WorkerExit"
      using inv that by (auto simp: pool_inv_def closing_ok_def list_all_length)
    then have empty: "\<forall>i<length (worker_queues (pool s)). jobs (worker_queues (pool s) ! i) = []"
      using inv by (auto simp: pool_inv_def closing_ok_def queues_ok_def)
    have "\<forall>w\<in>set (workers s). w = WorkerExit" "\<forall>q\<in>set (worker_queues (pool s)). jobs q = []"
      using exit empty by (auto simp: in_set_conv_nth)
    then have "map worker_weight (workers s) = map (\<lambda>_. 0) (workers s)"
      "map running_job (workers s) = map (\<lambda>_. 0) (workers s)"
      "map queue_weight (worker_queues (pool s)) = map (\<lambda>_. 0) (worker_queues (pool s))"
      "map queue_jobs (worker_queues (pool s)) = map (\<lambda>_. 0) (worker_queues (pool s))"
      by (auto simp: running_job_def queue_weight_def queue_jobs_def)
    with inv empty show ?thesis
      by (simp add: pool_inv_def sums_ok_def map_replicate_const list_total_zero)
  qed
  show ?thesis
    using joined worker_enabled[OF inv] work_left_worker[OF inv] by fastforce
qed

theorem drain_and_join_witness:
  "\<exists>s. pool_reach demo_config 1 s \<and> closer s = DrainJoined \<and> mset (executed s) = mset [7, 8 :: nat]"
proof -
  obtain s where s: "pool_run (demo_submits @ demo_drain) (pool_init demo_config 1) = Some s"
      "accepted s = [7, 8]" "closer s = DrainJoined"
    using demo_drain_run by auto
  have "pool_reach demo_config 1 s" by (rule pool_run_reach[OF s(1) pool_start])
  with drain_and_join[OF demo_config_ok this] s show ?thesis by metis
qed

lemma probe_queues_least:
  assumes "\<And>k. k < worker_count \<Longrightarrow> load ((start + k) mod worker_count) = loads k"
    "\<And>k. k < offset \<Longrightarrow> pend \<le> loads k" "load selected = pend" "k < worker_count"
  shows "load (probe_queues loads start worker_count offset selected pend) \<le> loads k"
  using assms
proof (induction loads start worker_count offset selected pend rule: probe_queues.induct)
  case (1 loads start worker_count offset selected pend)
  show ?case
  proof (cases "offset < worker_count \<and> pend > 0")
    case True
    have less: "k' < offset + 1 \<Longrightarrow> min pend (loads offset) \<le> loads k'" for k'
      using 1(4)[of k'] by (cases "k' = offset") auto
    show ?thesis
    proof (cases "loads offset < pend")
      case t: True
      then have "load (probe_queues loads start worker_count (offset + 1)
          ((start + offset) mod worker_count) (loads offset)) \<le> loads k"
        using 1(1)[OF True refl refl t] 1(3,6) True less by simp
      moreover have "probe_queues loads start worker_count offset selected pend =
          probe_queues loads start worker_count (offset + 1) ((start + offset) mod worker_count) (loads offset)"
        using True t by (subst probe_queues.simps) (simp add: Let_def)
      ultimately show ?thesis by (simp only:)
    next
      case f: False
      then have "load (probe_queues loads start worker_count (offset + 1) selected pend) \<le> loads k"
        using 1(2)[OF True refl refl f] 1(3,5,6) less by simp
      moreover have "probe_queues loads start worker_count offset selected pend =
          probe_queues loads start worker_count (offset + 1) selected pend"
        using True f by (subst probe_queues.simps) (simp add: Let_def)
      ultimately show ?thesis by (simp only:)
    qed
  next
    case False
    then have "pend \<le> loads k" using 1(4)[of k] 1(6) by auto
    moreover have "probe_queues loads start worker_count offset selected pend = selected"
      using False by (subst probe_queues.simps) (simp only: if_False)
    ultimately show ?thesis using 1(5) by simp
  qed
qed

text \<open>Worker selection: when the load counters do not change while they are probed, the selected
  queue is one of the pool's queues and no queue has a smaller load; the round-robin index
  advances by one.\<close>

theorem select_least_loaded:
  assumes "worker_queues p \<noteq> []"
    "\<And>k. loads k = pending_logical_jobs (worker_queues p !
       ((unat (next_worker_index p) mod length (worker_queues p) + k) mod length (worker_queues p)))"
    "j < length (worker_queues p)"
  shows "case SelectWorkerQueue loads p of (i, p') \<Rightarrow>
    i < length (worker_queues p) \<and>
    pending_logical_jobs (worker_queues p ! i) \<le> pending_logical_jobs (worker_queues p ! j) \<and>
    p' = p\<lparr>next_worker_index := next_worker_index p + 1\<rparr>"
proof -
  let ?n = "length (worker_queues p)" and ?load = "\<lambda>i. pending_logical_jobs (worker_queues p ! i)"
  let ?start = "unat (next_worker_index p) mod ?n"
  have n: "0 < ?n" using assms(1) by simp
  define k where "k = (j + ?n - ?start) mod ?n"
  have "?start < ?n" using n by simp
  then have "(?start + k) mod ?n = (j + ?n) mod ?n"
    unfolding k_def by (simp add: mod_add_right_eq)
  then have kj: "(?start + k) mod ?n = j" "k < ?n" using assms(3) n by (simp_all add: k_def)
  have "?load (probe_queues loads ?start ?n 1 ?start (loads 0)) \<le> loads k"
  proof (rule probe_queues_least[where load = ?load])
    show "?load ((?start + k) mod ?n) = loads k" for k using assms(2)[of k] by simp
    show "loads 0 \<le> loads k" if "k < 1" for k using that by simp
    show "?load ?start = loads 0" using assms(2)[of 0] by simp
  qed (rule kj(2))
  then show ?thesis
    using SelectWorkerQueue_less[OF assms(1), of loads] kj(1) assms(2)[of k]
    by (simp add: SelectWorkerQueue_def Let_def)
qed

definition demo_pool :: "nat worker_pool" where
  "demo_pool = (WorkerPool demo_config)\<lparr>worker_queues :=
     [empty_queue\<lparr>pending_logical_jobs := 4\<rparr>, empty_queue\<lparr>pending_logical_jobs := 2\<rparr>],
     next_worker_index := 6\<rparr>"

theorem select_least_loaded_witness:
  "fst (SelectWorkerQueue (\<lambda>k. pending_logical_jobs (worker_queues demo_pool !
      ((unat (next_worker_index demo_pool) mod 2 + k) mod 2))) demo_pool) < 2 \<and>
   pending_logical_jobs (worker_queues demo_pool ! fst (SelectWorkerQueue
     (\<lambda>k. pending_logical_jobs (worker_queues demo_pool !
      ((unat (next_worker_index demo_pool) mod 2 + k) mod 2))) demo_pool)) \<le> 2"
proof -
  have len: "length (worker_queues demo_pool) = 2" by (simp add: demo_pool_def)
  have one: "pending_logical_jobs (worker_queues demo_pool ! 1) = 2" by (simp add: demo_pool_def)
  have "worker_queues demo_pool \<noteq> []" using len by auto
  from select_least_loaded[OF this, of "\<lambda>k. pending_logical_jobs (worker_queues demo_pool !
      ((unat (next_worker_index demo_pool) mod 2 + k) mod 2))" 1]
  show ?thesis by (simp add: len one[unfolded One_nat_def] split: prod.splits)
qed

end
