(* ===== verification/Server_Connection.thy ===== *)
theory Server_Connection
  imports Frame_Stream Service_Registry "HOL-Library.Monad_Syntax"
begin

text \<open>
  \<^verbatim>\<open>src/server/server_connection.cpp\<close>: one server-side connection. Its state belongs to one I/O
  thread; its two coroutines run until their next suspension, so an operation of the model is
  everything the code does between two suspensions, including the synchronous resumption of the
  write loop. \<open>None\<close> is a failed assertion. \<open>stopping\<close> is the I/O context's stop flag, which
  makes \<^verbatim>\<open>Send\<close> and \<^verbatim>\<open>RecvProvided\<close> complete synchronously with \<^verbatim>\<open>ECANCELED\<close>.
\<close>

section \<open>State\<close>

record backpressure_limits =
  max_inflight :: nat
  max_write_queue_bytes :: nat

definition MakeConnectionBackpressureLimits :: "nat \<Rightarrow> nat \<Rightarrow> backpressure_limits status_or" where
  "MakeConnectionBackpressureLimits inflight_max queue_max =
    (if inflight_max = 0 then
       Error (Status InvalidArgument ''RpcServer max_inflight_per_connection must be greater than 0'')
     else if queue_max = 0 then
       Error (Status InvalidArgument
         ''RpcServer max_write_queue_bytes_per_connection must be greater than 0'')
     else Value \<lparr>max_inflight = inflight_max, max_write_queue_bytes = queue_max\<rparr>)"

text \<open>The accounts of the owning \<^verbatim>\<open>ConnectionIoLoop\<close> that a connection updates.\<close>

record loop_accounts =
  loop_pending_write_bytes :: nat
  loop_pending_write_bytes_peak :: nat
  live_connections :: nat

definition RecordWriteBytesChange :: "nat \<Rightarrow> nat \<Rightarrow> loop_accounts \<Rightarrow> loop_accounts option" where
  "RecordWriteBytesChange before after acc =
    (if \<not> loop_pending_write_bytes acc \<ge> before then None
     else let p = loop_pending_write_bytes acc - before + after
       in Some (acc\<lparr>loop_pending_write_bytes := p,
            loop_pending_write_bytes_peak := max (loop_pending_write_bytes_peak acc) p\<rparr>))"

definition OnConnectionClosed :: "loop_accounts \<Rightarrow> loop_accounts" where
  "OnConnectionClosed acc =
    (if live_connections acc > 0 then acc\<lparr>live_connections := live_connections acc - 1\<rparr> else acc)"

datatype conn_state = Active | Draining | Closed

text \<open>Where the two coroutines are suspended.\<close>

datatype read_pc = ReadNotStarted | ReadReceiving | ReadDone

datatype write_pc = WriteNotStarted | WriteWaiting | WriteSending bytes nat | WriteDone

text \<open>The last four fields are history: the batches handed to the worker pool by the current
  operation, the bytes queued for writing and the bytes the kernel took so far, and how often
  \<^verbatim>\<open>on_closed_\<close> ran.\<close>

record connection =
  state :: conn_state
  conn_stream :: frame_stream
  write_queue :: "bytes list"
  write_queue_waiter :: bool
  inflight_requests :: nat
  pending_write_bytes :: nat
  conn_limits :: backpressure_limits
  read_loop :: read_pc
  write_loop :: write_pc
  socket_open :: bool
  owner_loop :: loop_accounts
  submitted :: "request_envelope list list"
  queued_bytes :: bytes
  sent_bytes :: bytes
  closed_calls :: nat

abbreviation conn_protocol :: "connection \<Rightarrow> protocol_limits" where
  "conn_protocol c \<equiv> fs_limits (conn_stream c)"

definition ServerConnection :: "backpressure_limits \<Rightarrow> protocol_limits \<Rightarrow> loop_accounts \<Rightarrow> connection" where
  "ServerConnection lims plimits acc = \<lparr>state = Active, conn_stream = new_stream plimits,
     write_queue = [], write_queue_waiter = False, inflight_requests = 0, pending_write_bytes = 0,
     conn_limits = lims, read_loop = ReadNotStarted, write_loop = WriteNotStarted,
     socket_open = True, owner_loop = acc, submitted = [], queued_bytes = [], sent_bytes = [],
     closed_calls = 0\<rparr>"

section \<open>Closing and draining\<close>

text \<open>\<^verbatim>\<open>WakeWriteLoop\<close> when the state is \<^verbatim>\<open>Closed\<close>: the resumed write loop falls through all its
  conditions and returns (\<open>WriteLoop_closed\<close> below).\<close>

definition wake_closed :: "connection \<Rightarrow> connection" where
  "wake_closed c = (if \<not> write_queue_waiter c then c
     else c\<lparr>write_queue_waiter := False, write_loop := WriteDone\<rparr>)"

definition Close :: "connection \<Rightarrow> connection option" where
  "Close c =
    (if state c = Closed then Some c
     else do {
       acc \<leftarrow> RecordWriteBytesChange (pending_write_bytes c) 0 (owner_loop c);
       let c1 = wake_closed (c\<lparr>state := Closed, write_queue := [], owner_loop := acc,
                  pending_write_bytes := 0\<rparr>);
       Some (c1\<lparr>socket_open := False, owner_loop := OnConnectionClosed (owner_loop c1),
         closed_calls := closed_calls c1 + 1\<rparr>)
     })"

definition TryFinishDrain :: "connection \<Rightarrow> connection option" where
  "TryFinishDrain c =
    (if state c \<noteq> Draining then Some c
     else if inflight_requests c = 0 \<and> pending_write_bytes c = 0 then
       (if write_queue c \<noteq> [] then None else Close c)
     else Some c)"

definition Conn_BeginDrain :: "connection \<Rightarrow> connection option" where
  "Conn_BeginDrain c =
    (if state c \<noteq> Active then Some c else TryFinishDrain (c\<lparr>state := Draining\<rparr>))"

section \<open>Writing\<close>

definition TryReserveWriteBytes :: "nat \<Rightarrow> connection \<Rightarrow> (bool \<times> connection) option" where
  "TryReserveWriteBytes n c =
    (if \<not> pending_write_bytes c \<le> max_write_queue_bytes (conn_limits c) then None
     else if n > max_write_queue_bytes (conn_limits c) - pending_write_bytes c then
       do { c' \<leftarrow> Close c; Some (False, c') }
     else do {
       let before = pending_write_bytes c;
       acc \<leftarrow> RecordWriteBytesChange before (before + n) (owner_loop c);
       Some (True, c\<lparr>pending_write_bytes := before + n, owner_loop := acc\<rparr>)
     })"

definition ReleaseWriteBytes :: "nat \<Rightarrow> connection \<Rightarrow> connection option" where
  "ReleaseWriteBytes n c =
    (if \<not> n \<le> pending_write_bytes c then None
     else do {
       let before = pending_write_bytes c;
       acc \<leftarrow> RecordWriteBytesChange before (before - n) (owner_loop c);
       Some (c\<lparr>pending_write_bytes := before - n, owner_loop := acc\<rparr>)
     })"

definition MAX_WRITE_BATCH_BYTES :: nat where
  "MAX_WRITE_BATCH_BYTES = 64 * 1024"

fun coalesce :: "bytes \<Rightarrow> bytes list \<Rightarrow> bytes \<times> bytes list" where
  "coalesce batch [] = (batch, [])"
| "coalesce batch (w # ws) =
    (if length batch + length w \<le> MAX_WRITE_BATCH_BYTES then coalesce (batch @ w) ws
     else (batch, w # ws))"

text \<open>Only called with a non-empty queue; \<^verbatim>\<open>front()\<close> of an empty one is undefined.\<close>

definition TakeWriteBatch :: "connection \<Rightarrow> (bytes \<times> connection) option" where
  "TakeWriteBatch c =
    (case write_queue c of
       [] \<Rightarrow> None
     | w # ws \<Rightarrow> (case coalesce w ws of (batch, rest) \<Rightarrow> Some (batch, c\<lparr>write_queue := rest\<rparr>)))"

lemma coalesce_length: "coalesce batch ws = (batch', rest) \<Longrightarrow> length rest \<le> length ws"
  by (induction batch ws rule: coalesce.induct) (auto split: if_splits)

text \<open>The write loop from line 261 on, until it suspends or returns. An empty batch would be
  released without a \<^verbatim>\<open>Send\<close>.\<close>

function WriteLoop :: "bool \<Rightarrow> connection \<Rightarrow> connection option" where
  "WriteLoop stopping c =
    (if state c = Closed \<or> write_queue c = [] then do {
       c1 \<leftarrow> TryFinishDrain c;
       if state c1 = Closed then Some (c1\<lparr>write_loop := WriteDone\<rparr>)
       else if write_queue_waiter c1 then None
       else Some (c1\<lparr>write_queue_waiter := True, write_loop := WriteWaiting\<rparr>)
     }
     else case TakeWriteBatch c of
       None \<Rightarrow> None
     | Some (batch, c1) \<Rightarrow>
         if batch = [] then
           (case ReleaseWriteBytes 0 c1 of None \<Rightarrow> None | Some c2 \<Rightarrow> WriteLoop stopping c2)
         else if stopping then do {
           c2 \<leftarrow> ReleaseWriteBytes (length batch) c1;
           c3 \<leftarrow> Close c2;
           Some (c3\<lparr>write_loop := WriteDone\<rparr>)
         }
         else Some (c1\<lparr>write_loop := WriteSending batch 0\<rparr>))"
  by pat_completeness auto
termination
proof (relation "measure (\<lambda>(stopping, c). length (write_queue c))", simp)
  fix stopping :: bool and c x batch c1 c2
  assume "TakeWriteBatch c = Some x" "(batch, c1) = x" "ReleaseWriteBytes 0 c1 = Some c2"
  then have "length (write_queue c2) < length (write_queue c)"
    by (auto simp: TakeWriteBatch_def ReleaseWriteBytes_def RecordWriteBytesChange_def Let_def
        dest!: coalesce_length split: list.splits prod.splits if_splits)
  then show "((stopping, c2), stopping, c) \<in> measure (\<lambda>(stopping, c). length (write_queue c))"
    by simp
qed

declare WriteLoop.simps [simp del]

definition WakeWriteLoop :: "bool \<Rightarrow> connection \<Rightarrow> connection option" where
  "WakeWriteLoop stopping c =
    (if \<not> write_queue_waiter c then Some c
     else WriteLoop stopping (c\<lparr>write_queue_waiter := False\<rparr>))"

definition EnqueueWrite :: "bool \<Rightarrow> bytes \<Rightarrow> connection \<Rightarrow> (bool \<times> connection) option" where
  "EnqueueWrite stopping bs c =
    (if state c = Closed then Some (False, c)
     else do {
       (ok, c1) \<leftarrow> TryReserveWriteBytes (length bs) c;
       if \<not> ok then Some (False, c1)
       else do {
         c2 \<leftarrow> WakeWriteLoop stopping
           (c1\<lparr>write_queue := write_queue c1 @ [bs], queued_bytes := queued_bytes c1 @ bs\<rparr>);
         Some (True, c2)
       }
     })"

text \<open>Completion of a \<^verbatim>\<open>Send\<close> with result \<open>n\<close>.\<close>

definition on_send :: "bool \<Rightarrow> int \<Rightarrow> connection \<Rightarrow> connection option" where
  "on_send stopping n c =
    (case write_loop c of
       WriteSending batch off \<Rightarrow>
         if state c = Closed then Some (c\<lparr>write_loop := WriteDone\<rparr>)
         else if n \<le> 0 then do {
           c1 \<leftarrow> ReleaseWriteBytes (length batch) c;
           c2 \<leftarrow> Close c1;
           Some (c2\<lparr>write_loop := WriteDone\<rparr>)
         }
         else let c0 = c\<lparr>sent_bytes := sent_bytes c @ take (nat n) (drop off batch)\<rparr>
           in if off + nat n < length batch then
                (if stopping then do {
                   c1 \<leftarrow> ReleaseWriteBytes (length batch) c0;
                   c2 \<leftarrow> Close c1;
                   Some (c2\<lparr>write_loop := WriteDone\<rparr>)
                 }
                 else Some (c0\<lparr>write_loop := WriteSending batch (off + nat n)\<rparr>))
              else do {
                c1 \<leftarrow> ReleaseWriteBytes (length batch) c0;
                WriteLoop stopping c1
              }
     | _ \<Rightarrow> None)"

section \<open>Reading\<close>

definition RejectForBackpressure ::
  "codec_env \<Rightarrow> bool \<Rightarrow> string \<Rightarrow> request_envelope \<Rightarrow> connection \<Rightarrow> (bool \<times> connection) option" where
  "RejectForBackpressure env stopping message request c =
    (case Encode_response env (conn_protocol c) \<lparr>resp_id = req_id request,
            resp_status = Status ResourceExhausted message, resp_payload = []\<rparr> of
       Error _ \<Rightarrow> do { c' \<leftarrow> Close c; Some (False, c') }
     | Value encoded \<Rightarrow> EnqueueWrite stopping encoded c)"

text \<open>The callback that rejects one request; a failed assertion stops the iteration.\<close>

definition reject_next ::
  "codec_env \<Rightarrow> bool \<Rightarrow> string \<Rightarrow> request_envelope \<Rightarrow> connection option \<Rightarrow> bool \<times> connection option" where
  "reject_next env stopping message request s =
    (case s of
       None \<Rightarrow> (False, None)
     | Some c \<Rightarrow>
         (case RejectForBackpressure env stopping message request c of
            None \<Rightarrow> (False, None)
          | Some (ok, c') \<Rightarrow> (ok, Some c')))"

text \<open>What \<^verbatim>\<open>TrySubmitBatch\<close> returned, and \<^verbatim>\<open>accepting_submissions()\<close> after a refusal.\<close>

datatype submit_outcome = Accepted | Refused bool

definition SubmitRequestBatch ::
  "codec_env \<Rightarrow> bool \<Rightarrow> submit_outcome \<Rightarrow> request_envelope list \<Rightarrow> connection \<Rightarrow>
     (bool \<times> connection) option" where
  "SubmitRequestBatch env stopping outcome requests c =
    (if requests = [] then None
     else case outcome of
       Refused False \<Rightarrow> do { c' \<leftarrow> Conn_BeginDrain c; Some (False, c') }
     | Refused True \<Rightarrow>
         (case all_of (reject_next env stopping ''server global pending job limit exceeded'')
                 requests (Some c) of
            (_, None) \<Rightarrow> None
          | (ok, Some c') \<Rightarrow> Some (ok, c'))
     | Accepted \<Rightarrow>
         Some (True, c\<lparr>inflight_requests := inflight_requests c + length requests,
                 submitted := submitted c @ [requests]\<rparr>))"

definition HandleFeedResult ::
  "codec_env \<Rightarrow> bool \<Rightarrow> submit_outcome \<Rightarrow> feed_result \<Rightarrow> connection \<Rightarrow> (bool \<times> connection) option" where
  "HandleFeedResult env stopping outcome feed c =
    (if feed_closed feed then do { c' \<leftarrow> Close c; Some (False, c') }
     else let request_count = batch_size (feed_requests feed)
       in if request_count = 0 then Some (True, c)
          else if \<not> inflight_requests c \<le> max_inflight (conn_limits c) then None
          else if request_count > max_inflight (conn_limits c) - inflight_requests c then
            (case ConsumeEach (reject_next env stopping
                    ''server per-connection in-flight limit exceeded'')
                    (feed_requests feed) (Some c) of
               (_, None) \<Rightarrow> None
             | (ok, Some c') \<Rightarrow> Some (ok, c'))
          else SubmitRequestBatch env stopping outcome
            (snd (ConsumeEach (\<lambda>r rs. (True, rs @ [r])) (feed_requests feed) [])) c)"

text \<open>The head of the read loop, until it suspends or returns.\<close>

definition ReadLoop_next :: "bool \<Rightarrow> connection \<Rightarrow> connection option" where
  "ReadLoop_next stopping c =
    (if state c = Active then
       (if stopping then do { c1 \<leftarrow> Close c; c2 \<leftarrow> TryFinishDrain c1; Some (c2\<lparr>read_loop := ReadDone\<rparr>) }
        else Some (c\<lparr>read_loop := ReadReceiving\<rparr>))
     else do { c1 \<leftarrow> TryFinishDrain c; Some (c1\<lparr>read_loop := ReadDone\<rparr>) })"

datatype recv_result = RecvData bytes | RecvEof | RecvError

text \<open>Completion of a receive; \<open>cap\<close> is the capacity of the frame stream's string.\<close>

definition on_recv ::
  "codec_env \<Rightarrow> bool \<Rightarrow> submit_outcome \<Rightarrow> nat \<Rightarrow> recv_result \<Rightarrow> connection \<Rightarrow> connection option" where
  "on_recv env stopping outcome cap r c =
    (if read_loop c \<noteq> ReadReceiving then None
     else let finish = \<lambda>c. do { c1 \<leftarrow> TryFinishDrain c; Some (c1\<lparr>read_loop := ReadDone\<rparr>) }
     in if state c \<noteq> Active then finish c
        else case r of
          RecvEof \<Rightarrow> finish (c\<lparr>state := Draining\<rparr>)
        | RecvError \<Rightarrow> do { c1 \<leftarrow> Close c; finish c1 }
        | RecvData bs \<Rightarrow> do {
            (fs, feed) \<leftarrow> FeedBytes env cap bs (conn_stream c);
            (continue, c1) \<leftarrow> HandleFeedResult env stopping outcome feed (c\<lparr>conn_stream := fs\<rparr>);
            if \<not> continue then finish c1 else ReadLoop_next stopping c1
          })"

text \<open>The first iteration of the write loop, from line 258 on.\<close>

definition WriteLoop_start :: "bool \<Rightarrow> connection \<Rightarrow> connection option" where
  "WriteLoop_start stopping c =
    (if state c = Closed then Some (c\<lparr>write_loop := WriteDone\<rparr>)
     else if write_queue c \<noteq> [] then WriteLoop stopping c
     else if write_queue_waiter c then None
     else Some (c\<lparr>write_queue_waiter := True, write_loop := WriteWaiting\<rparr>))"

definition Conn_Start :: "bool \<Rightarrow> connection \<Rightarrow> connection option" where
  "Conn_Start stopping c = do { c1 \<leftarrow> WriteLoop_start stopping c; ReadLoop_next stopping c1 }"

definition CanBeCollected :: "connection \<Rightarrow> bool" where
  "CanBeCollected c \<longleftrightarrow> state c = Closed \<and> read_loop c = ReadDone \<and> write_loop c = WriteDone"

section \<open>Worker results\<close>

definition ReleaseInflightRequests :: "nat \<Rightarrow> connection \<Rightarrow> connection option" where
  "ReleaseInflightRequests n c =
    (if \<not> n \<le> inflight_requests c then None
     else Some (c\<lparr>inflight_requests := inflight_requests c - n\<rparr>))"

text \<open>\<open>oom\<close>: the queue's \<^verbatim>\<open>push_back\<close> throws \<^verbatim>\<open>std::bad_alloc\<close> after the bytes were reserved.\<close>

definition OnResponsesEncoded :: "bool \<Rightarrow> bool \<Rightarrow> bytes \<Rightarrow> nat \<Rightarrow> connection \<Rightarrow> connection option" where
  "OnResponsesEncoded stopping oom response_bytes n c = do {
     c1 \<leftarrow> ReleaseInflightRequests n c;
     if state c1 = Closed then Some c1
     else do {
       c2 \<leftarrow> (if oom
              then do { (_, c') \<leftarrow> TryReserveWriteBytes (length response_bytes) c1; Close c' }
              else do { (_, c') \<leftarrow> EnqueueWrite stopping response_bytes c1; Some c' });
       TryFinishDrain c2
     }
   }"

definition OnResponseEncodeFailure :: "nat \<Rightarrow> connection \<Rightarrow> connection option" where
  "OnResponseEncodeFailure n c = do { c1 \<leftarrow> ReleaseInflightRequests n c; Close c1 }"

record worker_result =
  wr_connection_id :: u64
  response_bytes :: bytes
  released_requests :: nat
  encode_failed :: bool

text \<open>The loop of \<^verbatim>\<open>ExecuteRequestBatchOnWorker\<close>: the responses encoded before the first failure
  and their number.\<close>

fun encode_batch ::
  "(request_envelope \<Rightarrow> response_envelope) \<Rightarrow> (response_envelope \<Rightarrow> bytes status_or) \<Rightarrow>
     request_envelope list \<Rightarrow> bytes \<times> nat" where
  "encode_batch dispatch encode [] = ([], 0)"
| "encode_batch dispatch encode (r # rs) =
    (case encode (dispatch r) of
       Error _ \<Rightarrow> ([], 0)
     | Value f \<Rightarrow> (case encode_batch dispatch encode rs of (bs, n) \<Rightarrow> (f @ bs, n + 1)))"

definition ExecuteRequestBatchOnWorker ::
  "codec_env \<Rightarrow> service_registry \<Rightarrow> protocol_limits \<Rightarrow> u64 \<Rightarrow> request_envelope list \<Rightarrow>
     worker_result list" where
  "ExecuteRequestBatchOnWorker env registry plimits connection_id requests =
    (case encode_batch (Dispatch registry) (Encode_response env plimits) requests of
       (batch_response_bytes, encoded_responses) \<Rightarrow>
         (if encoded_responses > 0
          then [\<lparr>wr_connection_id = connection_id, response_bytes = batch_response_bytes,
                 released_requests = encoded_responses, encode_failed = False\<rparr>] else []) @
         (if encoded_responses < length requests
          then [\<lparr>wr_connection_id = connection_id, response_bytes = [],
                 released_requests = length requests - encoded_responses, encode_failed = True\<rparr>]
          else []))"

text \<open>The connection's part of \<^verbatim>\<open>ConnectionIoLoop::HandleWorkerResult\<close>.\<close>

definition handle_result :: "bool \<Rightarrow> bool \<Rightarrow> worker_result \<Rightarrow> connection \<Rightarrow> connection option" where
  "handle_result stopping oom r c =
    (if encode_failed r then OnResponseEncodeFailure (released_requests r) c
     else OnResponsesEncoded stopping oom (response_bytes r) (released_requests r) c)"

section \<open>A connection and its outstanding work\<close>

text \<open>\<open>conn_jobs\<close> are the batches with the worker pool, \<open>conn_results\<close> the results not handled
  yet. Jobs and results are taken in any order. \<open>assertion_failed\<close> records a \<open>None\<close>.\<close>

record conn_system =
  conn :: connection
  conn_jobs :: "request_envelope list list"
  conn_results :: "worker_result list"
  assertion_failed :: bool

definition apply_op :: "(connection \<Rightarrow> connection option) \<Rightarrow> conn_system \<Rightarrow> conn_system" where
  "apply_op f s =
    (case f (conn s) of
       None \<Rightarrow> s\<lparr>assertion_failed := True\<rparr>
     | Some c \<Rightarrow> s\<lparr>conn := c\<lparr>submitted := []\<rparr>, conn_jobs := conn_jobs s @ submitted c\<rparr>)"

inductive conn_step :: "codec_env \<Rightarrow> service_registry \<Rightarrow> u64 \<Rightarrow> conn_system \<Rightarrow> conn_system \<Rightarrow> bool"
  for env registry i where
  recv_done: "read_loop (conn s) = ReadReceiving \<Longrightarrow>
    conn_step env registry i s (apply_op (on_recv env stopping outcome cap r) s)"
| send_done: "write_loop (conn s) = WriteSending batch off \<Longrightarrow> n \<le> int (length batch - off) \<Longrightarrow>
    conn_step env registry i s (apply_op (on_send stopping n) s)"
| job_done: "k < length (conn_jobs s) \<Longrightarrow>
    conn_step env registry i s (s\<lparr>conn_jobs := take k (conn_jobs s) @ drop (Suc k) (conn_jobs s),
      conn_results := conn_results s @
        ExecuteRequestBatchOnWorker env registry (conn_protocol (conn s)) i (conn_jobs s ! k)\<rparr>)"
| result_handled: "k < length (conn_results s) \<Longrightarrow>
    conn_step env registry i s (apply_op (handle_result stopping oom (conn_results s ! k))
      (s\<lparr>conn_results := take k (conn_results s) @ drop (Suc k) (conn_results s)\<rparr>))"
| drain_begun: "conn_step env registry i s (apply_op Conn_BeginDrain s)"
| closed_by_loop: "conn_step env registry i s (apply_op Close s)"
| others_write: "pending_write_bytes (conn s) \<le> loop_pending_write_bytes acc \<Longrightarrow>
    conn_step env registry i s (s\<lparr>conn := (conn s)\<lparr>owner_loop := acc\<rparr>\<rparr>)"

inductive conn_reach ::
  "codec_env \<Rightarrow> service_registry \<Rightarrow> u64 \<Rightarrow> backpressure_limits \<Rightarrow> protocol_limits \<Rightarrow> conn_system \<Rightarrow> bool"
  for env registry i lims plimits where
  conn_started: "conn_reach env registry i lims plimits
    (apply_op (Conn_Start stopping) \<lparr>conn = ServerConnection lims plimits acc, conn_jobs = [],
       conn_results = [], assertion_failed = False\<rparr>)"
| conn_next: "conn_reach env registry i lims plimits s \<Longrightarrow> conn_step env registry i s s' \<Longrightarrow>
    conn_reach env registry i lims plimits s'"

section \<open>The invariant\<close>

text \<open>The byte accounts and the order of the written bytes. \<open>k\<close> is the size of the batch being
  sent and \<open>rem\<close> what is left of it.\<close>

definition core :: "nat \<Rightarrow> bytes \<Rightarrow> connection \<Rightarrow> bool" where
  "core k rem c \<longleftrightarrow>
    pending_write_bytes c \<le> max_write_queue_bytes (conn_limits c) \<and>
    pending_write_bytes c \<le> loop_pending_write_bytes (owner_loop c) \<and>
    [] \<notin> set (write_queue c) \<and> wf_stream (conn_stream c) \<and>
    (state c = Closed \<longrightarrow>
       write_queue c = [] \<and> pending_write_bytes c = 0 \<and> \<not> socket_open c \<and> closed_calls c = 1 \<and>
       \<not> write_queue_waiter c \<and> (\<exists>r. queued_bytes c = sent_bytes c @ r)) \<and>
    (state c \<noteq> Closed \<longrightarrow>
       socket_open c \<and> closed_calls c = 0 \<and>
       pending_write_bytes c = list_total length (write_queue c) + k \<and>
       queued_bytes c = sent_bytes c @ rem @ concat (write_queue c))"

lemma core_frame [simp]:
  "core k rem (c\<lparr>write_loop := wpc\<rparr>) = core k rem c"
  "core k rem (c\<lparr>read_loop := rpc\<rparr>) = core k rem c"
  "core k rem (c\<lparr>submitted := bs\<rparr>) = core k rem c"
  "core k rem (c\<lparr>inflight_requests := n\<rparr>) = core k rem c"
  by (simp_all add: core_def)

text \<open>What an operation leaves alone; it may only move the state to \<^verbatim>\<open>Closed\<close>.\<close>

definition keep :: "connection \<Rightarrow> connection \<Rightarrow> bool" where
  "keep c c' \<longleftrightarrow> read_loop c' = read_loop c \<and> inflight_requests c' = inflight_requests c \<and>
    conn_limits c' = conn_limits c \<and> conn_stream c' = conn_stream c \<and> submitted c' = submitted c \<and>
    (state c' = state c \<or> state c' = Closed)"

text \<open>A draining connection has something to wait for.\<close>

definition drained :: "connection \<Rightarrow> bool" where
  "drained c \<longleftrightarrow> (state c = Draining \<longrightarrow> inflight_requests c \<noteq> 0 \<or> pending_write_bytes c \<noteq> 0)"

definition writer_ok :: "connection \<Rightarrow> bool" where
  "writer_ok c \<longleftrightarrow>
    (case write_loop c of
       WriteNotStarted \<Rightarrow> \<not> write_queue_waiter c \<and> core 0 [] c
     | WriteWaiting \<Rightarrow> write_queue_waiter c \<and> state c \<noteq> Closed \<and> write_queue c = [] \<and> core 0 [] c
     | WriteSending b off \<Rightarrow> \<not> write_queue_waiter c \<and> off < length b \<and> core (length b) (drop off b) c
     | WriteDone \<Rightarrow> \<not> write_queue_waiter c \<and> state c = Closed \<and> core 0 [] c)"

lemma keep_refl [simp]: "keep c c"
  by (simp add: keep_def)

lemma keep_trans [trans]: "keep a b \<Longrightarrow> keep b c \<Longrightarrow> keep a c"
  by (auto simp: keep_def)

lemma core_closed: "state c = Closed \<Longrightarrow> core k rem c = core 0 [] c"
  by (simp add: core_def)

text \<open>Closing a connection that is not closed yet.\<close>

definition closed_conn :: "connection \<Rightarrow> connection" where
  "closed_conn c = c\<lparr>state := Closed, write_queue := [], pending_write_bytes := 0,
     write_queue_waiter := False,
     write_loop := (if write_queue_waiter c then WriteDone else write_loop c), socket_open := False,
     owner_loop := OnConnectionClosed ((owner_loop c)\<lparr>
       loop_pending_write_bytes := loop_pending_write_bytes (owner_loop c) - pending_write_bytes c,
       loop_pending_write_bytes_peak := max (loop_pending_write_bytes_peak (owner_loop c))
         (loop_pending_write_bytes (owner_loop c) - pending_write_bytes c)\<rparr>),
     closed_calls := closed_calls c + 1\<rparr>"

lemma Close_eq:
  assumes "core k rem c"
  shows "Close c = Some (if state c = Closed then c else closed_conn c)"
proof (cases "state c = Closed")
  case False
  then show ?thesis
    using assms
    by (simp add: Close_def core_def RecordWriteBytesChange_def wake_closed_def closed_conn_def Let_def)
qed (simp add: Close_def)

lemma closed_conn_simps [simp]:
  "state (closed_conn c) = Closed" "write_queue (closed_conn c) = []"
  "pending_write_bytes (closed_conn c) = 0" "\<not> write_queue_waiter (closed_conn c)"
  "read_loop (closed_conn c) = read_loop c" "inflight_requests (closed_conn c) = inflight_requests c"
  "write_loop (closed_conn c) = (if write_queue_waiter c then WriteDone else write_loop c)"
  "keep c (closed_conn c)"
  by (simp_all add: closed_conn_def keep_def)

lemma closed_conn_core:
  "core k rem c \<Longrightarrow> state c \<noteq> Closed \<Longrightarrow> core k' rem' (closed_conn c)"
  by (auto simp: core_def closed_conn_def)

lemma Close_ok:
  assumes "core k rem c"
  shows "\<exists>c'. Close c = Some c' \<and> state c' = Closed \<and> core k' rem' c' \<and> keep c c' \<and>
    write_loop c' = (if state c \<noteq> Closed \<and> write_queue_waiter c then WriteDone else write_loop c)"
proof (cases "state c = Closed")
  case True
  then show ?thesis
    using Close_eq[OF assms] assms core_closed[OF True, of k rem] core_closed[OF True, of k' rem'] by simp
next
  case False
  then show ?thesis using Close_eq[OF assms] closed_conn_core[OF assms] by simp
qed

lemma drained_closed [simp]: "state c = Closed \<Longrightarrow> drained c"
  by (simp add: drained_def)

lemma TryFinishDrain_ok:
  assumes "core k rem c"
  shows "\<exists>c'. TryFinishDrain c = Some c' \<and> core k rem c' \<and> keep c c' \<and> drained c' \<and>
    (c' = c \<or> state c = Draining \<and> pending_write_bytes c = 0 \<and> c' = closed_conn c)"
proof (cases "state c = Draining \<and> inflight_requests c = 0 \<and> pending_write_bytes c = 0")
  case True
  then have "list_total length (write_queue c) = 0" "[] \<notin> set (write_queue c)"
    using assms by (auto simp: core_def)
  then have "write_queue c = []" by (cases "write_queue c") auto
  then have "TryFinishDrain c = Some (closed_conn c)"
    using True Close_eq[OF assms] by (simp add: TryFinishDrain_def)
  then show ?thesis using True closed_conn_core[OF assms] by auto
next
  case False
  then have "TryFinishDrain c = Some c" by (auto simp: TryFinishDrain_def)
  then show ?thesis using False assms by (auto simp: drained_def)
qed

lemma coalesce_concat:
  "coalesce batch ws = (batch', rest) \<Longrightarrow>
     batch' @ concat rest = batch @ concat ws \<and> set rest \<subseteq> set ws \<and>
     length batch' + list_total length rest = length batch + list_total length ws \<and>
     length batch \<le> length batch' \<and>
     length batch' \<le> max (length batch) MAX_WRITE_BATCH_BYTES"
  by (induction batch ws rule: coalesce.induct) (auto split: if_splits)

lemma TakeWriteBatch_ok:
  assumes "core 0 [] c" "state c \<noteq> Closed" "write_queue c \<noteq> []"
  shows "\<exists>batch rest. TakeWriteBatch c = Some (batch, c\<lparr>write_queue := rest\<rparr>) \<and> batch \<noteq> [] \<and>
    core (length batch) batch (c\<lparr>write_queue := rest\<rparr>)"
proof -
  obtain w ws where w: "write_queue c = w # ws" using assms(3) by (cases "write_queue c") auto
  obtain batch rest where b: "coalesce w ws = (batch, rest)" by fastforce
  have "w \<noteq> []" using assms(1) w by (auto simp: core_def)
  then show ?thesis
    using assms w b coalesce_concat[OF b] by (auto simp: TakeWriteBatch_def core_def)
qed

lemma ReleaseWriteBytes_ok:
  assumes "core k rem c" "state c \<noteq> Closed"
  shows "\<exists>c'. ReleaseWriteBytes k c = Some c' \<and> keep c c' \<and> state c' = state c \<and>
    pending_write_bytes c' = pending_write_bytes c - k \<and>
    write_queue_waiter c' = write_queue_waiter c \<and> write_loop c' = write_loop c \<and>
    (rem = [] \<longrightarrow> core 0 [] c') \<and> core 0 rem c'"
  using assms
  by (auto simp: ReleaseWriteBytes_def RecordWriteBytesChange_def core_def keep_def Let_def)

text \<open>A running write loop that holds no batch.\<close>

lemma WriteLoop_ok:
  assumes c: "core 0 [] c" "\<not> write_queue_waiter c"
  shows "\<exists>c'. WriteLoop stopping c = Some c' \<and> writer_ok c' \<and> keep c c' \<and> drained c' \<and>
    write_loop c' \<noteq> WriteNotStarted"
proof (cases "state c = Closed \<or> write_queue c = []")
  case True
  obtain c1 where c1: "TryFinishDrain c = Some c1" "core 0 [] c1" "keep c c1" "drained c1"
      "\<not> write_queue_waiter c1" "state c1 \<noteq> Closed \<Longrightarrow> write_queue c1 = []"
    using TryFinishDrain_ok[OF c(1)] c(2) True by (auto simp: core_def)
  then show ?thesis
    using True
    by (subst WriteLoop.simps) (auto simp: writer_ok_def core_def keep_def drained_def split: if_splits)
next
  case False
  obtain batch rest where b: "TakeWriteBatch c = Some (batch, c\<lparr>write_queue := rest\<rparr>)" "batch \<noteq> []"
      "core (length batch) batch (c\<lparr>write_queue := rest\<rparr>)"
    using TakeWriteBatch_ok[OF c(1)] False by auto
  let ?c1 = "c\<lparr>write_queue := rest\<rparr>"
  show ?thesis
  proof (cases stopping)
    case True
    obtain c2 where c2: "ReleaseWriteBytes (length batch) ?c1 = Some c2" "keep ?c1 c2"
        "state c2 = state ?c1" "write_queue_waiter c2 = write_queue_waiter ?c1" "core 0 batch c2"
      using ReleaseWriteBytes_ok[OF b(3)] False by auto
    obtain c3 where c3: "Close c2 = Some c3" "state c3 = Closed" "core 0 [] c3" "keep c2 c3"
      using Close_ok[OF c2(5)] by blast
    have "WriteLoop stopping c = Some (c3\<lparr>write_loop := WriteDone\<rparr>)"
      using True False b(1,2) c2(1) c3(1) by (subst WriteLoop.simps) simp
    moreover have "writer_ok (c3\<lparr>write_loop := WriteDone\<rparr>)"
      using c3 by (simp add: writer_ok_def core_def)
    ultimately show ?thesis using c2(2,3) c3(2,4) by (auto simp: keep_def)
  next
    case f: False
    have "WriteLoop stopping c = Some (?c1\<lparr>write_loop := WriteSending batch 0\<rparr>)"
      using False f b(1,2) by (subst WriteLoop.simps) simp
    moreover have "writer_ok (?c1\<lparr>write_loop := WriteSending batch 0\<rparr>)"
      using b c(2) by (simp add: writer_ok_def core_def)
    moreover have "pending_write_bytes c \<noteq> 0" using b(2,3) False by (simp add: core_def)
    ultimately show ?thesis by (auto simp: keep_def drained_def)
  qed
qed

lemma WriteLoop_closed:
  assumes "core 0 [] c" "state c = Closed"
  shows "WriteLoop stopping (c\<lparr>write_queue_waiter := False\<rparr>) =
    Some (c\<lparr>write_queue_waiter := False, write_loop := WriteDone\<rparr>)"
  using assms by (subst WriteLoop.simps) (simp add: TryFinishDrain_def)

lemma writer_core: "writer_ok c \<Longrightarrow> \<exists>k rem. core k rem c"
  by (auto simp: writer_ok_def split: write_pc.splits)

lemma writer_ok_closed_conn:
  assumes "writer_ok c" "state c \<noteq> Closed"
  shows "writer_ok (closed_conn c)"
  using assms closed_conn_core[of _ _ c] by (auto simp: writer_ok_def split: write_pc.splits)

lemma Close_writer:
  assumes "writer_ok c"
  shows "\<exists>c'. Close c = Some c' \<and> writer_ok c' \<and> keep c c' \<and> state c' = Closed \<and>
    (write_loop c \<noteq> WriteNotStarted \<longrightarrow> write_loop c' \<noteq> WriteNotStarted)"
proof -
  obtain k rem where "core k rem c" using writer_core[OF assms] by blast
  from Close_eq[OF this] show ?thesis
    using assms writer_ok_closed_conn[OF assms] by (cases "state c = Closed") auto
qed

lemma TryFinishDrain_writer:
  assumes "writer_ok c"
  shows "\<exists>c'. TryFinishDrain c = Some c' \<and> writer_ok c' \<and> keep c c' \<and> drained c' \<and>
    (write_loop c \<noteq> WriteNotStarted \<longrightarrow> write_loop c' \<noteq> WriteNotStarted)"
proof -
  obtain k rem where "core k rem c" using writer_core[OF assms] by blast
  from TryFinishDrain_ok[OF this] show ?thesis
    using assms writer_ok_closed_conn[OF assms] by auto
qed

lemma writer_ok_frame [simp]:
  "writer_ok (c\<lparr>read_loop := rpc\<rparr>) = writer_ok c"
  "writer_ok (c\<lparr>submitted := bs\<rparr>) = writer_ok c"
  "writer_ok (c\<lparr>inflight_requests := n\<rparr>) = writer_ok c"
  by (simp_all add: writer_ok_def split: write_pc.split)

lemma writer_ok_drain: "writer_ok c \<Longrightarrow> state c = Active \<Longrightarrow> writer_ok (c\<lparr>state := Draining\<rparr>)"
  by (auto simp: writer_ok_def core_def split: write_pc.splits)

lemma BeginDrain_writer:
  assumes "writer_ok c" "drained c"
  shows "\<exists>c'. Conn_BeginDrain c = Some c' \<and> writer_ok c' \<and> keep (c\<lparr>state := state c'\<rparr>) c' \<and> drained c' \<and>
    state c' \<noteq> Active \<and> (write_loop c \<noteq> WriteNotStarted \<longrightarrow> write_loop c' \<noteq> WriteNotStarted)"
proof (cases "state c = Active")
  case True
  from TryFinishDrain_writer[OF writer_ok_drain[OF assms(1) True]] True show ?thesis
    by (auto simp: Conn_BeginDrain_def keep_def)
next
  case False
  then show ?thesis using assms by (auto simp: Conn_BeginDrain_def keep_def)
qed

text \<open>The connection after a successful reservation.\<close>

definition reserved_conn :: "nat \<Rightarrow> connection \<Rightarrow> connection" where
  "reserved_conn n c = c\<lparr>pending_write_bytes := pending_write_bytes c + n,
     owner_loop := (owner_loop c)\<lparr>
       loop_pending_write_bytes := loop_pending_write_bytes (owner_loop c) + n,
       loop_pending_write_bytes_peak := max (loop_pending_write_bytes_peak (owner_loop c))
         (loop_pending_write_bytes (owner_loop c) + n)\<rparr>\<rparr>"

lemma TryReserveWriteBytes_eq:
  assumes "core k rem c" "n \<le> max_write_queue_bytes (conn_limits c) - pending_write_bytes c"
  shows "TryReserveWriteBytes n c = Some (True, reserved_conn n c)"
  using assms
  by (simp add: TryReserveWriteBytes_def RecordWriteBytesChange_def core_def reserved_conn_def Let_def)

lemma reserved_conn_simps [simp]:
  "state (reserved_conn n c) = state c" "write_queue (reserved_conn n c) = write_queue c"
  "write_queue_waiter (reserved_conn n c) = write_queue_waiter c"
  "write_loop (reserved_conn n c) = write_loop c" "queued_bytes (reserved_conn n c) = queued_bytes c"
  "keep c (reserved_conn n c)"
  by (simp_all add: reserved_conn_def keep_def)

lemma core_enqueue:
  assumes "core k rem c" "state c \<noteq> Closed" "bs \<noteq> []"
    "length bs \<le> max_write_queue_bytes (conn_limits c) - pending_write_bytes c"
  shows "core k rem ((reserved_conn (length bs) c)\<lparr>write_queue := write_queue c @ [bs],
    queued_bytes := queued_bytes c @ bs\<rparr>)"
  using assms by (auto simp: core_def reserved_conn_def)

lemma EnqueueWrite_ok:
  assumes c: "writer_ok c" "bs \<noteq> []"
  shows "\<exists>ok c'. EnqueueWrite stopping bs c = Some (ok, c') \<and> writer_ok c' \<and> keep c c' \<and>
    (\<not> ok \<longrightarrow> state c' = Closed) \<and>
    (write_loop c \<noteq> WriteNotStarted \<longrightarrow> write_loop c' \<noteq> WriteNotStarted)"
proof (cases "state c = Closed")
  case True
  then show ?thesis using c by (auto simp: EnqueueWrite_def)
next
  case live: False
  obtain k rem where core: "core k rem c" using writer_core[OF c(1)] by blast
  show ?thesis
  proof (cases "length bs \<le> max_write_queue_bytes (conn_limits c) - pending_write_bytes c")
    case False
    moreover have "pending_write_bytes c \<le> max_write_queue_bytes (conn_limits c)"
      using core by (simp add: core_def)
    ultimately show ?thesis
      using Close_writer[OF c(1)] live by (auto simp: EnqueueWrite_def TryReserveWriteBytes_def)
  next
    case room: True
    let ?c2 = "(reserved_conn (length bs) c)\<lparr>write_queue := write_queue c @ [bs],
      queued_bytes := queued_bytes c @ bs\<rparr>"
    have k2: "keep c ?c2" by (simp add: keep_def reserved_conn_def)
    have "\<exists>c'. WakeWriteLoop stopping ?c2 = Some c' \<and> writer_ok c' \<and> keep ?c2 c' \<and>
      (write_loop c \<noteq> WriteNotStarted \<longrightarrow> write_loop c' \<noteq> WriteNotStarted)"
    proof (cases "write_queue_waiter c")
      case True
      then have "core 0 [] c" using c(1) by (auto simp: writer_ok_def split: write_pc.splits)
      from core_enqueue[OF this live c(2) room] have "core 0 [] (?c2\<lparr>write_queue_waiter := False\<rparr>)"
        by (auto simp: core_def)
      from WriteLoop_ok[OF this, of stopping] True show ?thesis
        by (auto simp: WakeWriteLoop_def keep_def)
    next
      case False
      then have "writer_ok ?c2"
        using c(1) core_enqueue[OF _ live c(2) room] live
        by (auto simp: writer_ok_def split: write_pc.splits)
      then show ?thesis using False by (simp add: WakeWriteLoop_def)
    qed
    then show ?thesis
      using live TryReserveWriteBytes_eq[OF core room] keep_trans[OF k2]
      by (auto simp: EnqueueWrite_def)
  qed
qed

lemma frame_nonempty:
  "Encode_response env plimits r = Value f \<Longrightarrow> HEADER_SIZE \<le> length f"
  by (auto simp: Encode_response_Value Let_def)

lemma RejectForBackpressure_ok:
  assumes "writer_ok c"
  shows "\<exists>ok c'. RejectForBackpressure env stopping msg r c = Some (ok, c') \<and> writer_ok c' \<and> keep c c' \<and>
    (\<not> ok \<longrightarrow> state c' = Closed) \<and>
    (write_loop c \<noteq> WriteNotStarted \<longrightarrow> write_loop c' \<noteq> WriteNotStarted)"
proof (cases "Encode_response env (conn_protocol c) \<lparr>resp_id = req_id r,
    resp_status = Status ResourceExhausted msg, resp_payload = []\<rparr>")
  case (Value f)
  then have "f \<noteq> []" using frame_nonempty[OF Value] by (auto simp: HEADER_SIZE_def)
  with EnqueueWrite_ok[OF assms this, of stopping] Value show ?thesis
    by (auto simp: RejectForBackpressure_def)
next
  case (Error s)
  with Close_writer[OF assms] show ?thesis by (auto simp: RejectForBackpressure_def)
qed

lemma reject_all_ok:
  assumes "writer_ok c"
  shows "\<exists>ok c'. all_of (reject_next env stopping msg) rs (Some c) = (ok, Some c') \<and> writer_ok c' \<and>
    keep c c' \<and> (\<not> ok \<longrightarrow> state c' = Closed) \<and>
    (write_loop c \<noteq> WriteNotStarted \<longrightarrow> write_loop c' \<noteq> WriteNotStarted)"
  using assms
proof (induction rs arbitrary: c)
  case Nil
  then show ?case by auto
next
  case (Cons r rs)
  obtain ok c1 where c1: "RejectForBackpressure env stopping msg r c = Some (ok, c1)" "writer_ok c1"
      "keep c c1" "\<not> ok \<longrightarrow> state c1 = Closed"
      "write_loop c \<noteq> WriteNotStarted \<longrightarrow> write_loop c1 \<noteq> WriteNotStarted"
    using RejectForBackpressure_ok[OF Cons.prems] by blast
  show ?case
  proof (cases ok)
    case True
    with c1 Cons.IH[OF c1(2)] show ?thesis
      by (auto simp: reject_next_def intro: keep_trans)
  next
    case False
    with c1 show ?thesis by (auto simp: reject_next_def)
  qed
qed

text \<open>Between two events: the byte accounts hold, a draining connection waits for something, and
  the read loop only returns when the connection no longer reads.\<close>

definition conn_ok :: "connection \<Rightarrow> bool" where
  "conn_ok c \<longleftrightarrow> writer_ok c \<and> drained c \<and> write_loop c \<noteq> WriteNotStarted \<and>
    read_loop c \<noteq> ReadNotStarted \<and> (read_loop c = ReadDone \<longrightarrow> state c \<noteq> Active)"

text \<open>What an event does to the request count: \<open>n\<close> requests are released, and those handed to
  the worker pool are added.\<close>

definition counts :: "nat \<Rightarrow> connection \<Rightarrow> connection \<Rightarrow> bool" where
  "counts n c c' \<longleftrightarrow> inflight_requests c' + n = inflight_requests c + list_total length (submitted c') \<and>
    inflight_requests c' \<le> max_inflight (conn_limits c') \<and> conn_limits c' = conn_limits c \<and>
    [] \<notin> set (submitted c')"

lemma batch_collect: "snd (ConsumeEach (\<lambda>r rs. (True, rs @ [r])) b []) = batch_list b"
proof -
  have "all_of (\<lambda>r rs. (True, rs @ [r])) xs ys = (True, ys @ xs)" for xs ys :: "request_envelope list"
    by (induction xs arbitrary: ys) simp_all
  then show ?thesis by (simp add: ConsumeEach_all_of)
qed

text \<open>Handling a feed while the connection is active.\<close>

definition after_feed :: "bool \<Rightarrow> connection \<Rightarrow> connection \<Rightarrow> bool" where
  "after_feed continue c c' \<longleftrightarrow> writer_ok c' \<and> counts 0 c c' \<and> read_loop c' = read_loop c \<and>
    write_loop c' \<noteq> WriteNotStarted \<and> (continue \<or> state c' \<noteq> Active)"

lemma keep_counts:
  "keep c c' \<Longrightarrow> submitted c = [] \<Longrightarrow> inflight_requests c \<le> max_inflight (conn_limits c) \<Longrightarrow>
     counts 0 c c'"
  by (auto simp: keep_def counts_def)

lemma SubmitRequestBatch_ok:
  assumes c: "writer_ok c" "write_loop c \<noteq> WriteNotStarted" "submitted c = []" "state c = Active"
    and r: "requests \<noteq> []" "inflight_requests c + length requests \<le> max_inflight (conn_limits c)"
  shows "\<exists>ok c'. SubmitRequestBatch env stopping outcome requests c = Some (ok, c') \<and>
    after_feed ok c c'"
proof (cases outcome)
  case Accepted
  then show ?thesis
    using c r by (auto simp: SubmitRequestBatch_def after_feed_def counts_def)
next
  case (Refused accepting)
  show ?thesis
  proof (cases accepting)
    case True
    obtain ok c' where rej: "all_of (reject_next env stopping ''server global pending job limit exceeded'')
        requests (Some c) = (ok, Some c')" "writer_ok c'" "keep c c'" "\<not> ok \<longrightarrow> state c' = Closed"
        "write_loop c' \<noteq> WriteNotStarted"
      using reject_all_ok[OF c(1)] c(2) by blast
    moreover have "counts 0 c c'" using keep_counts[OF rej(3) c(3)] r(2) by simp
    ultimately show ?thesis
      using Refused True r(1) by (auto simp: SubmitRequestBatch_def after_feed_def keep_def)
  next
    case False
    have "drained c" using c(4) by (simp add: drained_def)
    from BeginDrain_writer[OF c(1) this] obtain c' where d: "Conn_BeginDrain c = Some c'" "writer_ok c'"
        "keep (c\<lparr>state := state c'\<rparr>) c'" "state c' \<noteq> Active" "write_loop c' \<noteq> WriteNotStarted"
      using c(2) by blast
    moreover have "counts 0 c c'" using d(3) c(3) r(2) by (auto simp: keep_def counts_def)
    ultimately show ?thesis
      using Refused False r(1) by (auto simp: SubmitRequestBatch_def after_feed_def keep_def)
  qed
qed

lemma HandleFeedResult_ok:
  assumes c: "writer_ok c" "write_loop c \<noteq> WriteNotStarted" "submitted c = []" "state c = Active"
    "inflight_requests c \<le> max_inflight (conn_limits c)"
  shows "\<exists>ok c'. HandleFeedResult env stopping outcome feed c = Some (ok, c') \<and> after_feed ok c c'"
proof (cases "feed_closed feed")
  case True
  with Close_writer[OF c(1)] show ?thesis
    using c keep_counts[OF _ c(3,5)] by (auto simp: HandleFeedResult_def after_feed_def keep_def)
next
  case f: False
  let ?n = "batch_size (feed_requests feed)"
  consider "?n = 0" | "?n > max_inflight (conn_limits c) - inflight_requests c"
    | "0 < ?n" "?n \<le> max_inflight (conn_limits c) - inflight_requests c"
    by linarith
  then show ?thesis
  proof cases
    case 1
    then show ?thesis
      using c f keep_counts[OF keep_refl c(3,5)]
      by (auto simp: HandleFeedResult_def after_feed_def)
  next
    case 2
    obtain ok c' where rej: "ConsumeEach (reject_next env stopping
        ''server per-connection in-flight limit exceeded'') (feed_requests feed) (Some c) = (ok, Some c')"
        "writer_ok c'" "keep c c'" "\<not> ok \<longrightarrow> state c' = Closed" "write_loop c' \<noteq> WriteNotStarted"
      using reject_all_ok[OF c(1)] c(2) unfolding ConsumeEach_all_of by blast
    then show ?thesis
      using 2 f c keep_counts[OF rej(3) c(3,5)]
      by (auto simp: HandleFeedResult_def after_feed_def keep_def Let_def)
  next
    case 3
    then have "batch_list (feed_requests feed) \<noteq> []"
        "inflight_requests c + length (batch_list (feed_requests feed)) \<le> max_inflight (conn_limits c)"
      using c(5) by (auto simp: batch_size_list)
    from SubmitRequestBatch_ok[OF c(1-4) this, of env stopping outcome] 3 f c(5) show ?thesis
      by (auto simp: HandleFeedResult_def batch_collect Let_def)
  qed
qed

lemma read_finish_ok:
  assumes "writer_ok c" "state c \<noteq> Active" "write_loop c \<noteq> WriteNotStarted"
  shows "\<exists>c'. TryFinishDrain c = Some c' \<and> conn_ok (c'\<lparr>read_loop := ReadDone\<rparr>) \<and> keep c c'"
  using TryFinishDrain_writer[OF assms(1)] assms(2,3) by (fastforce simp: conn_ok_def keep_def drained_def)

lemma ReadLoop_next_ok:
  assumes "writer_ok c" "write_loop c \<noteq> WriteNotStarted"
  shows "\<exists>c'. ReadLoop_next stopping c = Some c' \<and> conn_ok c' \<and>
    keep (c\<lparr>read_loop := read_loop c'\<rparr>) c'"
proof (cases "state c = Active \<and> \<not> stopping")
  case True
  then show ?thesis
    using assms by (auto simp: ReadLoop_next_def conn_ok_def drained_def keep_def)
next
  case False
  have "\<exists>c1. (if state c = Active then Close c else Some c) = Some c1 \<and> writer_ok c1 \<and> keep c c1 \<and>
      state c1 \<noteq> Active \<and> write_loop c1 \<noteq> WriteNotStarted"
    using Close_writer[OF assms(1)] assms by fastforce
  then obtain c1 where c1: "(if state c = Active then Close c else Some c) = Some c1" "writer_ok c1"
      "keep c c1" "state c1 \<noteq> Active" "write_loop c1 \<noteq> WriteNotStarted" by blast
  from read_finish_ok[OF c1(2,4,5)] obtain c2 where
    c2: "TryFinishDrain c1 = Some c2" "conn_ok (c2\<lparr>read_loop := ReadDone\<rparr>)" "keep c1 c2" by blast
  have "ReadLoop_next stopping c = Some (c2\<lparr>read_loop := ReadDone\<rparr>)"
    using False c1(1) c2(1) by (auto simp: ReadLoop_next_def split: if_splits)
  then show ?thesis using c2(2) keep_trans[OF c1(3) c2(3)] by (auto simp: keep_def)
qed

lemma on_recv_ok:
  assumes c: "conn_ok c" "submitted c = []" "inflight_requests c \<le> max_inflight (conn_limits c)"
    "read_loop c = ReadReceiving"
  shows "\<exists>c'. on_recv env stopping outcome cap r c = Some c' \<and> conn_ok c' \<and> counts 0 c c'"
proof -
  have w: "writer_ok c" "write_loop c \<noteq> WriteNotStarted" using c(1) by (auto simp: conn_ok_def)
  have finish: "\<exists>c2. (do { c1 \<leftarrow> TryFinishDrain x; Some (c1\<lparr>read_loop := ReadDone\<rparr>) }) = Some c2 \<and>
      conn_ok c2 \<and> counts 0 c c2"
    if x: "writer_ok x" "state x \<noteq> Active" "write_loop x \<noteq> WriteNotStarted" "counts 0 c x" for x
    using read_finish_ok[OF x(1-3)] x(4) by (auto simp: keep_def counts_def)
  show ?thesis
  proof (cases "state c = Active")
    case False
    then show ?thesis
      using finish[OF w(1) False w(2) keep_counts[OF keep_refl c(2,3)]] c(4) by (simp add: on_recv_def)
  next
    case active: True
    show ?thesis
    proof (cases r)
      case RecvEof
      have "counts 0 c (c\<lparr>state := Draining\<rparr>)" using c(2,3) by (simp add: counts_def)
      from finish[OF writer_ok_drain[OF w(1) active] _ _ this] w(2) show ?thesis
        using active RecvEof c(4) by (simp add: on_recv_def)
    next
      case RecvError
      obtain c1 where c1: "Close c = Some c1" "writer_ok c1" "keep c c1" "state c1 = Closed"
          "write_loop c1 \<noteq> WriteNotStarted" using Close_writer[OF w(1)] w(2) by blast
      from finish[OF c1(2) _ c1(5) keep_counts[OF c1(3) c(2,3)]] c1(1,4) show ?thesis
        using active RecvError c(4) by (simp add: on_recv_def)
    next
      case (RecvData bs)
      obtain fs feed where feed: "FeedBytes env cap bs (conn_stream c) = Some (fs, feed)" "wf_stream fs"
          "fs_limits fs = fs_limits (conn_stream c)"
        using FeedBytes_total[of "conn_stream c" env cap bs] w(1)
        by (auto simp: writer_ok_def core_def split: write_pc.splits)
      let ?c = "c\<lparr>conn_stream := fs\<rparr>"
      have wc: "writer_ok ?c" using w(1) feed(2) by (auto simp: writer_ok_def core_def split: write_pc.splits)
      obtain ok c1 where h: "HandleFeedResult env stopping outcome feed ?c = Some (ok, c1)"
          "after_feed ok ?c c1"
        using HandleFeedResult_ok[OF wc, of env stopping outcome feed] c(2,3) w(2) active by auto
      have cnt: "counts 0 c c1" using h(2) by (auto simp: after_feed_def counts_def)
      show ?thesis
      proof (cases ok)
        case True
        with ReadLoop_next_ok[of c1 stopping] h(2) cnt show ?thesis
          using active RecvData c(4) feed(1) h(1)
          by (auto simp: on_recv_def after_feed_def counts_def keep_def)
      next
        case False
        with finish[of c1] h(2) cnt show ?thesis
          using active RecvData c(4) feed(1) h(1) by (simp add: on_recv_def after_feed_def)
      qed
    qed
  qed
qed

section \<open>Worker results and sends\<close>

lemma on_send_ok:
  assumes c: "conn_ok c" "submitted c = []" "inflight_requests c \<le> max_inflight (conn_limits c)"
    and b: "write_loop c = WriteSending batch off" "n \<le> int (length batch - off)"
  shows "\<exists>c'. on_send stopping n c = Some c' \<and> conn_ok c' \<and> counts 0 c c'"
proof -
  have w: "core (length batch) (drop off batch) c" "\<not> write_queue_waiter c" "off < length batch"
    using c(1) b(1) by (auto simp: conn_ok_def writer_ok_def)
  have rd: "read_loop c \<noteq> ReadNotStarted" "read_loop c = ReadDone \<longrightarrow> state c \<noteq> Active"
    using c(1) by (auto simp: conn_ok_def)
  have fin: "conn_ok c' \<and> counts 0 c c'"
    if "writer_ok c'" "drained c'" "keep c c'" "write_loop c' \<noteq> WriteNotStarted" for c'
    using that rd keep_counts[OF that(3) c(2,3)] by (auto simp: conn_ok_def keep_def)
  have abandon: "\<exists>c'. (do { c1 \<leftarrow> ReleaseWriteBytes (length batch) x; c2 \<leftarrow> Close c1;
      Some (c2\<lparr>write_loop := WriteDone\<rparr>) }) = Some c' \<and> conn_ok c' \<and> counts 0 c c'"
    if x: "core (length batch) r x" "state x \<noteq> Closed" "keep c x" for x r
  proof -
    obtain c1 where c1: "ReleaseWriteBytes (length batch) x = Some c1" "keep x c1" "core 0 r c1"
      using ReleaseWriteBytes_ok[OF x(1,2)] by blast
    obtain c2 where c2: "Close c1 = Some c2" "state c2 = Closed" "core 0 [] c2" "keep c1 c2"
      using Close_ok[OF c1(3)] by blast
    have "writer_ok (c2\<lparr>write_loop := WriteDone\<rparr>)" using c2 by (simp add: writer_ok_def core_def)
    moreover have "keep c (c2\<lparr>write_loop := WriteDone\<rparr>)"
      using keep_trans[OF keep_trans[OF x(3) c1(2)] c2(4)] by (simp add: keep_def)
    ultimately show ?thesis using fin c1(1) c2(1,2) by simp
  qed
  show ?thesis
  proof (cases "state c = Closed")
    case True
    have "writer_ok (c\<lparr>write_loop := WriteDone\<rparr>)"
      using w True core_closed[OF True, of "length batch" "drop off batch"] by (simp add: writer_ok_def)
    then show ?thesis
      using True b(1) fin[of "c\<lparr>write_loop := WriteDone\<rparr>"] by (simp add: on_send_def keep_def)
  next
    case live: False
    show ?thesis
    proof (cases "n \<le> 0")
      case True
      then show ?thesis using abandon[OF w(1) live keep_refl] live b(1) by (simp add: on_send_def)
    next
      case False
      let ?c0 = "c\<lparr>sent_bytes := sent_bytes c @ take (nat n) (drop off batch)\<rparr>"
      have split: "take (nat n) (drop off batch) @ drop (off + nat n) batch @ xs = drop off batch @ xs" for xs
        using append_take_drop_id[of "nat n" "drop off batch"]
        by (metis add.commute append_assoc drop_drop)
      have core0: "core (length batch) (drop (off + nat n) batch) ?c0"
        using w(1) live by (auto simp: core_def split)
      show ?thesis
      proof (cases "off + nat n < length batch")
        case True
        have "writer_ok (?c0\<lparr>write_loop := WriteSending batch (off + nat n)\<rparr>)"
          using core0 w(2) True by (simp add: writer_ok_def)
        moreover have "drained (?c0\<lparr>write_loop := WriteSending batch (off + nat n)\<rparr>)"
          using c(1) by (simp add: conn_ok_def drained_def)
        ultimately show ?thesis
          using fin[of "?c0\<lparr>write_loop := WriteSending batch (off + nat n)\<rparr>"]
            abandon[OF core0] live b(1) False True
          by (simp add: on_send_def keep_def Let_def)
      next
        case all: False
        then have "core (length batch) [] ?c0" using core0 b(2) False by simp
        from ReleaseWriteBytes_ok[OF this] live obtain c1 where
          c1: "ReleaseWriteBytes (length batch) ?c0 = Some c1" "keep ?c0 c1" "core 0 [] c1"
            "\<not> write_queue_waiter c1" using w(2) by auto
        from WriteLoop_ok[OF c1(3,4), of stopping] obtain c2 where
          c2: "WriteLoop stopping c1 = Some c2" "writer_ok c2" "keep c1 c2" "drained c2"
            "write_loop c2 \<noteq> WriteNotStarted" by blast
        have "keep c c2" using keep_trans[OF c1(2) c2(3)] by (simp add: keep_def)
        then show ?thesis
          using fin[of c2] c1(1) c2 live b(1) False all by (simp add: on_send_def Let_def)
      qed
    qed
  qed
qed

text \<open>An allocation failure after the reservation: closing releases the reserved bytes.\<close>

lemma oom_ok:
  assumes c: "writer_ok c" "state c \<noteq> Closed" "write_loop c \<noteq> WriteNotStarted"
  shows "\<exists>c'. (do { (_, x) \<leftarrow> TryReserveWriteBytes n c; Close x }) = Some c' \<and> writer_ok c' \<and>
    keep c c' \<and> write_loop c' \<noteq> WriteNotStarted"
proof -
  obtain k rem where core: "core k rem c" using writer_core[OF c(1)] by blast
  show ?thesis
  proof (cases "n \<le> max_write_queue_bytes (conn_limits c) - pending_write_bytes c")
    case True
    have "core (k + n) rem (reserved_conn n c)"
      using core c(2) True by (auto simp: core_def reserved_conn_def)
    from Close_eq[OF this] closed_conn_core[OF this, of 0 "[]"]
    have "Close (reserved_conn n c) = Some (closed_conn (reserved_conn n c))"
      "core a b (closed_conn (reserved_conn n c))" for a b
      using c(2) closed_conn_core[OF \<open>core (k + n) rem (reserved_conn n c)\<close>] by auto
    moreover from this have "writer_ok (closed_conn (reserved_conn n c))"
      using c(1) by (auto simp: writer_ok_def split: write_pc.splits)
    moreover have "keep c (closed_conn (reserved_conn n c))"
      using keep_trans[OF reserved_conn_simps(6) closed_conn_simps(8)] .
    ultimately show ?thesis
      using TryReserveWriteBytes_eq[OF core True] c(3) by auto
  next
    case False
    obtain c1 where c1: "Close c = Some c1" "writer_ok c1" "keep c c1" "state c1 = Closed"
        "write_loop c1 \<noteq> WriteNotStarted" using Close_writer[OF c(1)] c(3) by blast
    have "Close c1 = Some c1" using c1(4) by (simp add: Close_def)
    moreover have "TryReserveWriteBytes n c = Some (False, c1)"
      using False core c1(1) by (simp add: TryReserveWriteBytes_def core_def)
    ultimately show ?thesis using c1 by simp
  qed
qed

definition result_ok :: "worker_result \<Rightarrow> bool" where
  "result_ok r \<longleftrightarrow> (\<not> encode_failed r \<longrightarrow> response_bytes r \<noteq> [])"

lemma handle_result_ok:
  assumes c: "conn_ok c" "submitted c = []" "inflight_requests c \<le> max_inflight (conn_limits c)"
    and r: "result_ok r" "released_requests r \<le> inflight_requests c"
  shows "\<exists>c'. handle_result stopping oom r c = Some c' \<and> conn_ok c' \<and> counts (released_requests r) c c'"
proof -
  let ?n = "released_requests r"
  let ?c = "c\<lparr>inflight_requests := inflight_requests c - ?n\<rparr>"
  have rel: "ReleaseInflightRequests ?n c = Some ?c" using r(2) by (simp add: ReleaseInflightRequests_def)
  have w: "writer_ok ?c" "write_loop ?c \<noteq> WriteNotStarted" "read_loop c \<noteq> ReadNotStarted"
      "read_loop c = ReadDone \<longrightarrow> state c \<noteq> Active"
    using c(1) by (auto simp: conn_ok_def)
  have fin: "conn_ok c' \<and> counts ?n c c'"
    if "writer_ok c'" "drained c'" "keep ?c c'" "write_loop c' \<noteq> WriteNotStarted" for c'
    using that w c r(2) by (auto simp: conn_ok_def keep_def counts_def)
  have close: "\<exists>c'. Close x = Some c' \<and> conn_ok c' \<and> counts ?n c c' \<and> writer_ok c' \<and> keep ?c c' \<and>
      state c' = Closed \<and> write_loop c' \<noteq> WriteNotStarted"
    if "writer_ok x" "keep ?c x" "write_loop x \<noteq> WriteNotStarted" for x
    using Close_writer[OF that(1)] fin keep_trans[OF that(2)] that(3) by fastforce
  show ?thesis
  proof (cases "encode_failed r")
    case True
    then show ?thesis
      using close[OF w(1) keep_refl w(2)] rel by (auto simp: handle_result_def OnResponseEncodeFailure_def)
  next
    case ok: False
    then have ne: "response_bytes r \<noteq> []" using r(1) by (simp add: result_ok_def)
    show ?thesis
    proof (cases "state c = Closed")
      case True
      then show ?thesis
        using fin[OF w(1) _ keep_refl w(2)] rel ok
        by (simp add: handle_result_def OnResponsesEncoded_def)
    next
      case live: False
      have "\<exists>c2. (if oom
            then do { (_, c') \<leftarrow> TryReserveWriteBytes (length (response_bytes r)) ?c; Close c' }
            else do { (_, c') \<leftarrow> EnqueueWrite stopping (response_bytes r) ?c; Some c' }) = Some c2 \<and>
          writer_ok c2 \<and> keep ?c c2 \<and> write_loop c2 \<noteq> WriteNotStarted"
      proof (cases oom)
        case False
        then show ?thesis using EnqueueWrite_ok[OF w(1) ne, of stopping] w(2) by auto
      next
        case True
        then show ?thesis using oom_ok[OF w(1) _ w(2)] live by auto
      qed
      then obtain c2 where c2: "(if oom
            then do { (_, c') \<leftarrow> TryReserveWriteBytes (length (response_bytes r)) ?c; Close c' }
            else do { (_, c') \<leftarrow> EnqueueWrite stopping (response_bytes r) ?c; Some c' }) = Some c2"
          "writer_ok c2" "keep ?c c2" "write_loop c2 \<noteq> WriteNotStarted" by blast
      from TryFinishDrain_writer[OF c2(2)] c2(4) obtain c3 where
        c3: "TryFinishDrain c2 = Some c3" "writer_ok c3" "keep c2 c3" "drained c3"
          "write_loop c3 \<noteq> WriteNotStarted" by blast
      from fin[OF c3(2,4) keep_trans[OF c2(3) c3(3)] c3(5)] show ?thesis
        using rel ok live c2(1) c3(1) by (simp add: handle_result_def OnResponsesEncoded_def)
    qed
  qed
qed

section \<open>Reachable connections\<close>

definition conn_sys_ok :: "backpressure_limits \<Rightarrow> conn_system \<Rightarrow> bool" where
  "conn_sys_ok lims s \<longleftrightarrow> conn_limits (conn s) = lims \<and> conn_ok (conn s) \<and> submitted (conn s) = [] \<and> \<not> assertion_failed s \<and>
    inflight_requests (conn s) =
      list_total length (conn_jobs s) + list_total released_requests (conn_results s) \<and>
    inflight_requests (conn s) \<le> max_inflight lims \<and>
    (\<forall>r\<in>set (conn_results s). result_ok r)"

lemma encode_batch_count:
  "encode_batch dispatch encode rs = (bs, n) \<Longrightarrow> n \<le> length rs"
  by (induction rs arbitrary: bs n) (auto split: status_or.splits prod.splits)

lemma encode_batch_nonempty:
  assumes "encode_batch dispatch (Encode_response env plimits) rs = (bs, n)" "0 < n"
  shows "bs \<noteq> []"
  using assms frame_nonempty
  by (cases rs) (auto simp: HEADER_SIZE_def split: status_or.splits prod.splits, fastforce)

lemma ExecuteRequestBatchOnWorker_ok:
  "list_total released_requests (ExecuteRequestBatchOnWorker env registry plimits i rs) = length rs"
  "r \<in> set (ExecuteRequestBatchOnWorker env registry plimits i rs) \<Longrightarrow> result_ok r"
proof -
  obtain bs n where e: "encode_batch (Dispatch registry) (Encode_response env plimits) rs = (bs, n)"
    by fastforce
  show "list_total released_requests (ExecuteRequestBatchOnWorker env registry plimits i rs) = length rs"
    using encode_batch_count[OF e] by (simp add: ExecuteRequestBatchOnWorker_def e)
  show "r \<in> set (ExecuteRequestBatchOnWorker env registry plimits i rs) \<Longrightarrow> result_ok r"
    using encode_batch_nonempty[OF e]
    by (auto simp: ExecuteRequestBatchOnWorker_def e result_ok_def split: if_splits)
qed

lemma list_total_remove:
  assumes "k < length xs"
  shows "list_total f (take k xs @ drop (Suc k) xs) + f (xs ! k) = list_total f xs"
proof -
  have "list_total f xs = list_total f (take k xs @ xs ! k # drop (Suc k) xs)"
    using id_take_nth_drop[OF assms] by simp
  then show ?thesis by (simp add: ac_simps)
qed

lemma apply_op_ok:
  assumes op: "\<exists>c'. f (conn s) = Some c' \<and> conn_ok c' \<and> counts n (conn s) c'"
    and s: "conn_limits (conn s) = lims" "\<not> assertion_failed s" "\<forall>r\<in>set (conn_results s). result_ok r"
      "inflight_requests (conn s) =
        list_total length (conn_jobs s) + list_total released_requests (conn_results s) + n"
  shows "conn_sys_ok lims (apply_op f s)"
proof -
  obtain c' where c': "f (conn s) = Some c'" "conn_ok c'" "counts n (conn s) c'" using op by blast
  have "conn_ok (c'\<lparr>submitted := []\<rparr>)" using c'(2) by (simp add: conn_ok_def drained_def)
  then show ?thesis using c' s by (auto simp: apply_op_def conn_sys_ok_def counts_def)
qed

lemma conn_sys_step:
  assumes step: "conn_step env registry i s s'" and ok: "conn_sys_ok lims s"
  shows "conn_sys_ok lims s'"
  using step
proof cases
  case (recv_done stopping outcome cap r)
  from on_recv_ok[OF _ _ _ recv_done(2)] ok show ?thesis
    unfolding recv_done(1) by (intro apply_op_ok[where n = 0]) (auto simp: conn_sys_ok_def)
next
  case (send_done batch off n stopping)
  from on_send_ok[OF _ _ _ send_done(2,3)] ok show ?thesis
    unfolding send_done(1) by (intro apply_op_ok[where n = 0]) (auto simp: conn_sys_ok_def)
next
  case (job_done k)
  have "list_total length (take k (conn_jobs s) @ drop (Suc k) (conn_jobs s)) + length (conn_jobs s ! k) =
      list_total length (conn_jobs s)"
    by (rule list_total_remove[OF job_done(2)])
  then show ?thesis
    using ok ExecuteRequestBatchOnWorker_ok unfolding job_done(1) by (auto simp: conn_sys_ok_def)
next
  case (result_handled k stopping oom)
  let ?r = "conn_results s ! k"
  have rem: "list_total released_requests (take k (conn_results s) @ drop (Suc k) (conn_results s)) +
      released_requests ?r = list_total released_requests (conn_results s)"
    by (rule list_total_remove[OF result_handled(2)])
  have sub: "set (take k (conn_results s) @ drop (Suc k) (conn_results s)) \<subseteq> set (conn_results s)"
    using set_take_subset set_drop_subset by fastforce
  have "result_ok ?r" "released_requests ?r \<le> inflight_requests (conn s)"
    using ok result_handled(2) rem by (auto simp: conn_sys_ok_def)
  then have "\<exists>c'. handle_result stopping oom ?r (conn s) = Some c' \<and> conn_ok c' \<and>
      counts (released_requests ?r) (conn s) c'"
    using handle_result_ok ok by (simp add: conn_sys_ok_def)
  then show ?thesis
    using ok rem sub unfolding result_handled(1)
    by (intro apply_op_ok[where n = "released_requests ?r"]) (auto simp: conn_sys_ok_def)
next
  case drain_begun
  have "\<exists>c'. Conn_BeginDrain (conn s) = Some c' \<and> conn_ok c' \<and> counts 0 (conn s) c'"
    using BeginDrain_writer[of "conn s"] ok
    by (auto simp: conn_sys_ok_def conn_ok_def keep_def counts_def)
  then show ?thesis
    using ok unfolding drain_begun(1) by (intro apply_op_ok[where n = 0]) (auto simp: conn_sys_ok_def)
next
  case closed_by_loop
  have "\<exists>c'. Close (conn s) = Some c' \<and> conn_ok c' \<and> counts 0 (conn s) c'"
    using Close_writer[of "conn s"] ok
    by (auto simp: conn_sys_ok_def conn_ok_def keep_def counts_def)
  then show ?thesis
    using ok unfolding closed_by_loop(1) by (intro apply_op_ok[where n = 0]) (auto simp: conn_sys_ok_def)
next
  case (others_write acc)
  have "writer_ok ((conn s)\<lparr>owner_loop := acc\<rparr>)"
    using ok others_write(2)
    by (auto simp: conn_sys_ok_def conn_ok_def writer_ok_def core_def split: write_pc.splits)
  moreover have "conn_ok (conn s)" using ok by (simp add: conn_sys_ok_def)
  ultimately have "conn_ok ((conn s)\<lparr>owner_loop := acc\<rparr>)" by (simp add: conn_ok_def drained_def)
  then show ?thesis using ok unfolding others_write(1) by (simp add: conn_sys_ok_def)
qed

lemma Conn_Start_ok:
  "\<exists>c'. Conn_Start stopping (ServerConnection lims plimits acc) = Some c' \<and> conn_ok c' \<and>
     counts 0 (ServerConnection lims plimits acc) c'"
proof -
  let ?c = "ServerConnection lims plimits acc"
  let ?w = "?c\<lparr>write_queue_waiter := True, write_loop := WriteWaiting\<rparr>"
  have "WriteLoop_start stopping ?c = Some ?w" by (simp add: WriteLoop_start_def ServerConnection_def)
  moreover have "writer_ok ?w" "write_loop ?w \<noteq> WriteNotStarted"
    by (simp_all add: writer_ok_def core_def ServerConnection_def)
  ultimately show ?thesis
    using ReadLoop_next_ok[of ?w stopping]
    by (auto simp: Conn_Start_def keep_def counts_def ServerConnection_def)
qed

lemma conn_reach_ok: "conn_reach env registry i lims plimits s \<Longrightarrow> conn_sys_ok lims s"
proof (induction rule: conn_reach.induct)
  case (conn_started stopping acc)
  show ?case
    using Conn_Start_ok by (intro apply_op_ok[where n = 0]) (auto simp: ServerConnection_def)
next
  case (conn_next s s')
  then show ?case by (blast intro: conn_sys_step)
qed

lemma draining_work:
  assumes "conn_sys_ok lims s" "state (conn s) = Draining"
  shows "conn_jobs s \<noteq> [] \<or> conn_results s \<noteq> [] \<or>
    (\<exists>batch off. write_loop (conn s) = WriteSending batch off \<and> off < length batch)"
proof -
  have ok: "conn_ok (conn s)" "inflight_requests (conn s) =
      list_total length (conn_jobs s) + list_total released_requests (conn_results s)"
    using assms(1) by (auto simp: conn_sys_ok_def)
  have "\<exists>batch off. write_loop (conn s) = WriteSending batch off \<and> off < length batch"
    if "pending_write_bytes (conn s) \<noteq> 0"
    using ok(1) that assms(2) by (auto simp: conn_ok_def writer_ok_def core_def split: write_pc.splits)
  then show ?thesis
    using ok assms(2) by (cases "conn_jobs s"; cases "conn_results s") (auto simp: conn_ok_def drained_def)
qed

section \<open>A run of a connection\<close>

datatype conn_action = DoRecv submit_outcome recv_result | DoSend int | DoJob nat | DoResult nat

definition conn_enabled :: "conn_action \<Rightarrow> conn_system \<Rightarrow> bool" where
  "conn_enabled a s =
    (case a of
       DoRecv outcome r \<Rightarrow> read_loop (conn s) = ReadReceiving
     | DoSend n \<Rightarrow> (case write_loop (conn s) of
         WriteSending batch off \<Rightarrow> n \<le> int (length batch - off) | _ \<Rightarrow> False)
     | DoJob k \<Rightarrow> k < length (conn_jobs s)
     | DoResult k \<Rightarrow> k < length (conn_results s))"

definition conn_act ::
  "codec_env \<Rightarrow> service_registry \<Rightarrow> u64 \<Rightarrow> conn_action \<Rightarrow> conn_system \<Rightarrow> conn_system" where
  "conn_act env registry i a s =
    (case a of
       DoRecv outcome r \<Rightarrow> apply_op (on_recv env False outcome 64 r) s
     | DoSend n \<Rightarrow> apply_op (on_send False n) s
     | DoJob k \<Rightarrow> s\<lparr>conn_jobs := take k (conn_jobs s) @ drop (Suc k) (conn_jobs s),
         conn_results := conn_results s @
           ExecuteRequestBatchOnWorker env registry (conn_protocol (conn s)) i (conn_jobs s ! k)\<rparr>
     | DoResult k \<Rightarrow> apply_op (handle_result False False (conn_results s ! k))
         (s\<lparr>conn_results := take k (conn_results s) @ drop (Suc k) (conn_results s)\<rparr>))"

fun conn_run ::
  "codec_env \<Rightarrow> service_registry \<Rightarrow> u64 \<Rightarrow> conn_action list \<Rightarrow> conn_system \<Rightarrow> conn_system option" where
  "conn_run env registry i [] s = Some s"
| "conn_run env registry i (a # as) s =
    (if conn_enabled a s then conn_run env registry i as (conn_act env registry i a s) else None)"

lemma conn_run_reach:
  "conn_run env registry i as s = Some s' \<Longrightarrow> conn_reach env registry i lims plimits s \<Longrightarrow>
     conn_reach env registry i lims plimits s'"
proof (induction as arbitrary: s)
  case (Cons a as)
  then have en: "conn_enabled a s" by (auto split: if_splits)
  then have "conn_step env registry i s (conn_act env registry i a s)"
    by (cases a) (auto simp: conn_enabled_def conn_act_def split: write_pc.splits
        intro: conn_step.intros)
  then show ?case using Cons by (auto split: if_splits intro: conn_next)
qed simp

definition demo_start :: conn_system where
  "demo_start = apply_op (Conn_Start False)
     \<lparr>conn = ServerConnection \<lparr>max_inflight = 2, max_write_queue_bytes = 100\<rparr> demo_limits
        \<lparr>loop_pending_write_bytes = 0, loop_pending_write_bytes_peak = 0, live_connections = 1\<rparr>,
      conn_jobs = [], conn_results = [], assertion_failed = False\<rparr>"

text \<open>A request arrives and is executed, the first five bytes of its response are sent, and the
  peer shuts down its sending side.\<close>

definition demo_conn_actions :: "conn_action list" where
  "demo_conn_actions = [DoRecv Accepted (RecvData
       (the_value (Encode_request demo_env demo_limits demo_request))),
     DoJob 0, DoResult 0, DoSend 5, DoRecv Accepted RecvEof]"

lemma demo_feed:
  "\<exists>fs r. FeedBytes demo_env 64 (the_value (Encode_request demo_env demo_limits demo_request))
     (new_stream demo_limits) = Some (fs, r) \<and> fs_limits fs = demo_limits \<and> \<not> feed_closed r \<and>
     batch_list (feed_requests r) = [demo_request]"
proof -
  obtain f where f: "Encode_request demo_env demo_limits demo_request = Value f"
    using demo_ok(4) by blast
  have "decode_all (request_step demo_env demo_limits) [] = ([], [], False)"
    by (simp add: request_frames.decode_all_More request_step_laws(1))
  then have "decode_all (request_step demo_env demo_limits) f = ([demo_request], [], False)"
    using encoded_stream_decodes[of demo_env demo_limits "[demo_request]" "[f]" "[]"] f demo_ok(1,3)
    by simp
  then show ?thesis
    using FeedBytes_refines[of "new_stream demo_limits" demo_env f "[demo_request]" "[]" False 64] f
    by auto
qed

lemma demo_encoded:
  "\<exists>g. Encode_response demo_env demo_limits (Dispatch Map.empty demo_request) = Value g \<and> length g = 40"
  by (simp add: Encode_response_Value EncodeResponseMetadata_def frame_fits_def Dispatch_def
      error_response_def demo_env_def demo_request_def demo_limits_def
      DEFAULT_MAX_METADATA_SIZE_def HEADER_SIZE_def Let_def)

lemmas conn_run_defs = conn_enabled_def conn_act_def apply_op_def Conn_Start_def
  WriteLoop_start_def ReadLoop_next_def ServerConnection_def on_recv_def HandleFeedResult_def
  SubmitRequestBatch_def ExecuteRequestBatchOnWorker_def handle_result_def OnResponsesEncoded_def
  ReleaseInflightRequests_def EnqueueWrite_def TryReserveWriteBytes_def RecordWriteBytesChange_def
  WakeWriteLoop_def WriteLoop.simps TakeWriteBatch_def on_send_def TryFinishDrain_def

lemma demo_conn_run:
  "\<exists>s. conn_run demo_env Map.empty 1 demo_conn_actions demo_start = Some s \<and>
     state (conn s) = Draining \<and> length (sent_bytes (conn s)) = 5 \<and> conn_jobs s = [] \<and>
     conn_results s = []"
proof -
  obtain fs r where feed: "FeedBytes demo_env 64
        (the_value (Encode_request demo_env demo_limits demo_request)) (new_stream demo_limits) =
        Some (fs, r)"
      "fs_limits fs = demo_limits" "\<not> feed_closed r" "batch_list (feed_requests r) = [demo_request]"
    using demo_feed by blast
  obtain g where g: "Encode_response demo_env demo_limits (Dispatch Map.empty demo_request) = Value g"
      "length g = 40" using demo_encoded by blast
  have "g \<noteq> []" using g(2) by auto
  then show ?thesis
    using feed g by (simp add: demo_conn_actions_def demo_start_def conn_run_defs batch_size_list
        batch_collect Let_def)
qed

lemma demo_conn_reach:
  "\<exists>s. conn_reach demo_env Map.empty 1 \<lparr>max_inflight = 2, max_write_queue_bytes = 100\<rparr> demo_limits s \<and>
     state (conn s) = Draining \<and> length (sent_bytes (conn s)) = 5 \<and> conn_jobs s = [] \<and>
     conn_results s = []"
proof -
  have "conn_reach demo_env Map.empty 1 \<lparr>max_inflight = 2, max_write_queue_bytes = 100\<rparr> demo_limits
      demo_start"
    unfolding demo_start_def by (rule conn_started)
  then show ?thesis using demo_conn_run conn_run_reach by blast
qed

section \<open>Properties\<close>



text \<open>C26. Responses leave in order and intact: what the kernel has taken so far is a prefix of the
  bytes queued for writing, in queueing order, and while the connection is open the rest of the
  current batch followed by the queue is exactly what is missing.\<close>

theorem connection_write_order:
  assumes "conn_reach env registry i lims plimits s"
  shows "\<exists>rest. queued_bytes (conn s) = sent_bytes (conn s) @ rest \<and>
    (state (conn s) = Closed \<or>
     rest = (case write_loop (conn s) of WriteSending batch off \<Rightarrow> drop off batch | _ \<Rightarrow> []) @
       concat (write_queue (conn s)))"
  using conn_reach_ok[OF assms]
  by (auto simp: conn_sys_ok_def conn_ok_def writer_ok_def core_def split: write_pc.splits)

theorem connection_write_order_witness:
  "\<exists>s rest. conn_reach demo_env Map.empty 1 \<lparr>max_inflight = 2, max_write_queue_bytes = 100\<rparr>
       demo_limits s \<and> length (sent_bytes (conn s)) = 5 \<and> queued_bytes (conn s) = sent_bytes (conn s) @ rest"
  using demo_conn_reach connection_write_order by blast

text \<open>C12. A draining connection is never stuck: requests are with the workers, results are waiting
  to be handled, or a send is in progress; and a connection whose read loop has returned is
  draining or closed.\<close>

theorem draining_has_work:
  assumes "conn_reach env registry i lims plimits s"
  shows "(state (conn s) = Draining \<longrightarrow>
      conn_jobs s \<noteq> [] \<or> conn_results s \<noteq> [] \<or>
      (\<exists>batch off. write_loop (conn s) = WriteSending batch off \<and> off < length batch)) \<and>
    (read_loop (conn s) = ReadDone \<longrightarrow> state (conn s) \<noteq> Active)"
  using draining_work[OF conn_reach_ok[OF assms]] conn_reach_ok[OF assms]
  by (auto simp: conn_sys_ok_def conn_ok_def)

theorem draining_has_work_witness:
  "\<exists>s batch off. conn_reach demo_env Map.empty 1 \<lparr>max_inflight = 2, max_write_queue_bytes = 100\<rparr>
       demo_limits s \<and> state (conn s) = Draining \<and>
     write_loop (conn s) = WriteSending batch off \<and> off < length batch"
  using demo_conn_reach draining_has_work by blast

end
