(* ===== verification/Socket.thy ===== *)
theory Socket
  imports Status "HOL-Library.Monad_Syntax" "HOL-Library.Multiset"
begin

text \<open>
  \<^verbatim>\<open>src/io/socket.cpp\<close>: the blocking socket wrapper. The kernel is a script of system call results,
  taken in order, and a trace of the calls made; an operation that asks for more results than the
  script has is still blocked, which is \<open>None\<close>. A socket object is its descriptor, \<open>-1\<close> when it
  has none. The address parser \<^verbatim>\<open>inet_pton\<close> and the error texts of \<^verbatim>\<open>std::generic_category\<close> are
  the parameters \<open>net_env\<close>.
\<close>

section \<open>The kernel interface\<close>

record net_env =
  inet_pton :: "string \<Rightarrow> u32 option"
  error_text :: "int \<Rightarrow> string"

type_synonym sockaddr_in = "u32 \<times> u16"
type_synonym timeval = "int \<times> int"

datatype 'b syscall =
    SysSocket
  | SysReuseAddr int
  | SysBind int sockaddr_in
  | SysListen int int
  | SysAccept int
  | SysConnect int sockaddr_in
  | SysGetFlags int
  | SysSetFlags int int
  | SysPoll int int
  | SysSocketError int
  | SysGetSockName int
  | SysRecv int nat
  | SysSend int "'b list"
  | SysRecvTimeout int timeval
  | SysSendTimeout int timeval
  | SysShutdownWrite int
  | SysShutdownBoth int
  | SysClose int

text \<open>The return value, \<^verbatim>\<open>errno\<close> when it is negative, the bytes a receive stored, and the other
  out-parameter: the port of \<^verbatim>\<open>getsockname\<close> or the error of \<^verbatim>\<open>SO_ERROR\<close>.\<close>

record 'b sysret =
  ret :: int
  errno :: int
  received_bytes :: "'b list"
  out_param :: int

record 'b kernel =
  script :: "'b sysret list"
  trace :: "('b syscall \<times> 'b sysret) list"

definition syscall :: "'b syscall \<Rightarrow> 'b kernel \<Rightarrow> ('b sysret \<times> 'b kernel) option" where
  "syscall c k =
    (case script k of
       [] \<Rightarrow> None
     | r # rs \<Rightarrow> Some (r, k\<lparr>script := rs, trace := trace k @ [(c, r)]\<rparr>))"

text \<open>The Linux values.\<close>

definition EINTR :: int where "EINTR = 4"
definition EAGAIN :: int where "EAGAIN = 11"
definition EALREADY :: int where "EALREADY = 114"
definition EINPROGRESS :: int where "EINPROGRESS = 115"
definition O_NONBLOCK :: int where "O_NONBLOCK = 2048"

section \<open>Errors\<close>

datatype socket_error_code =
    InvalidAddress
  | CreateFailed
  | BindFailed
  | ListenFailed
  | AcceptFailed
  | ConnectFailed
  | ConnectTimeout
  | ReadFailed
  | ReadTimeout
  | WriteFailed
  | WriteTimeout
  | ConfigureFailed
  | ShutdownFailed
  | PeerClosed

fun ToStatusCode :: "socket_error_code \<Rightarrow> status_code" where
  "ToStatusCode ConnectTimeout = DeadlineExceeded"
| "ToStatusCode ReadTimeout = DeadlineExceeded"
| "ToStatusCode WriteTimeout = DeadlineExceeded"
| "ToStatusCode InvalidAddress = InvalidArgument"
| "ToStatusCode _ = Unavailable"

definition MakeSystemErrorMessage :: "net_env \<Rightarrow> string \<Rightarrow> int \<Rightarrow> string" where
  "MakeSystemErrorMessage net action e =
    action @ '' failed'' @ (if e \<noteq> 0 then '': '' @ error_text net e else [])"

definition MakeSocketStatus :: "net_env \<Rightarrow> socket_error_code \<Rightarrow> string \<Rightarrow> int \<Rightarrow> status" where
  "MakeSocketStatus net code action e = Status (ToStatusCode code) (MakeSystemErrorMessage net action e)"

section \<open>Operations\<close>

definition valid :: "int \<Rightarrow> bool" where
  "valid fd \<longleftrightarrow> 0 \<le> fd"

definition CreateSocket :: "net_env \<Rightarrow> 'b kernel \<Rightarrow> (int status_or \<times> 'b kernel) option" where
  "CreateSocket net k = do {
     (r, k) \<leftarrow> syscall SysSocket k;
     Some (if ret r < 0 then Error (MakeSocketStatus net CreateFailed ''socket'' (errno r))
           else Value (ret r), k)
   }"

text \<open>A positive number of milliseconds never gives the zero \<^verbatim>\<open>timeval\<close> that would mean no
  timeout; the last branch of the code is not reachable.\<close>

definition ToTimeval :: "int \<Rightarrow> timeval" where
  "ToTimeval timeout =
    (if timeout \<le> 0 then (0, 0)
     else let seconds = timeout div 1000; micros = (timeout - seconds * 1000) * 1000
       in if seconds = 0 \<and> micros = 0 then (seconds, 1) else (seconds, micros))"

text \<open>The host goes through \<^verbatim>\<open>c_str()\<close> and so ends at the first null character.\<close>

definition ToAddress :: "net_env \<Rightarrow> string \<Rightarrow> u16 \<Rightarrow> sockaddr_in status_or" where
  "ToAddress net host port =
    (case inet_pton net (takeWhile (\<lambda>c. c \<noteq> CHR 0x00) host) of
       None \<Rightarrow> Error (Status InvalidArgument ''invalid host address'')
     | Some a \<Rightarrow> Value (a, port))"

definition RestoreSocketFlags :: "net_env \<Rightarrow> int \<Rightarrow> int \<Rightarrow> 'b kernel \<Rightarrow> (status \<times> 'b kernel) option" where
  "RestoreSocketFlags net fd fl k = do {
     (r, k) \<leftarrow> syscall (SysSetFlags fd fl) k;
     Some (if ret r < 0 then MakeSocketStatus net ConfigureFailed ''fcntl(F_SETFL)'' (errno r)
           else status_Ok, k)
   }"

definition Socket_Close :: "int \<Rightarrow> 'b kernel \<Rightarrow> (int \<times> 'b kernel) option" where
  "Socket_Close fd k =
    (if fd \<ge> 0 then do { (r, k) \<leftarrow> syscall (SysClose fd) k; Some (- 1, k) } else Some (fd, k))"

text \<open>Closing and reporting; most failures end this way.\<close>

definition close_with :: "status \<Rightarrow> int \<Rightarrow> 'b kernel \<Rightarrow> (status \<times> int \<times> 'b kernel) option" where
  "close_with st fd k = do { (fd, k) \<leftarrow> Socket_Close fd k; Some (st, fd, k) }"

text \<open>\<^verbatim>\<open>operator=(Socket &&)\<close> between different objects: the own descriptor is closed, the other
  one's moves here.\<close>

definition Socket_assign :: "int \<Rightarrow> int \<Rightarrow> 'b kernel \<Rightarrow> (int \<times> int \<times> 'b kernel) option" where
  "Socket_assign fd other k = do { (_, k) \<leftarrow> Socket_Close fd k; Some (other, - 1, k) }"

definition LocalPort :: "net_env \<Rightarrow> int \<Rightarrow> 'b kernel \<Rightarrow> (u16 status_or \<times> 'b kernel) option" where
  "LocalPort net fd k =
    (if \<not> valid fd then
       Some (Error (Status FailedPrecondition ''Socket::LocalPort requires a valid socket''), k)
     else do {
       (r, k) \<leftarrow> syscall (SysGetSockName fd) k;
       Some (if ret r < 0 then Error (MakeSocketStatus net ConfigureFailed ''getsockname'' (errno r))
             else Value (of_int (out_param r)), k)
     })"

definition Bind :: "net_env \<Rightarrow> string \<Rightarrow> u16 \<Rightarrow> int \<Rightarrow> 'b kernel \<Rightarrow> (status \<times> int \<times> 'b kernel) option" where
  "Bind net host port fd k = do {
     (created, k) \<leftarrow> (if \<not> valid fd then CreateSocket net k else Some (Value fd, k));
     case created of
       Error st \<Rightarrow> Some (st, fd, k)
     | Value fd \<Rightarrow> do {
         (_, k) \<leftarrow> syscall (SysReuseAddr fd) k;
         case ToAddress net host port of
           Error st \<Rightarrow> close_with st fd k
         | Value addr \<Rightarrow> do {
             (r, k) \<leftarrow> syscall (SysBind fd addr) k;
             if ret r < 0 then close_with (MakeSocketStatus net BindFailed ''bind'' (errno r)) fd k
             else Some (status_Ok, fd, k)
           }
       }
   }"

definition Socket_Listen :: "net_env \<Rightarrow> int \<Rightarrow> int \<Rightarrow> 'b kernel \<Rightarrow> (status \<times> int \<times> 'b kernel) option" where
  "Socket_Listen net backlog fd k =
    (if \<not> valid fd then
       Some (Status FailedPrecondition ''Socket::Listen requires a valid socket'', fd, k)
     else do {
       (r, k) \<leftarrow> syscall (SysListen fd backlog) k;
       if ret r < 0 then close_with (MakeSocketStatus net ListenFailed ''listen'' (errno r)) fd k
       else Some (status_Ok, fd, k)
     })"

text \<open>The loops retry after \<^verbatim>\<open>EINTR\<close>; each turn takes a result from the script.\<close>

lemma syscall_script: "syscall c k = Some (r, k') \<Longrightarrow> length (script k) = Suc (length (script k'))"
  by (auto simp: syscall_def split: list.splits)

function retry :: "'b syscall \<Rightarrow> 'b kernel \<Rightarrow> ('b sysret \<times> 'b kernel) option" where
  "retry c k =
    (case syscall c k of
       None \<Rightarrow> None
     | Some (r, k') \<Rightarrow> if ret r < 0 \<and> errno r = EINTR then retry c k' else Some (r, k'))"
  by pat_completeness auto
termination by (relation "measure (\<lambda>(c, k). length (script k))") (auto dest: syscall_script)

declare retry.simps [simp del]

definition Accept :: "net_env \<Rightarrow> int \<Rightarrow> 'b kernel \<Rightarrow> (int status_or \<times> 'b kernel) option" where
  "Accept net fd k =
    (if \<not> valid fd then
       Some (Error (Status FailedPrecondition ''Socket::Accept requires a valid socket''), k)
     else do {
       (r, k) \<leftarrow> retry (SysAccept fd) k;
       Some (if ret r \<ge> 0 then Value (ret r)
             else Error (MakeSocketStatus net AcceptFailed ''accept'' (errno r)), k)
     })"

text \<open>The timed connect, from line 230 on.\<close>

function connect_loop ::
  "net_env \<Rightarrow> int \<Rightarrow> sockaddr_in \<Rightarrow> int \<Rightarrow> int \<Rightarrow> 'b kernel \<Rightarrow> (status \<times> int \<times> 'b kernel) option" where
  "connect_loop net timeout addr fl fd k =
    (case syscall (SysConnect fd addr) k of
       None \<Rightarrow> None
     | Some (r, k1) \<Rightarrow>
         if ret r = 0 then do { (st, k2) \<leftarrow> RestoreSocketFlags net fd fl k1; Some (st, fd, k2) }
         else if errno r = EINTR then connect_loop net timeout addr fl fd k1
         else if errno r = EINPROGRESS then
           (case syscall (SysPoll fd (sint (of_int timeout :: 32 word))) k1 of
              None \<Rightarrow> None
            | Some (p, k2) \<Rightarrow>
                if ret p = 0 then close_with (Status DeadlineExceeded ''connect timed out'') fd k2
                else if ret p < 0 then
                  (if errno p = EINTR then connect_loop net timeout addr fl fd k2
                   else close_with (MakeSocketStatus net ConnectFailed ''poll'' (errno p)) fd k2)
                else do {
                  (g, k3) \<leftarrow> syscall (SysSocketError fd) k2;
                  if ret g < 0 then
                    close_with (MakeSocketStatus net ConnectFailed ''getsockopt(SO_ERROR)'' (errno g)) fd k3
                  else if out_param g = 0 then
                    do { (st, k4) \<leftarrow> RestoreSocketFlags net fd fl k3; Some (st, fd, k4) }
                  else close_with (MakeSocketStatus net ConnectFailed ''connect'' (out_param g)) fd k3
                })
         else close_with (MakeSocketStatus net ConnectFailed ''connect'' (errno r)) fd k1)"
  by pat_completeness auto
termination
  by (relation "measure (\<lambda>(net, timeout, addr, fl, fd, k). length (script k))")
    (auto dest!: syscall_script)

declare connect_loop.simps [simp del]

definition Connect ::
  "net_env \<Rightarrow> string \<Rightarrow> u16 \<Rightarrow> int \<Rightarrow> int \<Rightarrow> 'b kernel \<Rightarrow> (status \<times> int \<times> 'b kernel) option" where
  "Connect net host port timeout fd k = do {
     (created, k) \<leftarrow> (if \<not> valid fd then CreateSocket net k else Some (Value fd, k));
     case created of
       Error st \<Rightarrow> Some (st, fd, k)
     | Value fd \<Rightarrow>
         (case ToAddress net host port of
            Error st \<Rightarrow> close_with st fd k
          | Value addr \<Rightarrow>
              if timeout \<le> 0 then do {
                (r, k) \<leftarrow> retry (SysConnect fd addr) k;
                if ret r = 0 then Some (status_Ok, fd, k)
                else close_with (MakeSocketStatus net ConnectFailed ''connect'' (errno r)) fd k
              }
              else do {
                (f, k) \<leftarrow> syscall (SysGetFlags fd) k;
                if ret f < 0 then
                  close_with (MakeSocketStatus net ConfigureFailed ''fcntl(F_GETFL)'' (errno f)) fd k
                else do {
                  (g, k) \<leftarrow> syscall (SysSetFlags fd (ret f OR O_NONBLOCK)) k;
                  if ret g < 0 then
                    close_with (MakeSocketStatus net ConfigureFailed ''fcntl(F_SETFL)'' (errno g)) fd k
                  else connect_loop net timeout addr (ret f) fd k
                }
              })
   }"

definition Read :: "net_env \<Rightarrow> nat \<Rightarrow> int \<Rightarrow> 'b kernel \<Rightarrow> ('b list status_or \<times> 'b kernel) option" where
  "Read net len fd k =
    (if \<not> valid fd then
       Some (Error (Status FailedPrecondition ''Socket::Read requires a valid socket''), k)
     else do {
       (r, k) \<leftarrow> retry (SysRecv fd len) k;
       Some (if ret r \<ge> 0 then Value (take (nat (ret r)) (received_bytes r))
             else if errno r = EAGAIN then Error (Status DeadlineExceeded ''recv timed out'')
             else Error (MakeSocketStatus net ReadFailed ''recv'' (errno r)), k)
     })"

definition Write :: "net_env \<Rightarrow> 'b list \<Rightarrow> int \<Rightarrow> 'b kernel \<Rightarrow> (nat status_or \<times> 'b kernel) option" where
  "Write net bs fd k =
    (if \<not> valid fd then
       Some (Error (Status FailedPrecondition ''Socket::Write requires a valid socket''), k)
     else do {
       (r, k) \<leftarrow> retry (SysSend fd bs) k;
       Some (if ret r \<ge> 0 then Value (nat (ret r))
             else if errno r = EAGAIN then Error (Status DeadlineExceeded ''send timed out'')
             else Error (MakeSocketStatus net WriteFailed ''send'' (errno r)), k)
     })"

lemma retry_script: "retry c k = Some (r, k') \<Longrightarrow> length (script k') < length (script k)"
proof (induction c k rule: retry.induct)
  case (1 c k)
  then show ?case
    by (subst (asm) (2) retry.simps)
      (auto dest!: syscall_script intro!: less_SucI split: option.splits prod.splits if_splits)
qed

lemma Write_script: "Write net bs fd k = Some (Value n, k') \<Longrightarrow> length (script k') < length (script k)"
  by (auto simp: Write_def bind_eq_Some_conv dest!: retry_script split: if_splits)

function WriteAll :: "net_env \<Rightarrow> 'b list \<Rightarrow> int \<Rightarrow> 'b kernel \<Rightarrow> (status \<times> 'b kernel) option" where
  "WriteAll net bs fd k =
    (if bs = [] then Some (status_Ok, k)
     else case Write net bs fd k of
       None \<Rightarrow> None
     | Some (Error st, k1) \<Rightarrow> Some (st, k1)
     | Some (Value sent, k1) \<Rightarrow>
         if sent = 0 then Some (Status Unavailable ''send returned 0'', k1)
         else WriteAll net (drop sent bs) fd k1)"
  by pat_completeness auto
termination
  by (relation "measure (\<lambda>(net, bs, fd, k). length (script k))") (auto dest: Write_script)

declare WriteAll.simps [simp del]

definition SetReadWriteTimeout :: "net_env \<Rightarrow> int \<Rightarrow> int \<Rightarrow> 'b kernel \<Rightarrow> (status \<times> 'b kernel) option" where
  "SetReadWriteTimeout net timeout fd k =
    (if \<not> valid fd then
       Some (Status FailedPrecondition ''Socket::SetReadWriteTimeout requires a valid socket'', k)
     else do {
       (r, k) \<leftarrow> syscall (SysRecvTimeout fd (ToTimeval timeout)) k;
       if ret r < 0 then
         Some (MakeSocketStatus net ConfigureFailed ''setsockopt(SO_RCVTIMEO)'' (errno r), k)
       else do {
         (r, k) \<leftarrow> syscall (SysSendTimeout fd (ToTimeval timeout)) k;
         Some (if ret r < 0 then MakeSocketStatus net ConfigureFailed ''setsockopt(SO_SNDTIMEO)'' (errno r)
               else status_Ok, k)
       }
     })"

definition ShutdownWrite :: "int \<Rightarrow> 'b kernel \<Rightarrow> 'b kernel option" where
  "ShutdownWrite fd k =
    (if valid fd then do { (_, k) \<leftarrow> syscall (SysShutdownWrite fd) k; Some k } else Some k)"

definition ShutdownReadWrite :: "int \<Rightarrow> 'b kernel \<Rightarrow> 'b kernel option" where
  "ShutdownReadWrite fd k =
    (if valid fd then do { (_, k) \<leftarrow> syscall (SysShutdownBoth fd) k; Some k } else Some k)"

section \<open>Descriptors\<close>

text \<open>The descriptors a trace has opened and not closed, and those a socket object owns.\<close>

fun live_step :: "'b syscall \<times> 'b sysret \<Rightarrow> int multiset \<Rightarrow> int multiset" where
  "live_step (SysSocket, r) fds = (if ret r \<ge> 0 then add_mset (ret r) fds else fds)"
| "live_step (SysAccept fd, r) fds = (if ret r \<ge> 0 then add_mset (ret r) fds else fds)"
| "live_step (SysClose fd, r) fds = fds - {#fd#}"
| "live_step (_, r) fds = fds"

definition live :: "('b syscall \<times> 'b sysret) list \<Rightarrow> int multiset" where
  "live tr = fold live_step tr {#}"

definition owned :: "int \<Rightarrow> int multiset" where
  "owned fd = (if valid fd then {#fd#} else {#})"

lemma live_snoc [simp]: "live (tr @ [e]) = live_step e (live tr)"
  by (simp add: live_def)

text \<open>A call that is neither \<^verbatim>\<open>socket\<close> nor \<^verbatim>\<open>accept\<close> nor \<^verbatim>\<open>close\<close>.\<close>

fun quiet :: "'b syscall \<Rightarrow> bool" where
  "quiet SysSocket = False"
| "quiet (SysAccept fd) = False"
| "quiet (SysClose fd) = False"
| "quiet _ = True"

lemma syscall_live:
  "syscall c k = Some (r, k') \<Longrightarrow> live (trace k') = live_step (c, r) (live (trace k)) \<and> trace k' = trace k @ [(c, r)]"
  by (auto simp: syscall_def split: list.splits)

lemma quiet_live: "quiet c \<Longrightarrow> live_step (c, r) fds = fds"
  by (cases c) auto

lemma syscall_quiet:
  "syscall c k = Some (r, k') \<Longrightarrow> quiet c \<Longrightarrow> live (trace k') = live (trace k)"
  by (simp add: syscall_live quiet_live)

lemma retry_quiet:
  "retry c k = Some (r, k') \<Longrightarrow> quiet c \<Longrightarrow> live (trace k') = live (trace k)"
proof (induction c k rule: retry.induct)
  case (1 c k)
  then show ?case
    by (subst (asm) (2) retry.simps)
      (auto dest: syscall_quiet split: option.splits prod.splits if_splits)
qed

lemma Socket_Close_live:
  "Socket_Close fd k = Some (fd', k') \<Longrightarrow> live (trace k) = owned fd + others \<Longrightarrow>
     live (trace k') = others \<and> \<not> valid fd'"
  by (auto simp: Socket_Close_def bind_eq_Some_conv owned_def valid_def dest!: syscall_live split: if_splits)

lemma close_with_live:
  "close_with st fd k = Some (st', fd', k') \<Longrightarrow> live (trace k) = owned fd + others \<Longrightarrow>
     st' = st \<and> \<not> valid fd' \<and> live (trace k') = owned fd' + others"
  by (auto simp: close_with_def bind_eq_Some_conv owned_def dest: Socket_Close_live)

text \<open>What an operation on a socket object leaves: the object owns its descriptor and nothing
  else was opened or closed; after a success it has one; after a failure it has none, unless the
  failure was in restoring the blocking mode.\<close>

definition settled :: "int multiset \<Rightarrow> status \<times> int \<times> 'b kernel \<Rightarrow> bool" where
  "settled others x = (case x of (st, fd', k') \<Rightarrow>
     live (trace k') = owned fd' + others \<and>
     (if status_ok st then valid fd'
      else \<not> valid fd' \<or>
        (\<exists>fl r. trace k' \<noteq> [] \<and> last (trace k') = (SysSetFlags fd' fl, r) \<and> ret r < 0)))"

lemma MakeSocketStatus_ok [simp]: "\<not> status_ok (MakeSocketStatus net code action e)"
  by (cases code) (simp_all add: MakeSocketStatus_def)

lemma settled_ok:
  "live (trace k) = owned fd + others \<Longrightarrow> valid fd \<Longrightarrow> settled others (status_Ok, fd, k)"
  by (simp add: settled_def)

lemma settled_invalid:
  "live (trace k) = owned fd + others \<Longrightarrow> \<not> valid fd \<Longrightarrow> \<not> status_ok st \<Longrightarrow> settled others (st, fd, k)"
  by (simp add: settled_def)

lemma settled_close:
  "close_with st fd k = Some x \<Longrightarrow> live (trace k) = owned fd + others \<Longrightarrow> \<not> status_ok st \<Longrightarrow>
     settled others x"
  by (cases x) (auto simp: settled_def dest!: close_with_live)

lemma settled_restore:
  "RestoreSocketFlags net fd fl k = Some (st, k') \<Longrightarrow> live (trace k) = owned fd + others \<Longrightarrow> valid fd \<Longrightarrow>
     settled others (st, fd, k')"
  by (auto simp: RestoreSocketFlags_def bind_eq_Some_conv settled_def dest!: syscall_live split: if_splits)

lemma connect_loop_settled:
  "connect_loop net timeout addr fl fd k = Some x \<Longrightarrow> live (trace k) = owned fd + others \<Longrightarrow>
     valid fd \<Longrightarrow> settled others x"
proof (induction net timeout addr fl fd k rule: connect_loop.induct)
  case (1 net timeout addr fl fd k)
  from 1(3) obtain r k1 where r: "syscall (SysConnect fd addr) k = Some (r, k1)"
    by (subst (asm) connect_loop.simps) (auto split: option.splits)
  have k1: "live (trace k1) = owned fd + others" using syscall_quiet[OF r] 1(4) by simp
  note call = 1(3)[unfolded connect_loop.simps[of net timeout addr fl fd k] r]
  show ?case
  proof (cases "ret r \<noteq> 0 \<and> errno r \<noteq> EINTR \<and> errno r = EINPROGRESS")
    case False
    then show ?thesis
      using call k1 1(5) 1(1)[OF r refl]
      by (auto split: if_splits simp: bind_eq_Some_conv intro: settled_close settled_restore)
  next
    case True
    then obtain p k2 where p: "syscall (SysPoll fd (sint (of_int timeout :: 32 word))) k1 = Some (p, k2)"
      using call by (auto split: option.splits)
    have k2: "live (trace k2) = owned fd + others" using syscall_quiet[OF p] k1 by simp
    show ?thesis
    proof (cases "ret p > 0")
      case False
      then show ?thesis
        using call True p k2 1(5) 1(2)[OF r refl _ _ _ p refl]
        by (auto split: if_splits intro: settled_close)
    next
      case pos: True
      then obtain g k3 where g: "syscall (SysSocketError fd) k2 = Some (g, k3)"
        using call True p by (auto simp: bind_eq_Some_conv)
      have "live (trace k3) = owned fd + others" using syscall_quiet[OF g] k2 by simp
      then show ?thesis
        using call True p pos g 1(5)
        by (auto simp: bind_eq_Some_conv split: if_splits intro: settled_close settled_restore)
    qed
  qed
qed

text \<open>The descriptor the operations start from: the own one, or a new one.\<close>

lemma ensure_socket:
  assumes "(if \<not> valid fd then CreateSocket net k else Some (Value fd, k)) = Some (created, k')"
    "live (trace k) = owned fd + others"
  shows "case created of
      Error st \<Rightarrow> \<not> status_ok st \<and> \<not> valid fd \<and> live (trace k') = owned fd + others
    | Value fd' \<Rightarrow> valid fd' \<and> live (trace k') = owned fd' + others"
  using assms
  by (auto simp: CreateSocket_def bind_eq_Some_conv valid_def owned_def dest!: syscall_live split: if_splits)

lemma ToAddress_error: "ToAddress net host port = Error st \<Longrightarrow> \<not> status_ok st"
  by (auto simp: ToAddress_def split: option.splits)

lemma Bind_settled:
  assumes "Bind net host port fd k = Some x" "live (trace k) = owned fd + others"
  shows "settled others x"
proof -
  obtain created k1 where c:
      "(if \<not> valid fd then CreateSocket net k else Some (Value fd, k)) = Some (created, k1)"
    using assms(1) by (auto simp: Bind_def bind_eq_Some_conv)
  note start = ensure_socket[OF c assms(2)]
  show ?thesis
  proof (cases created)
    case (Error st)
    then show ?thesis using start c assms(1) by (auto simp: Bind_def intro: settled_invalid)
  next
    case (Value fd1)
    then show ?thesis
      using start c assms(1)
      by (cases "ToAddress net host port")
        (auto simp: Bind_def bind_eq_Some_conv dest!: syscall_quiet dest: ToAddress_error
          intro: settled_close settled_ok split: if_splits)
  qed
qed

lemma Socket_Listen_settled:
  assumes "Socket_Listen net backlog fd k = Some x" "live (trace k) = owned fd + others"
  shows "settled others x"
  using assms
  by (auto simp: Socket_Listen_def bind_eq_Some_conv dest!: syscall_quiet
      intro: settled_close settled_ok settled_invalid split: if_splits)

lemma Connect_settled:
  assumes "Connect net host port timeout fd k = Some x" "live (trace k) = owned fd + others"
  shows "settled others x"
proof -
  obtain created k1 where c:
      "(if \<not> valid fd then CreateSocket net k else Some (Value fd, k)) = Some (created, k1)"
    using assms(1) by (auto simp: Connect_def bind_eq_Some_conv)
  note start = ensure_socket[OF c assms(2)]
  show ?thesis
  proof (cases created)
    case (Error st)
    then show ?thesis using start c assms(1) by (auto simp: Connect_def intro: settled_invalid)
  next
    case (Value fd1)
    then show ?thesis
      using start c assms(1)
      by (cases "ToAddress net host port")
        (auto simp: Connect_def bind_eq_Some_conv dest!: syscall_quiet retry_quiet
          dest: ToAddress_error intro: settled_close connect_loop_settled settled_ok split: if_splits)
  qed
qed

section \<open>Sent bytes\<close>

text \<open>What the kernel took of the sends of a trace.\<close>

fun accepted_bytes :: "('b syscall \<times> 'b sysret) list \<Rightarrow> 'b list" where
  "accepted_bytes [] = []"
| "accepted_bytes ((SysSend fd bs, r) # tr) =
    (if ret r \<ge> 0 then take (nat (ret r)) bs else []) @ accepted_bytes tr"
| "accepted_bytes (_ # tr) = accepted_bytes tr"

lemma accepted_bytes_append: "accepted_bytes (tr @ tr') = accepted_bytes tr @ accepted_bytes tr'"
  by (induction tr rule: accepted_bytes.induct) simp_all

lemma retry_send:
  "retry (SysSend fd bs) k = Some (r, k') \<Longrightarrow>
     \<exists>new. trace k' = trace k @ new \<and>
       accepted_bytes new = (if ret r \<ge> 0 then take (nat (ret r)) bs else [])"
proof (induction "SysSend fd bs" k rule: retry.induct)
  case (1 k)
  then obtain r1 k1 where c: "syscall (SysSend fd bs) k = Some (r1, k1)"
    by (subst (asm) (2) retry.simps) (auto split: option.splits)
  then have tr: "trace k1 = trace k @ [(SysSend fd bs, r1)]" by (simp add: syscall_live)
  show ?case
  proof (cases "ret r1 < 0 \<and> errno r1 = EINTR")
    case True
    then have "retry (SysSend fd bs) k1 = Some (r, k')"
      using 1(2) c by (subst (asm) retry.simps) simp
    from 1(1)[OF c refl True this] obtain new where "trace k' = trace k1 @ new"
        "accepted_bytes new = (if ret r \<ge> 0 then take (nat (ret r)) bs else [])" by blast
    then have "trace k' = trace k @ (SysSend fd bs, r1) # new \<and>
        accepted_bytes ((SysSend fd bs, r1) # new) = (if ret r \<ge> 0 then take (nat (ret r)) bs else [])"
      using tr True by simp
    then show ?thesis by blast
  next
    case False
    then have "r = r1 \<and> k' = k1"
      using 1(2) c by (subst (asm) retry.simps) (auto split: if_splits)
    then show ?thesis using tr by (intro exI[of _ "[(SysSend fd bs, r1)]"]) simp
  qed
qed

lemma Write_sent:
  assumes "Write net bs fd k = Some (res, k')"
  shows "\<exists>new. trace k' = trace k @ new \<and>
    (case res of Value n \<Rightarrow> accepted_bytes new = take n bs
     | Error st \<Rightarrow> \<not> status_ok st \<and> accepted_bytes new = [])"
proof (cases "valid fd")
  case True
  then obtain r where r: "retry (SysSend fd bs) k = Some (r, k')"
    using assms by (auto simp: Write_def bind_eq_Some_conv)
  then show ?thesis
    using retry_send[OF r] assms True by (auto simp: Write_def split: if_splits)
qed (use assms in \<open>auto simp: Write_def\<close>)

lemma WriteAll_sent:
  "WriteAll net bs fd k = Some (st, k') \<Longrightarrow>
     \<exists>new rest. trace k' = trace k @ new \<and> bs = accepted_bytes new @ rest \<and>
       (status_ok st \<longleftrightarrow> rest = [])"
proof (induction net bs fd k rule: WriteAll.induct)
  case (1 net bs fd k)
  show ?case
  proof (cases "bs = []")
    case True
    then have "st = status_Ok \<and> k' = k" using 1(2) by (subst (asm) WriteAll.simps) simp
    then show ?thesis using True by (intro exI[of _ "[]"]) simp
  next
    case False
    then obtain res k1 where w: "Write net bs fd k = Some (res, k1)"
      using 1(2) by (subst (asm) WriteAll.simps) (auto split: option.splits)
    obtain new where new: "trace k1 = trace k @ new"
        "case res of Value n \<Rightarrow> accepted_bytes new = take n bs
         | Error st \<Rightarrow> \<not> status_ok st \<and> accepted_bytes new = []"
      using Write_sent[OF w] by blast
    show ?thesis
    proof (cases "\<exists>n. res = Value n \<and> n \<noteq> 0")
      case True
      then obtain n where n: "res = Value n" "n \<noteq> 0" by blast
      then have "WriteAll net (drop n bs) fd k1 = Some (st, k')"
        using 1(2) w False by (subst (asm) WriteAll.simps) simp
      from 1(1)[OF False w refl n(1) n(2) this] obtain new' rest where
        "trace k' = trace k1 @ new'" "drop n bs = accepted_bytes new' @ rest" "status_ok st \<longleftrightarrow> rest = []"
        by blast
      then show ?thesis
        using new n by (intro exI[of _ "new @ new'"] exI[of _ rest])
          (simp add: accepted_bytes_append, metis append_take_drop_id)
    next
      case False2: False
      then have "\<not> status_ok st \<and> k' = k1"
        using 1(2) w False new(2) by (subst (asm) WriteAll.simps) (auto split: status_or.splits)
      then show ?thesis
        using new False False2 by (intro exI[of _ new]) (auto split: status_or.splits)
    qed
  qed
qed

lemma ToTimeval_exact:
  "0 < t \<Longrightarrow> ToTimeval t = (t div 1000, t mod 1000 * 1000) \<and> ToTimeval t \<noteq> (0, 0)"
  unfolding ToTimeval_def Let_def by (simp, presburger)

section \<open>Properties\<close>

definition sys_ok :: "int \<Rightarrow> 'b sysret" where
  "sys_ok n = \<lparr>ret = n, errno = 0, received_bytes = [], out_param = 0\<rparr>"

definition sys_fail :: "int \<Rightarrow> 'b sysret" where
  "sys_fail e = \<lparr>ret = - 1, errno = e, received_bytes = [], out_param = 0\<rparr>"

definition demo_net :: net_env where
  "demo_net = \<lparr>inet_pton = (\<lambda>h. if h = ''127.0.0.1'' then Some 0x7F000001 else None),
     error_text = (\<lambda>e. ''error'')\<rparr>"

text \<open>C27. Descriptors: whatever the kernel answers, binding, listening, connecting and closing neither
  leak a descriptor nor close one they do not own. After a success the socket object holds an open
  descriptor; after a failure it holds none, except that a connect whose last step, restoring the
  blocking mode, fails keeps its descriptor.\<close>

theorem socket_descriptors:
  assumes "live (trace k) = owned fd + others"
  shows "(Bind net host port fd k = Some x \<longrightarrow> settled others x) \<and>
    (Socket_Listen net backlog fd k = Some x \<longrightarrow> settled others x) \<and>
    (Connect net host port timeout fd k = Some x \<longrightarrow> settled others x) \<and>
    (Socket_Close fd k = Some (fd', k') \<longrightarrow> live (trace k') = others \<and> \<not> valid fd')"
  using Bind_settled[OF _ assms] Socket_Listen_settled[OF _ assms] Connect_settled[OF _ assms]
    Socket_Close_live[OF _ assms] by simp

theorem socket_descriptors_witness:
  "\<exists>k :: byte kernel. Connect demo_net ''127.0.0.1'' 80 5000 (- 1)
      \<lparr>script = [sys_ok 3, sys_ok 2, sys_ok 0, sys_fail EINPROGRESS, sys_ok 1, sys_ok 0, sys_ok 0],
       trace = []\<rparr> = Some (status_Ok, 3, k) \<and> live (trace k) = {#3#}"
proof -
  let ?k = "\<lparr>script = [sys_ok 3, sys_ok 2, sys_ok 0, sys_fail EINPROGRESS, sys_ok 1, sys_ok 0, sys_ok 0],
       trace = []\<rparr> :: byte kernel"
  have "\<exists>k. Connect demo_net ''127.0.0.1'' 80 5000 (- 1) ?k = Some (status_Ok, 3, k)"
    by (simp add: Connect_def CreateSocket_def syscall_def valid_def sys_ok_def sys_fail_def
        ToAddress_def demo_net_def connect_loop.simps RestoreSocketFlags_def EINPROGRESS_def EINTR_def)
  then obtain k where k: "Connect demo_net ''127.0.0.1'' 80 5000 (- 1) ?k = Some (status_Ok, 3, k)"
    by blast
  moreover have "live (trace ?k) = owned (- 1) + {#}" by (simp add: live_def owned_def valid_def)
  ultimately have "settled {#} (status_Ok, 3 :: int, k)" using socket_descriptors by blast
  then show ?thesis using k by (auto simp: settled_def owned_def)
qed

text \<open>C28. \<^verbatim>\<open>WriteAll\<close> reports success exactly when the kernel has taken all bytes: what the sends of the
  call took, over partial sends and interruptions, is in order the given bytes, or on a failure a
  strict prefix of them.\<close>

theorem write_all_exact:
  assumes "WriteAll net bs fd k = Some (st, k')"
  shows "\<exists>new rest. trace k' = trace k @ new \<and> bs = accepted_bytes new @ rest \<and>
    (status_ok st \<longleftrightarrow> rest = [])"
  using assms by (rule WriteAll_sent)

theorem write_all_exact_witness:
  "\<exists>new rest. [1, 2, 3 :: byte] = accepted_bytes new @ rest \<and> length new = 3 \<and> rest = []"
proof -
  let ?k = "\<lparr>script = [sys_ok 2, sys_fail EINTR, sys_ok 1], trace = []\<rparr> :: byte kernel"
  have "\<exists>k'. WriteAll demo_net [1, 2, 3] 5 ?k = Some (status_Ok, k') \<and> length (trace k') = 3"
    by (simp add: WriteAll.simps Write_def retry.simps syscall_def valid_def sys_ok_def sys_fail_def
        EINTR_def)
  then obtain k' where "WriteAll demo_net [1, 2, 3] 5 ?k = Some (status_Ok, k')" "length (trace k') = 3"
    by blast
  then show ?thesis using write_all_exact[of demo_net "[1, 2, 3]" 5 ?k status_Ok k'] by auto
qed


end
