(* ===== verification/Text.thy ===== *)
theory Text
  imports Prelude
begin

text \<open>
  The operations of \<^verbatim>\<open><string_view>\<close>, \<^verbatim>\<open><cctype>\<close> and \<^verbatim>\<open><charconv>\<close> the naming code is written
  with, and \<^verbatim>\<open>Trim\<close>, of which three files have a copy. A \<^verbatim>\<open>std::string_view\<close> is a string, a
  position that may be \<^verbatim>\<open>npos\<close> an option.
\<close>

section \<open>Trimming\<close>

text \<open>\<^verbatim>\<open>std::isspace\<close> in the C locale: space, tab, newline, vertical tab, form feed, return.\<close>

definition isspace :: "char \<Rightarrow> bool" where
  "isspace c \<longleftrightarrow> (of_char c :: nat) \<in> {9, 10, 11, 12, 13, 32}"

definition Trim :: "string \<Rightarrow> string" where
  "Trim s = rev (dropWhile isspace (rev (dropWhile isspace s)))"

definition trimmed :: "string \<Rightarrow> bool" where
  "trimmed s \<longleftrightarrow> s = [] \<or> \<not> isspace (hd s) \<and> \<not> isspace (last s)"

lemma dropWhile_hd: "dropWhile P xs = [] \<or> \<not> P (hd (dropWhile P xs))"
  by (metis hd_dropWhile)

lemma Trim_id: "trimmed s \<Longrightarrow> Trim s = s"
proof (cases "s = []")
  case False
  assume t: "trimmed s"
  have "dropWhile isspace s = s" using t False by (cases s) (auto simp: trimmed_def)
  moreover have "dropWhile isspace (rev s) = rev s"
    using t False by (cases s rule: rev_cases) (auto simp: trimmed_def)
  ultimately show ?thesis by (simp add: Trim_def)
qed (simp add: Trim_def)

lemma last_rev_dropWhile: "xs \<noteq> [] \<Longrightarrow> dropWhile P (rev xs) = [] \<or>
    last (dropWhile P (rev xs)) = hd xs"
  by (metis dropWhile_append3 hd_rev last_append last_rev rev_is_Nil_conv takeWhile_dropWhile_id
      self_append_conv)

lemma trimmed_Trim: "trimmed (Trim s)"
proof (cases "dropWhile isspace s = []")
  case False
  have "\<not> isspace (hd (dropWhile isspace s))" using False hd_dropWhile by blast
  then show ?thesis
    using last_rev_dropWhile[OF False, of isspace] dropWhile_hd[of isspace "rev (dropWhile isspace s)"]
    by (auto simp: trimmed_def Trim_def hd_rev last_rev)
next
  case True
  then show ?thesis unfolding Trim_def trimmed_def by (simp del: dropWhile_eq_Nil_conv)
qed

lemma Trim_Trim: "Trim (Trim s) = Trim s"
  by (rule Trim_id) (rule trimmed_Trim)

lemma Trim_no_space: "\<forall>c\<in>set s. \<not> isspace c \<Longrightarrow> Trim s = s"
  by (rule Trim_id) (cases s, auto simp: trimmed_def)

lemma set_Trim: "set (Trim s) \<subseteq> set s"
  by (auto simp: Trim_def dest!: set_dropWhileD)

section \<open>Searching\<close>

fun find_char :: "char \<Rightarrow> string \<Rightarrow> nat option" where
  "find_char c [] = None"
| "find_char c (d # s) = (if c = d then Some 0 else map_option Suc (find_char c s))"

fun rfind_char :: "char \<Rightarrow> string \<Rightarrow> nat option" where
  "rfind_char c [] = None"
| "rfind_char c (d # s) =
    (case rfind_char c s of Some n \<Rightarrow> Some (Suc n) | None \<Rightarrow> if c = d then Some 0 else None)"

fun find_str :: "string \<Rightarrow> string \<Rightarrow> nat option" where
  "find_str pat [] = (if pat = [] then Some 0 else None)"
| "find_str pat (d # s) =
    (if take (length pat) (d # s) = pat then Some 0 else map_option Suc (find_str pat s))"

lemma find_char_None: "find_char c s = None \<longleftrightarrow> c \<notin> set s"
  by (induction s) auto

lemma find_char_first: "c \<notin> set xs \<Longrightarrow> find_char c (xs @ c # ys) = Some (length xs)"
  by (induction xs) auto

lemma rfind_char_None: "rfind_char c s = None \<longleftrightarrow> c \<notin> set s"
  by (induction s) (auto split: option.splits)

lemma rfind_char_last: "c \<notin> set ys \<Longrightarrow> rfind_char c (xs @ c # ys) = Some (length xs)"
  using rfind_char_None[of c ys] by (induction xs) auto

lemma find_str_Some:
  "find_str pat s = Some n \<Longrightarrow> n + length pat \<le> length s \<and> take (length pat) (drop n s) = pat"
proof (induction s arbitrary: n)
  case (Cons d s)
  show ?case
  proof (cases "take (length pat) (d # s) = pat")
    case True
    then have "length (take (length pat) (d # s)) = length pat" by simp
    then have "length pat \<le> length (d # s)" by simp
    then show ?thesis using True Cons.prems by simp
  qed (use Cons in auto)
qed (auto split: if_splits)

text \<open>More text behind an occurrence does not change the first one.\<close>

lemma find_str_append: "find_str pat s = Some n \<Longrightarrow> find_str pat (s @ t) = Some n"
proof (induction s arbitrary: n)
  case Nil
  then show ?case by (cases t) (auto split: if_splits)
next
  case (Cons d s)
  have "take (length pat) ((d # s) @ t) = pat \<longleftrightarrow> take (length pat) (d # s) = pat"
    if "length pat \<le> length (d # s)" using that by (simp del: append_Cons)
  moreover have "length pat \<le> length (d # s)" using find_str_Some[OF Cons.prems] by simp
  ultimately show ?case using Cons by (auto split: if_splits)
qed

section \<open>Numbers\<close>

definition digit_char :: "nat \<Rightarrow> char" where
  "digit_char d = (if d < 10 then char_of (48 + d) else char_of (87 + d))"

text \<open>The value of a digit: \<^verbatim>\<open>std::from_chars\<close> takes letters of both cases above base ten.\<close>

definition digit_value :: "char \<Rightarrow> nat option" where
  "digit_value c =
    (let n = of_char c in
     if 48 \<le> n \<and> n \<le> 57 then Some (n - 48)
     else if 97 \<le> n \<and> n \<le> 102 then Some (n - 87)
     else if 65 \<le> n \<and> n \<le> 70 then Some (n - 55)
     else None)"

definition is_digit :: "nat \<Rightarrow> char \<Rightarrow> bool" where
  "is_digit base c \<longleftrightarrow> (case digit_value c of Some d \<Rightarrow> d < base | None \<Rightarrow> False)"

fun digits_value :: "nat \<Rightarrow> nat \<Rightarrow> string \<Rightarrow> nat" where
  "digits_value base acc [] = acc"
| "digits_value base acc (c # cs) =
    digits_value base (acc * base + (case digit_value c of Some d \<Rightarrow> d | None \<Rightarrow> 0)) cs"

datatype from_chars_error = InvalidText | OutOfRange

text \<open>The value and the unparsed rest. \<open>maxv\<close> is the largest value of the integer type.\<close>

definition from_chars :: "nat \<Rightarrow> nat \<Rightarrow> string \<Rightarrow> from_chars_error + nat \<times> string" where
  "from_chars base maxv s =
    (let ds = takeWhile (is_digit base) s; v = digits_value base 0 ds
     in if ds = [] then Inl InvalidText
        else if v > maxv then Inl OutOfRange
        else Inr (v, drop (length ds) s))"

text \<open>For an \<^verbatim>\<open>int\<close>, in base ten.\<close>

definition from_chars_int :: "string \<Rightarrow> from_chars_error + int \<times> string" where
  "from_chars_int s =
    (if s \<noteq> [] \<and> hd s = CHR ''-'' then
       (case from_chars 10 (2 ^ 31) (tl s) of
          Inl e \<Rightarrow> Inl e | Inr (n, rest) \<Rightarrow> Inr (- int n, rest))
     else
       (case from_chars 10 INT_MAX s of
          Inl e \<Rightarrow> Inl e | Inr (n, rest) \<Rightarrow> Inr (int n, rest)))"

fun to_base :: "nat \<Rightarrow> nat \<Rightarrow> string" where
  "to_base base n =
    (if base < 2 \<or> n < base then [digit_char n] else to_base base (n div base) @ [digit_char (n mod base)])"

declare to_base.simps [simp del]

abbreviation to_string :: "nat \<Rightarrow> string" where
  "to_string \<equiv> to_base 10"

text \<open>\<^verbatim>\<open>std::to_string\<close> of an \<^verbatim>\<open>int\<close>.\<close>

definition to_string_int :: "int \<Rightarrow> string" where
  "to_string_int i = (if i < 0 then ''-'' @ to_string (nat (- i)) else to_string (nat i))"

lemma digit_value_char: "d < 16 \<Longrightarrow> digit_value (digit_char d) = Some d"
  by (auto simp: digit_value_def digit_char_def Let_def)

lemma is_digit_char: "d < base \<Longrightarrow> base \<le> 16 \<Longrightarrow> is_digit base (digit_char d)"
  by (simp add: is_digit_def digit_value_char)

lemma is_digit_space: "is_digit base c \<Longrightarrow> \<not> isspace c"
  by (auto simp: is_digit_def digit_value_def isspace_def Let_def split: if_splits)

lemma is_digit_not:
  "\<not> is_digit base (CHR '':'')" "\<not> is_digit base (CHR '','')" "\<not> is_digit base (CHR ''-'')"
  "\<not> is_digit base (CHR '' '')" "\<not> is_digit base (CHR 0x0D)" "\<not> is_digit base (CHR 0x0A)"
  "\<not> is_digit base (CHR '';'')"
  by (simp_all add: is_digit_def digit_value_def Let_def)

lemma to_base_digits:
  assumes "2 \<le> base" "base \<le> 16"
  shows "c \<in> set (to_base base n) \<Longrightarrow> is_digit base c"
  using assms
proof (induction base n rule: to_base.induct)
  case (1 base n)
  show ?case
  proof (cases "n < base")
    case True
    then show ?thesis using 1 by (simp add: to_base.simps[of base n] is_digit_char)
  next
    case False
    then have "c \<in> set (to_base base (n div base)) \<or> c = digit_char (n mod base)"
      using 1 by (auto simp: to_base.simps[of base n])
    then show ?thesis using 1 False by (auto intro!: is_digit_char)
  qed
qed

lemma to_base_nonempty [simp]: "to_base base n \<noteq> []"
  by (simp add: to_base.simps)

lemma digits_value_append:
  "digits_value base acc (xs @ ys) = digits_value base (digits_value base acc xs) ys"
  by (induction xs arbitrary: acc) simp_all

lemma digits_value_to_base:
  assumes "2 \<le> base" "base \<le> 16"
  shows "digits_value base 0 (to_base base n) = n"
  using assms
proof (induction base n rule: to_base.induct)
  case (1 base n)
  show ?case
  proof (cases "n < base")
    case True
    then show ?thesis using 1 by (simp add: to_base.simps[of base n] digit_value_char)
  next
    case False
    then have "n mod base < 16" using 1(2,3) using mod_less_divisor[of base n] by linarith
    then show ?thesis
      using 1 False
      by (simp add: to_base.simps[of base n] digits_value_append digit_value_char)
  qed
qed

lemma takeWhile_digits:
  assumes "\<forall>c\<in>set ds. P c" "rest = [] \<or> \<not> P (hd rest)"
  shows "takeWhile P (ds @ rest) = ds"
  using assms by (induction ds) (cases rest, auto)

text \<open>Reading back a printed number.\<close>

lemma from_chars_to_base:
  assumes "2 \<le> base" "base \<le> 16" "n \<le> maxv" "rest = [] \<or> \<not> is_digit base (hd rest)"
  shows "from_chars base maxv (to_base base n @ rest) = Inr (n, rest)"
  using takeWhile_digits[of "to_base base n" "is_digit base" rest] to_base_digits[OF assms(1,2)] assms
  by (simp add: from_chars_def Let_def digits_value_to_base)

lemma from_chars_int_to_string:
  assumes "n \<le> INT_MAX" "rest = [] \<or> \<not> is_digit 10 (hd rest)"
  shows "from_chars_int (to_string n @ rest) = Inr (int n, rest)"
proof -
  have "is_digit 10 (hd (to_string n))" by (rule to_base_digits[of 10 _ n]) simp_all
  then have "hd (to_string n @ rest) \<noteq> CHR ''-''" using is_digit_not(3) by (auto simp del: is_digit_not)
  then show ?thesis
    using from_chars_to_base[of 10 n INT_MAX rest] assms by (simp add: from_chars_int_def)
qed

lemma from_chars_bound: "from_chars base maxv s = Inr (n, rest) \<Longrightarrow> n \<le> maxv"
  by (auto simp: from_chars_def Let_def split: if_splits)

end
