(* ===== verification/Naming.thy ===== *)
theory Naming
  imports Status Text "HOL-Library.Char_ord" "HOL-Library.List_Lexorder" "HOL-Library.Product_Lexorder"
begin

text \<open>
  \<^verbatim>\<open>src/naming/service_discovery.cpp\<close> and \<^verbatim>\<open>src/naming/static_discovery.cpp\<close>: endpoints, their
  canonical order, and static \<^verbatim>\<open>list://host:port,...\<close> targets.
\<close>

section \<open>Endpoints\<close>

datatype endpoint = Endpoint (ep_host: string) (ep_port: u16)

text \<open>The comparison of \<^verbatim>\<open>CanonicalizeEndpoints\<close>: by host, compared as unsigned characters, then by
  port.\<close>

instantiation endpoint :: linorder
begin

definition less_eq_endpoint :: "endpoint \<Rightarrow> endpoint \<Rightarrow> bool" where
  "a \<le> b \<longleftrightarrow> (ep_host a, ep_port a) \<le> (ep_host b, ep_port b)"

definition less_endpoint :: "endpoint \<Rightarrow> endpoint \<Rightarrow> bool" where
  "a < b \<longleftrightarrow> (if ep_host a \<noteq> ep_host b then ep_host a < ep_host b else ep_port a < ep_port b)"

instance
  by standard
    (auto simp: less_eq_endpoint_def less_endpoint_def less_eq_prod_def endpoint.expand split: if_splits)

end

definition CanonicalizeEndpoints :: "endpoint list \<Rightarrow> endpoint list" where
  "CanonicalizeEndpoints eps = remdups_adj (sort eps)"

lemma sorted_distinct_adj: "sorted (xs :: 'a::linorder list) \<Longrightarrow> distinct (remdups_adj xs)"
  by (induction xs rule: remdups_adj.induct) (auto simp: less_le_not_le)

lemma CanonicalizeEndpoints_set: "CanonicalizeEndpoints eps = sorted_list_of_set (set eps)"
proof -
  have "sorted (CanonicalizeEndpoints eps)" "distinct (CanonicalizeEndpoints eps)"
      "set (CanonicalizeEndpoints eps) = set eps"
    by (simp_all add: CanonicalizeEndpoints_def sorted_distinct_adj sorted_remdups_adj)
  then show ?thesis by (metis sorted_list_of_set.idem_if_sorted_distinct)
qed

section \<open>Static targets\<close>

abbreviation LIST_SCHEME :: string where
  "LIST_SCHEME \<equiv> ''list://''"

definition parse_port :: "string \<Rightarrow> string \<Rightarrow> u16 status_or" where
  "parse_port message port_text =
    (case from_chars_int port_text of
       Inl _ \<Rightarrow> Error (Status InvalidArgument message)
     | Inr (parsed_port, rest) \<Rightarrow>
         if rest \<noteq> [] \<or> parsed_port \<le> 0 \<or> parsed_port > 65535
         then Error (Status InvalidArgument message)
         else Value (of_int parsed_port))"

definition ParsePort :: "string \<Rightarrow> u16 status_or" where
  "ParsePort = parse_port ''invalid endpoint port''"

definition ParseEndpoint :: "string \<Rightarrow> endpoint status_or" where
  "ParseEndpoint endpoint_text =
    (let text = Trim endpoint_text;
         invalid = Error (Status InvalidArgument ''invalid list target endpoint'')
     in case rfind_char (CHR '':'') text of
       None \<Rightarrow> invalid
     | Some colon \<Rightarrow>
         if colon = 0 \<or> colon + 1 \<ge> length text then invalid
         else let host = Trim (take colon text); port = Trim (drop (colon + 1) text)
           in if host = [] \<or> port = [] then invalid
              else (case ParsePort port of
                      Error st \<Rightarrow> Error st
                    | Value p \<Rightarrow> Value (Endpoint host p)))"

lemma find_char_less: "find_char c s = Some n \<Longrightarrow> n < length s"
  by (induction s arbitrary: n) (auto split: if_splits)

function parse_list :: "endpoint list \<Rightarrow> string \<Rightarrow> endpoint list status_or" where
  "parse_list endpoints rest =
    (case find_char (CHR '','') rest of
       None \<Rightarrow>
         (case ParseEndpoint rest of
            Error st \<Rightarrow> Error st
          | Value e \<Rightarrow> Value (endpoints @ [e]))
     | Some comma \<Rightarrow>
         (case ParseEndpoint (take comma rest) of
            Error st \<Rightarrow> Error st
          | Value e \<Rightarrow> parse_list (endpoints @ [e]) (drop (comma + 1) rest)))"
  by pat_completeness auto
termination
  by (relation "measure (\<lambda>(endpoints, rest). length rest)") (auto dest: find_char_less)

declare parse_list.simps [simp del]

text \<open>The caller has checked the scheme. The test for an empty list cannot succeed: a first
  endpoint has been parsed.\<close>

definition ParseListTarget :: "string \<Rightarrow> endpoint list status_or" where
  "ParseListTarget target =
    (case parse_list [] (drop (length LIST_SCHEME) target) of
       Error st \<Rightarrow> Error st
     | Value endpoints \<Rightarrow>
         if endpoints = [] then
           Error (Status InvalidArgument ''list target requires at least one endpoint'')
         else Value (CanonicalizeEndpoints endpoints))"

section \<open>Well-formed endpoints\<close>

text \<open>What a parsed endpoint satisfies, and how an endpoint is written in a target.\<close>

definition wf_endpoint :: "endpoint \<Rightarrow> bool" where
  "wf_endpoint e \<longleftrightarrow> ep_host e \<noteq> [] \<and> trimmed (ep_host e) \<and> CHR '','' \<notin> set (ep_host e) \<and> ep_port e \<noteq> 0"

definition show_endpoint :: "endpoint \<Rightarrow> string" where
  "show_endpoint e = ep_host e @ CHR '':'' # to_string (unat (ep_port e))"

fun show_list :: "endpoint list \<Rightarrow> string" where
  "show_list [] = []"
| "show_list [e] = show_endpoint e"
| "show_list (e # es) = show_endpoint e @ CHR '','' # show_list es"

lemma parse_port_value: "parse_port message t = Value p \<Longrightarrow> p \<noteq> 0"
proof (rule ccontr)
  assume a: "parse_port message t = Value p" "\<not> p \<noteq> 0"
  then obtain i where i: "0 < i" "i \<le> 65535" "(of_int i :: u16) = 0"
    by (auto simp: parse_port_def not_le not_less split: sum.splits prod.splits if_splits)
  have "uint (of_int i :: u16) = i"
    using i(1,2) by (simp add: uint_word_of_int take_bit_eq_mod)
  then show False using i by simp
qed

lemma parse_port_to_string:
  assumes "p \<noteq> 0"
  shows "parse_port message (to_string (unat (p :: u16))) = Value p"
proof -
  define n where "n = unat p"
  have n: "n < 65536" "0 < n" "p = of_nat n"
    using unsigned_less[of p, where 'a = nat] assms by (auto simp: n_def unat_gt_0)
  have "from_chars_int (to_string n @ []) = Inr (int n, [])"
    using n(1) by (intro from_chars_int_to_string) simp_all
  then have "parse_port message (to_string n) = Value p" using n by (simp add: parse_port_def)
  then show ?thesis by (simp add: n_def)
qed

lemma port_text:
  "c \<in> set (to_string n) \<Longrightarrow> \<not> isspace c \<and> c \<noteq> CHR '':'' \<and> c \<noteq> CHR '',''"
  using to_base_digits[of 10 c n] is_digit_space is_digit_not(1,2) by auto

lemma show_endpoint_text:
  assumes "wf_endpoint e"
  shows "trimmed (show_endpoint e)" "CHR '','' \<notin> set (show_endpoint e)"
proof -
  have "last (to_string (unat (ep_port e))) \<in> set (to_string (unat (ep_port e)))" by simp
  then have "\<not> isspace (last (to_string (unat (ep_port e))))" using port_text by blast
  then show "trimmed (show_endpoint e)"
    using assms by (auto simp: show_endpoint_def wf_endpoint_def trimmed_def)
  show "CHR '','' \<notin> set (show_endpoint e)"
    using assms port_text by (auto simp: show_endpoint_def wf_endpoint_def)
qed

lemma ParseEndpoint_show:
  assumes "wf_endpoint e"
  shows "ParseEndpoint (show_endpoint e) = Value e"
proof -
  let ?p = "to_string (unat (ep_port e))"
  have colon: "rfind_char (CHR '':'') (ep_host e @ CHR '':'' # ?p) = Some (length (ep_host e))"
    using port_text by (intro rfind_char_last) auto
  have "Trim ?p = ?p" using port_text by (intro Trim_no_space) auto
  moreover have "Trim (ep_host e) = ep_host e" using assms by (intro Trim_id) (simp add: wf_endpoint_def)
  moreover have "ParsePort ?p = Value (ep_port e)"
    using assms by (simp add: ParsePort_def parse_port_to_string wf_endpoint_def)
  ultimately show ?thesis
    using Trim_id[OF show_endpoint_text(1)[OF assms]] colon assms
    by (simp add: ParseEndpoint_def Let_def wf_endpoint_def show_endpoint_def)
qed

lemma parse_list_show:
  "\<forall>e\<in>set es. wf_endpoint e \<Longrightarrow> es \<noteq> [] \<Longrightarrow> parse_list acc (show_list es) = Value (acc @ es)"
proof (induction es arbitrary: acc rule: show_list.induct)
  case (2 e)
  then have "find_char (CHR '','') (show_endpoint e) = None"
    by (simp add: show_endpoint_text find_char_None)
  then show ?case using 2 by (subst parse_list.simps) (simp add: ParseEndpoint_show)
next
  case (3 e e' es)
  have "find_char (CHR '','') (show_list (e # e' # es)) = Some (length (show_endpoint e))"
    using 3(2) by (simp add: find_char_first show_endpoint_text)
  then show ?case using 3 by (subst parse_list.simps) (simp add: ParseEndpoint_show)
qed simp

lemma ParseEndpoint_wf:
  assumes "ParseEndpoint t = Value e" "CHR '','' \<notin> set t"
  shows "wf_endpoint e"
proof -
  obtain colon p where e: "e = Endpoint (Trim (take colon (Trim t))) p"
      "Trim (take colon (Trim t)) \<noteq> []" "ParsePort (Trim (drop (colon + 1) (Trim t))) = Value p"
    using assms(1)
    by (auto simp: ParseEndpoint_def Let_def split: option.splits if_splits status_or.splits)
  have "p \<noteq> 0" using e(3) parse_port_value unfolding ParsePort_def by blast
  moreover have "set (Trim (take colon (Trim t))) \<subseteq> set t"
    using set_Trim set_take_subset by (metis subset_trans)
  ultimately show ?thesis using assms(2) e(1,2) trimmed_Trim by (auto simp: wf_endpoint_def)
qed

lemma find_char_take: "find_char c s = Some n \<Longrightarrow> c \<notin> set (take n s)"
  by (induction s arbitrary: n) (auto split: if_splits)

lemma parse_list_wf:
  "parse_list acc s = Value es \<Longrightarrow> \<forall>e\<in>set acc. wf_endpoint e \<Longrightarrow>
     (\<forall>e\<in>set es. wf_endpoint e) \<and> es \<noteq> []"
proof (induction acc s rule: parse_list.induct)
  case (1 acc s)
  note eq = 1(2)[unfolded parse_list.simps[of acc s]]
  show ?case
  proof (cases "find_char (CHR '','') s")
    case None
    then have "CHR '','' \<notin> set s" by (simp add: find_char_None)
    then show ?thesis
      using eq None 1(3) by (auto dest: ParseEndpoint_wf split: status_or.splits)
  next
    case (Some n)
    then obtain e where e: "ParseEndpoint (take n s) = Value e"
        "parse_list (acc @ [e]) (drop (n + 1) s) = Value es"
      using eq by (auto split: status_or.splits)
    then show ?thesis
      using 1(1)[OF Some e] 1(3) ParseEndpoint_wf[OF e(1) find_char_take[OF Some]] by auto
  qed
qed

lemma ParseEndpoint_error: "ParseEndpoint t = Error st \<Longrightarrow> st_code st = InvalidArgument"
  by (auto simp: ParseEndpoint_def ParsePort_def parse_port_def Let_def
      split: option.splits if_splits status_or.splits sum.splits prod.splits)

lemma parse_list_error: "parse_list acc s = Error st \<Longrightarrow> st_code st = InvalidArgument"
proof (induction acc s rule: parse_list.induct)
  case (1 acc s)
  note eq = 1(2)[unfolded parse_list.simps[of acc s]]
  then show ?case
    using 1(1) by (auto dest: ParseEndpoint_error split: option.splits status_or.splits)
qed

section \<open>Properties\<close>

text \<open>C30. A static target written from well-formed endpoints is read back as exactly these endpoints in
  canonical form: sorted by host and port, without duplicates, whatever the order they were
  written in.\<close>

theorem list_target_round_trip:
  assumes "eps \<noteq> []" "\<forall>e\<in>set eps. wf_endpoint e"
  shows "ParseListTarget (''list://'' @ show_list eps) = Value (sorted_list_of_set (set eps))"
  using assms by (simp add: ParseListTarget_def parse_list_show CanonicalizeEndpoints_set)

theorem list_target_round_trip_witness:
  "ParseListTarget ''list://b:70,a:80,b:70'' = Value [Endpoint ''a'' 80, Endpoint ''b'' 70]"
proof -
  let ?eps = "[Endpoint ''b'' 70, Endpoint ''a'' 80, Endpoint ''b'' 70]"
  have "''list://'' @ show_list ?eps = ''list://b:70,a:80,b:70''"
    by (simp add: show_endpoint_def to_base.simps digit_char_def char_of_def bit_Suc_0_iff)
  moreover have "CanonicalizeEndpoints ?eps = [Endpoint ''a'' 80, Endpoint ''b'' 70]" by code_simp
  moreover have "\<forall>e\<in>set ?eps. wf_endpoint e"
    by (simp add: wf_endpoint_def trimmed_def isspace_def)
  ultimately show ?thesis using list_target_round_trip[of ?eps] CanonicalizeEndpoints_set[of ?eps] by simp
qed

text \<open>C31. Every snapshot a static target gives is well formed: at least one endpoint, strictly sorted,
  each with a non-empty host without surrounding space and a port other than zero; and a target
  that is rejected is rejected with \<^verbatim>\<open>InvalidArgument\<close>.\<close>

theorem list_target_well_formed:
  "case ParseListTarget t of
      Value eps \<Rightarrow> eps \<noteq> [] \<and> sorted_wrt (<) eps \<and> list_all wf_endpoint eps
    | Error st \<Rightarrow> st_code st = InvalidArgument"
proof (cases "parse_list [] (drop (length LIST_SCHEME) t)")
  case (Value es)
  then have "\<forall>e\<in>set es. wf_endpoint e" "es \<noteq> []" using parse_list_wf[OF Value] by auto
  then show ?thesis
    using Value by (simp add: ParseListTarget_def CanonicalizeEndpoints_set list_all_iff
        strict_sorted_list_of_set)
next
  case (Error st)
  then show ?thesis using parse_list_error[OF Error] by (simp add: ParseListTarget_def)
qed

end
