(* ===== verification/Consul_Http.thy ===== *)
theory Consul_Http
  imports Socket Naming
begin

text \<open>
  \<^verbatim>\<open>src/naming/consul/consul_http_client.cpp\<close>: one blocking HTTP/1.1 exchange with a Consul agent over
  the socket model. Every read loop takes results from the kernel's script, so all of them
  terminate; \<open>None\<close> is a read that is still blocked when the script ends.
\<close>

section \<open>Text helpers\<close>

abbreviation CRLF :: string where
  "CRLF \<equiv> [CHR 0x0D, CHR 0x0A]"

definition READ_BUFFER_SIZE :: nat where
  "READ_BUFFER_SIZE = 4096"

definition tolower_char :: "char \<Rightarrow> char" where
  "tolower_char c = (if 65 \<le> (of_char c :: nat) \<and> (of_char c :: nat) \<le> 90 then char_of ((of_char c :: nat) + 32) else c)"

definition ToLower :: "string \<Rightarrow> string" where
  "ToLower s = map tolower_char s"

definition ParseContentLength :: "string \<Rightarrow> nat status_or" where
  "ParseContentLength value =
    (case from_chars 10 SIZE_MAX value of
       Inl _ \<Rightarrow> Error (Status DataLoss ''invalid Content-Length header'')
     | Inr (n, rest) \<Rightarrow>
         if rest \<noteq> [] then Error (Status DataLoss ''invalid Content-Length header'') else Value n)"

definition ParseChunkSize :: "string \<Rightarrow> nat status_or" where
  "ParseChunkSize line =
    (let line = (case find_char (CHR '';'') line of Some n \<Rightarrow> take n line | None \<Rightarrow> line)
     in case from_chars 16 SIZE_MAX (Trim line) of
       Inl _ \<Rightarrow> Error (Status DataLoss ''invalid chunk size'')
     | Inr (n, rest) \<Rightarrow> if rest \<noteq> [] then Error (Status DataLoss ''invalid chunk size'') else Value n)"

section \<open>Reading\<close>

definition ReadMore :: "net_env \<Rightarrow> int \<Rightarrow> string \<Rightarrow> char kernel \<Rightarrow> (status \<times> string \<times> char kernel) option" where
  "ReadMore net fd buffer k = do {
     (res, k) \<leftarrow> Read net READ_BUFFER_SIZE fd k;
     Some (case res of
        Error st \<Rightarrow> (st, buffer, k)
      | Value chunk \<Rightarrow>
          if chunk = [] then (Status Unavailable ''unexpected EOF while reading HTTP response'', buffer, k)
          else (status_Ok, buffer @ chunk, k))
   }"

lemma Read_script: "Read net n fd k = Some (Value bs, k') \<Longrightarrow> length (script k') < length (script k)"
  by (auto simp: Read_def bind_eq_Some_conv dest!: retry_script split: if_splits)

lemma Read_error: "Read net n fd k = Some (Error st, k') \<Longrightarrow> \<not> status_ok st"
  by (auto simp: Read_def bind_eq_Some_conv split: if_splits)

lemma ReadMore_script:
  assumes "ReadMore net fd buffer k = Some (st, buffer', k')" "status_ok st"
  shows "length (script k') < length (script k)"
proof -
  obtain res k1 where r: "Read net READ_BUFFER_SIZE fd k = Some (res, k1)"
    using assms(1) by (auto simp: ReadMore_def bind_eq_Some_conv)
  then show ?thesis
    using assms by (cases res) (auto simp: ReadMore_def dest: Read_error Read_script split: if_splits)
qed

function ReadUntilClose ::
  "net_env \<Rightarrow> int \<Rightarrow> string \<Rightarrow> char kernel \<Rightarrow> (string status_or \<times> char kernel) option" where
  "ReadUntilClose net fd buffer k =
    (case Read net READ_BUFFER_SIZE fd k of
       None \<Rightarrow> None
     | Some (Error st, k') \<Rightarrow> Some (Error st, k')
     | Some (Value chunk, k') \<Rightarrow>
         if chunk = [] then Some (Value buffer, k') else ReadUntilClose net fd (buffer @ chunk) k')"
  by pat_completeness auto
termination
  by (relation "measure (\<lambda>(net, fd, buffer, k). length (script k))") (auto dest: Read_script)

text \<open>The two inner loops: read until the buffer has \<open>n\<close> bytes, or contains a pattern.\<close>

function read_at_least ::
  "net_env \<Rightarrow> int \<Rightarrow> nat \<Rightarrow> string \<Rightarrow> char kernel \<Rightarrow> (status \<times> string \<times> char kernel) option" where
  "read_at_least net fd n buffer k =
    (if length buffer < n then
       (case ReadMore net fd buffer k of
          None \<Rightarrow> None
        | Some (st, buffer', k') \<Rightarrow>
            if status_ok st then read_at_least net fd n buffer' k' else Some (st, buffer', k'))
     else Some (status_Ok, buffer, k))"
  by pat_completeness auto
termination
  by (relation "measure (\<lambda>(net, fd, n, buffer, k). length (script k))") (auto dest: ReadMore_script)

function read_until ::
  "net_env \<Rightarrow> int \<Rightarrow> string \<Rightarrow> string \<Rightarrow> char kernel \<Rightarrow> (nat status_or \<times> string \<times> char kernel) option" where
  "read_until net fd pat buffer k =
    (case find_str pat buffer of
       Some n \<Rightarrow> Some (Value n, buffer, k)
     | None \<Rightarrow>
         (case ReadMore net fd buffer k of
            None \<Rightarrow> None
          | Some (st, buffer', k') \<Rightarrow>
              if status_ok st then read_until net fd pat buffer' k' else Some (Error st, buffer', k')))"
  by pat_completeness auto
termination
  by (relation "measure (\<lambda>(net, fd, pat, buffer, k). length (script k))") (auto dest: ReadMore_script)

declare ReadUntilClose.simps [simp del] read_at_least.simps [simp del] read_until.simps [simp del]

definition ReadContentLengthBody ::
  "net_env \<Rightarrow> int \<Rightarrow> string \<Rightarrow> nat \<Rightarrow> char kernel \<Rightarrow> (string status_or \<times> char kernel) option" where
  "ReadContentLengthBody net fd buffer content_length k = do {
     (st, buffer, k) \<leftarrow> read_at_least net fd content_length buffer k;
     Some (if \<not> status_ok st then Error st else Value (take content_length buffer), k)
   }"

lemma read_at_least_script:
  "read_at_least net fd n buffer k = Some (st, buffer', k') \<Longrightarrow>
     (k' = k \<and> buffer' = buffer \<and> status_ok st) \<or> length (script k') < length (script k) \<or> \<not> status_ok st"
proof (induction net fd n buffer k rule: read_at_least.induct)
  case (1 net fd n buffer k)
  note eq = 1(2)[unfolded read_at_least.simps[of net fd n buffer k]]
  show ?case
  proof (cases "length buffer < n")
    case True
    then obtain st1 b1 k1 where r: "ReadMore net fd buffer k = Some (st1, b1, k1)"
      using eq by (auto split: option.splits)
    then show ?thesis
      using eq True 1(1)[OF True r refl refl] ReadMore_script[OF r] by (auto split: if_splits)
  qed (use eq in auto)
qed

lemma read_until_script:
  "read_until net fd pat buffer k = Some (Value n, buffer', k') \<Longrightarrow>
     find_str pat buffer' = Some n \<and> (k' = k \<and> buffer' = buffer \<or> length (script k') < length (script k))"
proof (induction net fd pat buffer k rule: read_until.induct)
  case (1 net fd pat buffer k)
  note eq = 1(2)[unfolded read_until.simps[of net fd pat buffer k]]
  show ?case
  proof (cases "find_str pat buffer")
    case None
    then obtain st1 b1 k1 where r: "ReadMore net fd buffer k = Some (st1, b1, k1)"
      using eq by (auto split: option.splits)
    then show ?thesis
      using eq None 1(1)[OF None r refl refl] ReadMore_script[OF r] by (auto split: if_splits)
  qed (use eq in auto)
qed

text \<open>The body of the outer loop, up to the end of one chunk.\<close>

datatype chunk_step = ChunkFailed status | LastChunk | Chunk string

definition read_chunk ::
  "net_env \<Rightarrow> int \<Rightarrow> string \<Rightarrow> char kernel \<Rightarrow> (chunk_step \<times> string \<times> char kernel) option" where
  "read_chunk net fd buffer k = do {
     (line_end, buffer, k) \<leftarrow> read_until net fd CRLF buffer k;
     case line_end of
       Error st \<Rightarrow> Some (ChunkFailed st, buffer, k)
     | Value line_end \<Rightarrow>
         (case ParseChunkSize (take line_end buffer) of
            Error st \<Rightarrow> Some (ChunkFailed st, buffer, k)
          | Value chunk_size \<Rightarrow>
              let buffer = drop (line_end + 2) buffer in
              if chunk_size = 0 then Some (LastChunk, buffer, k)
              else if chunk_size > SIZE_MAX - 2 then
                Some (ChunkFailed (Status DataLoss ''chunk size exceeds addressable range''), buffer, k)
              else do {
                (st, buffer, k) \<leftarrow> read_at_least net fd (chunk_size + 2) buffer k;
                Some (if \<not> status_ok st then (ChunkFailed st, buffer, k)
                      else if take 2 (drop chunk_size buffer) \<noteq> CRLF then
                        (ChunkFailed (Status DataLoss ''invalid chunk terminator''), buffer, k)
                      else (Chunk (take chunk_size buffer), drop (chunk_size + 2) buffer, k))
              })
   }"

text \<open>Each turn of the outer loop reads more or makes the buffer shorter.\<close>

lemma read_chunk_progress:
  assumes "read_chunk net fd buffer k = Some (Chunk c, buffer', k')"
  shows "length (script k') < length (script k) \<or>
    length (script k') = length (script k) \<and> length buffer' < length buffer"
proof -
  obtain le b1 k1 where le: "read_until net fd CRLF buffer k = Some (le, b1, k1)"
    using assms by (auto simp: read_chunk_def bind_eq_Some_conv)
  then obtain n where "le = Value n" using assms by (cases le) (auto simp: read_chunk_def)
  with le have u: "read_until net fd CRLF buffer k = Some (Value n, b1, k1)" by simp
  then obtain size where s: "ParseChunkSize (take n b1) = Value size" "size \<noteq> 0" "\<not> size > SIZE_MAX - 2"
    using assms by (auto simp: read_chunk_def Let_def split: status_or.splits if_splits)
  obtain st b2 where r: "read_at_least net fd (size + 2) (drop (n + 2) b1) k1 = Some (st, b2, k')"
      "status_ok st" "buffer' = drop (size + 2) b2"
    using assms u s by (auto simp: read_chunk_def Let_def bind_eq_Some_conv split: if_splits)
  have "n + 2 \<le> length b1" using read_until_script[OF u] find_str_Some by fastforce
  then show ?thesis
    using read_until_script[OF u] read_at_least_script[OF r(1)] r(2,3) s(2) by auto
qed

function ReadChunkedBody ::
  "net_env \<Rightarrow> int \<Rightarrow> string \<Rightarrow> string \<Rightarrow> char kernel \<Rightarrow> (string status_or \<times> char kernel) option" where
  "ReadChunkedBody net fd body buffer k =
    (case read_chunk net fd buffer k of
       None \<Rightarrow> None
     | Some (ChunkFailed st, buffer', k') \<Rightarrow> Some (Error st, k')
     | Some (LastChunk, buffer', k') \<Rightarrow> Some (Value body, k')
     | Some (Chunk c, buffer', k') \<Rightarrow> ReadChunkedBody net fd (body @ c) buffer' k')"
  by pat_completeness auto
termination
  by (relation "measures [\<lambda>(net, fd, body, buffer, k). length (script k),
      \<lambda>(net, fd, body, buffer, k). length buffer]") (auto dest: read_chunk_progress)

declare ReadChunkedBody.simps [simp del]

section \<open>The response\<close>

record http_response =
  status_code :: int
  headers :: "string \<rightharpoonup> string"
  http_body :: string

text \<open>The status code between the first two spaces; text behind its digits is not looked at.\<close>

definition parse_status_line :: "string \<Rightarrow> int status_or" where
  "parse_status_line status_line =
    (let invalid = Error (Status DataLoss ''invalid HTTP status line'')
     in case find_char (CHR '' '') status_line of
       None \<Rightarrow> invalid
     | Some first_space \<Rightarrow>
         (case find_char (CHR '' '') (drop (first_space + 1) status_line) of
            None \<Rightarrow> invalid
          | Some n \<Rightarrow>
              (case from_chars_int (take n (drop (first_space + 1) status_line)) of
                 Inl _ \<Rightarrow> Error (Status DataLoss ''invalid HTTP status code'')
               | Inr (code, _) \<Rightarrow> Value code)))"

text \<open>\<^verbatim>\<open>headers_.emplace\<close> keeps the first value of a name.\<close>

definition add_header :: "string \<Rightarrow> (string \<rightharpoonup> string) \<Rightarrow> (string \<rightharpoonup> string)" where
  "add_header line hs =
    (case find_char (CHR '':'') line of
       None \<Rightarrow> hs
     | Some colon \<Rightarrow>
         let name = ToLower (Trim (take colon line))
         in if hs name \<noteq> None then hs else hs(name \<mapsto> Trim (drop (colon + 1) line)))"

function parse_headers :: "(string \<rightharpoonup> string) \<Rightarrow> string \<Rightarrow> (string \<rightharpoonup> string)" where
  "parse_headers hs s =
    (if s = [] then hs
     else case find_str CRLF s of
       None \<Rightarrow> add_header s hs
     | Some n \<Rightarrow> parse_headers (add_header (take n s) hs) (drop (n + 2) s))"
  by pat_completeness auto
termination
  by (relation "measure (\<lambda>(hs, s). length s)") (auto dest!: find_str_Some)

declare parse_headers.simps [simp del]

definition read_body ::
  "net_env \<Rightarrow> int \<Rightarrow> (string \<rightharpoonup> string) \<Rightarrow> string \<Rightarrow> char kernel \<Rightarrow>
     (string status_or \<times> char kernel) option" where
  "read_body net fd hs body_buffer k =
    (case hs ''transfer-encoding'' of
       Some coding \<Rightarrow>
         if find_str ''chunked'' (ToLower coding) \<noteq> None
         then ReadChunkedBody net fd [] body_buffer k
         else ReadUntilClose net fd body_buffer k
     | None \<Rightarrow>
         (case hs ''content-length'' of
            Some len \<Rightarrow>
              (case ParseContentLength len of
                 Error st \<Rightarrow> Some (Error st, k)
               | Value n \<Rightarrow> ReadContentLengthBody net fd body_buffer n k)
          | None \<Rightarrow> ReadUntilClose net fd body_buffer k))"

text \<open>\<^verbatim>\<open>SendRequest\<close> from line 218 on.\<close>

definition read_response ::
  "net_env \<Rightarrow> int \<Rightarrow> char kernel \<Rightarrow> (http_response status_or \<times> char kernel) option" where
  "read_response net fd k = do {
     (header_end, buffer, k) \<leftarrow> read_until net fd (CRLF @ CRLF) [] k;
     case header_end of
       Error st \<Rightarrow> Some (Error st, k)
     | Value header_end \<Rightarrow>
         let header_block = take header_end buffer;
             body_buffer = drop (header_end + 4) buffer;
             (status_line, header_lines) =
               (case find_str CRLF header_block of
                  Some n \<Rightarrow> (take n header_block, drop (n + 2) header_block)
                | None \<Rightarrow> (header_block, []))
         in case parse_status_line status_line of
              Error st \<Rightarrow> Some (Error st, k)
            | Value code \<Rightarrow> do {
                let hs = parse_headers Map.empty header_lines;
                (body, k) \<leftarrow> read_body net fd hs body_buffer k;
                Some (case body of
                    Error st \<Rightarrow> Error st
                  | Value b \<Rightarrow> Value \<lparr>status_code = code, headers = hs, http_body = b\<rparr>, k)
              }
   }"

section \<open>The client\<close>

record consul_http_client =
  http_host :: string
  http_port :: u16

definition Http_Create :: "string \<Rightarrow> consul_http_client status_or" where
  "Http_Create address =
    (let invalid = Error (Status InvalidArgument ''consul_address must be host:port'')
     in case rfind_char (CHR '':'') address of
       None \<Rightarrow> invalid
     | Some colon \<Rightarrow>
         if colon = 0 \<or> colon + 1 \<ge> length address then invalid
         else (case parse_port ''invalid consul address port'' (drop (colon + 1) address) of
                 Error st \<Rightarrow> Error st
               | Value port \<Rightarrow> Value \<lparr>http_host = take colon address, http_port = port\<rparr>))"

definition request_text :: "consul_http_client \<Rightarrow> string \<Rightarrow> string \<Rightarrow> string \<Rightarrow> string" where
  "request_text client verb path body =
    verb @ '' '' @ path @ '' HTTP/1.1'' @ CRLF @ ''Host: '' @ http_host client @ '':'' @
    to_string (unat (http_port client)) @ CRLF @ ''Connection: close'' @ CRLF @
    ''Accept: application/json'' @ CRLF @ ''Content-Length: '' @ to_string (length body) @
    CRLF @ CRLF @ body"

text \<open>The socket is closed on every way out.\<close>

definition SendRequest ::
  "net_env \<Rightarrow> consul_http_client \<Rightarrow> string \<Rightarrow> string \<Rightarrow> string \<Rightarrow> int \<Rightarrow> char kernel \<Rightarrow>
     (http_response status_or \<times> char kernel) option" where
  "SendRequest net client verb path body timeout k = do {
     (st, fd, k) \<leftarrow> Connect net (http_host client) (http_port client) timeout (- 1) k;
     (res, k) \<leftarrow>
       (if \<not> status_ok st then Some (Error st, k)
        else do {
          (st, k) \<leftarrow> SetReadWriteTimeout net timeout fd k;
          if \<not> status_ok st then Some (Error st, k)
          else do {
            (st, k) \<leftarrow> WriteAll net (request_text client verb path body) fd k;
            if \<not> status_ok st then Some (Error st, k) else read_response net fd k
          }
        });
     (_, k) \<leftarrow> Socket_Close fd k;
     Some (res, k)
   }"

definition Http_Get ::
  "net_env \<Rightarrow> consul_http_client \<Rightarrow> string \<Rightarrow> int \<Rightarrow> char kernel \<Rightarrow> (http_response status_or \<times> char kernel) option" where
  "Http_Get net client path timeout k = SendRequest net client ''GET'' path [] timeout k"

definition Http_Put ::
  "net_env \<Rightarrow> consul_http_client \<Rightarrow> string \<Rightarrow> string \<Rightarrow> int \<Rightarrow> char kernel \<Rightarrow>
     (http_response status_or \<times> char kernel) option" where
  "Http_Put net client path body timeout k = SendRequest net client ''PUT'' path body timeout k"

section \<open>Delivery in pieces\<close>

text \<open>A kernel that will hand out the pieces \<open>ps\<close>, each after some interrupted calls, and then
  behave as \<open>tail\<close>.\<close>

definition recv_ok :: "string \<Rightarrow> char sysret" where
  "recv_ok bs = \<lparr>ret = int (length bs), errno = 0, received_bytes = bs, out_param = 0\<rparr>"

definition piece_script :: "nat \<times> string \<Rightarrow> char sysret list" where
  "piece_script x = replicate (fst x) (sys_fail EINTR) @ [recv_ok (snd x)]"

definition delivers :: "(nat \<times> string) list \<Rightarrow> char sysret list \<Rightarrow> char kernel \<Rightarrow> bool" where
  "delivers ps tail k \<longleftrightarrow> script k = concat (map piece_script ps) @ tail \<and> (\<forall>x\<in>set ps. snd x \<noteq> [])"

abbreviation delivered :: "(nat \<times> string) list \<Rightarrow> string" where
  "delivered ps \<equiv> concat (map snd ps)"

lemma retry_noise:
  assumes "script k = replicate i (sys_fail EINTR) @ r # rest" "\<not> ret r < 0"
  shows "\<exists>k'. retry c k = Some (r, k') \<and> script k' = rest"
  using assms
proof (induction i arbitrary: k)
  case 0
  then show ?case by (subst retry.simps) (simp add: syscall_def)
next
  case (Suc i)
  then show ?case by (subst retry.simps) (simp add: syscall_def sys_fail_def)
qed

lemma Read_piece:
  assumes "valid fd" "script k = piece_script x @ rest"
  shows "\<exists>k'. Read net n fd k = Some (Value (snd x), k') \<and> script k' = rest"
  using assms retry_noise[of k "fst x" "recv_ok (snd x)" rest "SysRecv fd n"]
  by (auto simp: Read_def piece_script_def recv_ok_def)

lemma ReadMore_piece:
  assumes "valid fd" "delivers (x # ps) tail k"
  shows "\<exists>k'. ReadMore net fd b k = Some (status_Ok, b @ snd x, k') \<and> delivers ps tail k'"
  using assms Read_piece[of fd k x "concat (map piece_script ps) @ tail" net READ_BUFFER_SIZE]
  by (auto simp: ReadMore_def delivers_def)

lemma read_at_least_delivers:
  assumes "valid fd" "delivers ps tail k" "n \<le> length (b @ delivered ps)"
  shows "\<exists>b' ps' k'. read_at_least net fd n b k = Some (status_Ok, b', k') \<and> delivers ps' tail k' \<and>
    b' @ delivered ps' = b @ delivered ps \<and> n \<le> length b'"
  using assms(2,3)
proof (induction ps arbitrary: b k)
  case Nil
  then show ?case by (subst read_at_least.simps) (auto intro: exI[of _ "[]"])
next
  case (Cons x ps)
  show ?case
  proof (cases "length b < n")
    case True
    obtain k1 where "ReadMore net fd b k = Some (status_Ok, b @ snd x, k1)" "delivers ps tail k1"
      using ReadMore_piece[OF assms(1) Cons.prems(1)] by blast
    then show ?thesis
      using Cons.IH[of k1 "b @ snd x"] Cons.prems(2) True by (subst read_at_least.simps) simp
  next
    case False
    then show ?thesis
      using Cons.prems by (subst read_at_least.simps) (auto intro!: exI[of _ "x # ps"])
  qed
qed

lemma read_until_delivers:
  assumes "valid fd" "delivers ps tail k" "find_str pat (b @ delivered ps) = Some n"
  shows "\<exists>b' ps' k'. read_until net fd pat b k = Some (Value n, b', k') \<and> delivers ps' tail k' \<and>
    b' @ delivered ps' = b @ delivered ps \<and> n + length pat \<le> length b'"
  using assms(2,3)
proof (induction ps arbitrary: b k)
  case Nil
  then show ?case
    using find_str_Some[of pat b n] by (subst read_until.simps) (auto intro: exI[of _ "[]"])
next
  case (Cons x ps)
  show ?case
  proof (cases "find_str pat b")
    case None
    obtain k1 where "ReadMore net fd b k = Some (status_Ok, b @ snd x, k1)" "delivers ps tail k1"
      using ReadMore_piece[OF assms(1) Cons.prems(1)] by blast
    then show ?thesis
      using Cons.IH[of k1 "b @ snd x"] Cons.prems(2) None by (subst read_until.simps) simp
  next
    case (Some m)
    have "m = n" using find_str_append[OF Some, of "delivered (x # ps)"] Cons.prems(2) by simp
    then show ?thesis
      using Cons.prems Some find_str_Some[OF Some]
      by (subst read_until.simps) (auto intro!: exI[of _ "x # ps"])
  qed
qed

lemma ReadUntilClose_delivers:
  assumes "valid fd" "delivers ps (recv_ok [] # tail) k"
  shows "\<exists>k'. ReadUntilClose net fd b k = Some (Value (b @ delivered ps), k')"
  using assms(2)
proof (induction ps arbitrary: b k)
  case Nil
  then have "script k = piece_script (0, []) @ tail" by (simp add: delivers_def piece_script_def)
  then show ?case
    using Read_piece[OF assms(1), of k "(0, [])" tail net READ_BUFFER_SIZE]
    by (subst ReadUntilClose.simps) auto
next
  case (Cons x ps)
  obtain k1 where "Read net READ_BUFFER_SIZE fd k = Some (Value (snd x), k1)"
      "delivers ps (recv_ok [] # tail) k1"
    using Read_piece[OF assms(1), of k x "concat (map piece_script ps) @ recv_ok [] # tail"] Cons.prems
    by (fastforce simp: delivers_def)
  then show ?case
    using Cons.IH[of k1 "b @ snd x"] Cons.prems by (subst ReadUntilClose.simps) (auto simp: delivers_def)
qed

section \<open>Chunked bodies\<close>

text \<open>A chunk with its extension, and the encoding of a sequence of chunks.\<close>

definition wf_chunk :: "string \<times> string \<Rightarrow> bool" where
  "wf_chunk c \<longleftrightarrow> fst c \<noteq> [] \<and> length (fst c) \<le> SIZE_MAX - 2 \<and>
    (snd c = [] \<or> hd (snd c) = CHR '';'' \<and> CHR 0x0D \<notin> set (snd c))"

definition encode_chunk :: "string \<times> string \<Rightarrow> string" where
  "encode_chunk c = to_base 16 (length (fst c)) @ snd c @ CRLF @ fst c @ CRLF"

definition encode_chunks :: "(string \<times> string) list \<Rightarrow> string" where
  "encode_chunks cs = concat (map encode_chunk cs) @ ''0'' @ CRLF"

lemma find_str_first:
  "c \<notin> set xs \<Longrightarrow> find_str (c # pat) (xs @ (c # pat) @ ys) = Some (length xs)"
  by (induction xs) auto

lemma hex_text: "c \<in> set (to_base 16 n) \<Longrightarrow> \<not> isspace c \<and> c \<noteq> CHR '';'' \<and> c \<noteq> CHR 0x0D"
  using to_base_digits[of 16 c n] is_digit_space is_digit_not(5,7) by auto

lemma ParseChunkSize_text:
  assumes "n \<le> SIZE_MAX" "ext = [] \<or> hd ext = CHR '';''"
  shows "ParseChunkSize (to_base 16 n @ ext) = Value n"
proof -
  have "(case find_char (CHR '';'') (to_base 16 n @ ext) of
      Some m \<Rightarrow> take m (to_base 16 n @ ext) | None \<Rightarrow> to_base 16 n @ ext) = to_base 16 n"
  proof (cases ext)
    case Nil
    then have "find_char (CHR '';'') (to_base 16 n @ ext) = None"
      using hex_text by (auto simp: find_char_None)
    then show ?thesis using Nil by simp
  next
    case (Cons c cs)
    then have "find_char (CHR '';'') (to_base 16 n @ ext) = Some (length (to_base 16 n))"
      using assms(2) hex_text find_char_first[of "CHR '';''" "to_base 16 n" cs] by auto
    then show ?thesis by simp
  qed
  moreover have "Trim (to_base 16 n) = to_base 16 n" using hex_text by (intro Trim_no_space) auto
  moreover have "from_chars 16 SIZE_MAX (to_base 16 n @ []) = Inr (n, [])"
    using assms(1) by (intro from_chars_to_base) simp_all
  ultimately show ?thesis by (simp add: ParseChunkSize_def Let_def)
qed

lemma read_chunk_delivers:
  assumes "valid fd" "delivers ps tail k" "wf_chunk c" "b @ delivered ps = encode_chunk c @ rest"
  shows "\<exists>b' ps' k'. read_chunk net fd b k = Some (Chunk (fst c), b', k') \<and> delivers ps' tail k' \<and>
    b' @ delivered ps' = rest"
proof -
  let ?line = "to_base 16 (length (fst c)) @ snd c" and ?n = "length (fst c)"
  have "CHR 0x0D \<notin> set ?line" using assms(3) hex_text by (auto simp: wf_chunk_def)
  then have "find_str CRLF (b @ delivered ps) = Some (length ?line)"
    using find_str_first[of "CHR 0x0D" ?line "[CHR 0x0A]" "fst c @ CRLF @ rest"] assms(4)
    by (simp add: encode_chunk_def)
  then obtain b1 ps1 k1 where
    u: "read_until net fd CRLF b k = Some (Value (length ?line), b1, k1)" "delivers ps1 tail k1"
      "b1 @ delivered ps1 = encode_chunk c @ rest" "length ?line + 2 \<le> length b1"
    using read_until_delivers[OF assms(1,2)] assms(4) by fastforce
  have line: "take (length ?line) b1 = ?line"
    using arg_cong[OF u(3), of "take (length ?line)"] u(4) by (simp add: encode_chunk_def)
  have size: "ParseChunkSize ?line = Value ?n" "?n \<noteq> 0" "\<not> ?n > SIZE_MAX - 2"
    using assms(3) ParseChunkSize_text[of ?n "snd c"] by (auto simp: wf_chunk_def)
  have b2: "drop (length ?line + 2) b1 @ delivered ps1 = fst c @ CRLF @ rest"
    using arg_cong[OF u(3), of "drop (length ?line + 2)"] u(4) by (simp add: encode_chunk_def)
  then have "?n + 2 \<le> length (drop (length ?line + 2) b1 @ delivered ps1)" by simp
  from read_at_least_delivers[OF assms(1) u(2) this, of net, unfolded b2] obtain b3 ps3 k3 where
    r: "read_at_least net fd (?n + 2) (drop (length ?line + 2) b1) k1 = Some (status_Ok, b3, k3)"
      "delivers ps3 tail k3" "b3 @ delivered ps3 = fst c @ CRLF @ rest" "?n + 2 \<le> length b3"
    by blast
  have body: "take ?n b3 = fst c" "take 2 (drop ?n b3) = CRLF" "drop (?n + 2) b3 @ delivered ps3 = rest"
    using arg_cong[OF r(3), of "take ?n"] arg_cong[OF r(3), of "\<lambda>s. take 2 (drop ?n s)"]
      arg_cong[OF r(3), of "drop (?n + 2)"] r(4) by simp_all
  have "read_chunk net fd b k = Some (Chunk (fst c), drop (?n + 2) b3, k3)"
    unfolding read_chunk_def u(1) Let_def using line size r(1) body(1,2) by simp
  then show ?thesis using r(2) body(3) by blast
qed

lemma read_last_chunk:
  assumes "valid fd" "delivers ps tail k" "b @ delivered ps = ''0'' @ CRLF @ rest"
  shows "\<exists>b' k'. read_chunk net fd b k = Some (LastChunk, b', k')"
proof -
  have zero: "to_base 16 0 = ''0''" by (simp add: to_base.simps digit_char_def char_of_def bit_Suc_0_iff)
  have "find_str CRLF (b @ delivered ps) = Some 1" using assms(3) by simp
  then obtain b1 ps1 k1 where u: "read_until net fd CRLF b k = Some (Value 1, b1, k1)"
      "b1 @ delivered ps1 = ''0'' @ CRLF @ rest" "1 + 2 \<le> length b1"
    using read_until_delivers[OF assms(1,2)] assms(3) by fastforce
  have "take 1 b1 = ''0''" using arg_cong[OF u(2), of "take 1"] u(3) by simp
  moreover have "ParseChunkSize ''0'' = Value 0" using ParseChunkSize_text[of 0 "[]"] zero by simp
  ultimately show ?thesis unfolding read_chunk_def u(1) by simp
qed

lemma ReadChunkedBody_delivers:
  assumes "valid fd" "delivers ps tail k" "\<forall>c\<in>set cs. wf_chunk c"
    "b @ delivered ps = encode_chunks cs @ rest"
  shows "\<exists>k'. ReadChunkedBody net fd body b k = Some (Value (body @ concat (map fst cs)), k')"
  using assms(2-4)
proof (induction cs arbitrary: ps k b body)
  case Nil
  then obtain b' k' where "read_chunk net fd b k = Some (LastChunk, b', k')"
    using read_last_chunk[OF assms(1), of ps tail k b rest net] by (auto simp: encode_chunks_def)
  then show ?case by (subst ReadChunkedBody.simps) simp
next
  case (Cons c cs)
  have "b @ delivered ps = encode_chunk c @ encode_chunks cs @ rest"
    using Cons.prems(3) by (simp add: encode_chunks_def)
  with read_chunk_delivers[OF assms(1) Cons.prems(1)] Cons.prems(2) obtain b1 ps1 k1 where
    "read_chunk net fd b k = Some (Chunk (fst c), b1, k1)" "delivers ps1 tail k1"
    "b1 @ delivered ps1 = encode_chunks cs @ rest" by (metis list.set_intros(1))
  then show ?case
    using Cons.IH[of ps1 k1 b1 "body @ fst c"] Cons.prems(2) by (subst ReadChunkedBody.simps) simp
qed

section \<open>Response heads\<close>

text \<open>A status line and header lines, as a server writes them.\<close>

definition wf_header :: "string \<times> string \<Rightarrow> bool" where
  "wf_header h \<longleftrightarrow> trimmed (fst h) \<and> trimmed (snd h) \<and> CHR '':'' \<notin> set (fst h) \<and>
    CHR 0x0D \<notin> set (fst h) \<and> CHR 0x0D \<notin> set (snd h)"

definition header_line :: "string \<times> string \<Rightarrow> string" where
  "header_line h = fst h @ '': '' @ snd h"

definition status_line :: "nat \<Rightarrow> string \<Rightarrow> string" where
  "status_line code reason = ''HTTP/1.1 '' @ to_string code @ '' '' @ reason"

definition join_lines :: "string \<Rightarrow> string list \<Rightarrow> string" where
  "join_lines l ls = l @ concat (map ((@) CRLF) ls)"

definition plain :: "string \<Rightarrow> bool" where
  "plain l \<longleftrightarrow> l \<noteq> [] \<and> CHR 0x0D \<notin> set l"

lemma find_str_skip:
  "c \<notin> set xs \<Longrightarrow> find_str (c # pat) (xs @ ys) = map_option ((+) (length xs)) (find_str (c # pat) ys)"
  by (induction xs; cases "find_str (c # pat) ys") auto

lemma find_head_end:
  "plain l \<Longrightarrow> \<forall>l\<in>set ls. plain l \<Longrightarrow>
     find_str (CRLF @ CRLF) (join_lines l ls @ CRLF @ CRLF @ body) = Some (length (join_lines l ls))"
proof (induction ls arbitrary: l)
  case Nil
  then show ?case
    using find_str_first[of "CHR 0x0D" l "[CHR 0x0A] @ CRLF" body] by (simp add: join_lines_def plain_def)
next
  case (Cons l1 ls)
  let ?rest = "join_lines l1 ls @ CRLF @ CRLF @ body"
  obtain c cs where c: "l1 = c # cs" "c \<noteq> CHR 0x0D" using Cons.prems(2) by (cases l1) (auto simp: plain_def)
  have "find_str (CRLF @ CRLF) (CRLF @ ?rest) = map_option (\<lambda>n. n + 2) (find_str (CRLF @ CRLF) ?rest)"
    using c by (simp add: join_lines_def option.map_comp comp_def)
  moreover have "find_str (CRLF @ CRLF) ?rest = Some (length (join_lines l1 ls))"
    using Cons by simp
  ultimately show ?case
    using Cons.prems(1) find_str_skip[of "CHR 0x0D" l "[CHR 0x0A] @ CRLF" "CRLF @ ?rest"]
    by (simp add: join_lines_def plain_def)
qed

lemma find_line_end:
  "plain l \<Longrightarrow> find_str CRLF (join_lines l ls) = (if ls = [] then None else Some (length l))"
proof (cases ls)
  case Nil
  assume "plain l"
  then show ?thesis
    using find_str_skip[of "CHR 0x0D" l "[CHR 0x0A]" "[]"] Nil by (simp add: join_lines_def plain_def)
next
  case (Cons l1 ls1)
  assume "plain l"
  then show ?thesis
    using find_str_first[of "CHR 0x0D" l "[CHR 0x0A]" "join_lines l1 ls1"] Cons
    by (simp add: join_lines_def plain_def)
qed

lemma parse_headers_lines:
  "plain l \<Longrightarrow> \<forall>l\<in>set ls. plain l \<Longrightarrow>
     parse_headers hs (join_lines l ls) = fold add_header (l # ls) hs"
proof (induction ls arbitrary: l hs)
  case Nil
  then show ?case
    using find_line_end[OF Nil(1), of "[]"]
    by (subst parse_headers.simps) (auto simp: join_lines_def plain_def)
next
  case (Cons l1 ls)
  have "drop (length l + 2) (join_lines l (l1 # ls)) = join_lines l1 ls"
      "take (length l) (join_lines l (l1 # ls)) = l"
    by (simp_all add: join_lines_def)
  moreover have "join_lines l (l1 # ls) \<noteq> []" using Cons.prems(1) by (simp add: join_lines_def)
  ultimately show ?case
    using Cons.IH[of l1 "add_header l hs"] find_line_end[OF Cons.prems(1), of "l1 # ls"] Cons.prems
    by (subst parse_headers.simps) simp
qed

text \<open>The first value of a repeated name counts; names are compared in lower case.\<close>

definition header_map :: "(string \<times> string) list \<Rightarrow> (string \<rightharpoonup> string)" where
  "header_map hs = map_of (map (\<lambda>h. (ToLower (fst h), snd h)) hs)"

lemma Trim_space: "isspace c \<Longrightarrow> Trim (c # s) = Trim s"
  by (simp add: Trim_def)

lemma add_header_line:
  assumes "wf_header h"
  shows "add_header (header_line h) m =
    (if m (ToLower (fst h)) \<noteq> None then m else m(ToLower (fst h) \<mapsto> snd h))"
proof -
  have "find_char (CHR '':'') (header_line h) = Some (length (fst h))"
    using assms find_char_first[of "CHR '':''" "fst h" "'' '' @ snd h"]
    by (simp add: header_line_def wf_header_def)
  moreover have "Trim ('' '' @ snd h) = snd h" "Trim (fst h) = fst h"
    using assms by (simp_all add: wf_header_def Trim_space isspace_def Trim_id)
  ultimately show ?thesis by (simp add: add_header_def header_line_def Let_def)
qed

lemma fold_header_lines:
  "\<forall>h\<in>set hs. wf_header h \<Longrightarrow> fold add_header (map header_line hs) m = header_map hs ++ m"
proof (induction hs arbitrary: m)
  case (Cons h hs)
  then show ?case
    by (auto simp: add_header_line header_map_def map_add_def fun_eq_iff split: option.splits)
qed (simp add: header_map_def)

lemma parse_status_line_text:
  assumes "code \<le> INT_MAX"
  shows "parse_status_line (status_line code reason) = Value (int code)"
proof -
  have "CHR '' '' \<notin> set (to_string code)" using port_text[of "CHR '' ''" code] by (auto simp: isspace_def)
  then have "find_char (CHR '' '') (to_string code @ CHR '' '' # reason) = Some (length (to_string code))"
    by (rule find_char_first)
  moreover have "from_chars_int (to_string code @ []) = Inr (int code, [])"
    using assms by (intro from_chars_int_to_string) simp_all
  ultimately show ?thesis by (simp add: parse_status_line_def status_line_def Let_def)
qed

lemma plain_lines:
  assumes "CHR 0x0D \<notin> set reason"
  shows "plain (status_line code reason)" "wf_header h \<Longrightarrow> plain (header_line h)"
proof -
  have "CHR 0x0D \<notin> set (to_string code)" using port_text[of "CHR 0x0D" code] by (auto simp: isspace_def)
  then show "plain (status_line code reason)" using assms by (simp add: plain_def status_line_def)
  show "wf_header h \<Longrightarrow> plain (header_line h)" by (simp add: plain_def header_line_def wf_header_def)
qed

definition response_head :: "nat \<Rightarrow> string \<Rightarrow> (string \<times> string) list \<Rightarrow> string" where
  "response_head code reason hs = join_lines (status_line code reason) (map header_line hs)"

text \<open>The three ways a body is delimited: the bytes \<open>wire\<close> behind the head carry \<open>body\<close>. Without
  a length the peer has to close the connection.\<close>

definition framed :: "(string \<rightharpoonup> string) \<Rightarrow> string \<Rightarrow> string \<Rightarrow> char sysret list \<Rightarrow> bool" where
  "framed hs body wire tail \<longleftrightarrow>
    (case hs ''transfer-encoding'' of
       Some coding \<Rightarrow>
         if find_str ''chunked'' (ToLower coding) \<noteq> None then
           (\<exists>cs rest. (\<forall>c\<in>set cs. wf_chunk c) \<and> body = concat (map fst cs) \<and> wire = encode_chunks cs @ rest)
         else wire = body \<and> tail \<noteq> [] \<and> hd tail = recv_ok []
     | None \<Rightarrow>
         (case hs ''content-length'' of
            Some len \<Rightarrow> len = to_string (length body) \<and> length body \<le> SIZE_MAX \<and> (\<exists>rest. wire = body @ rest)
          | None \<Rightarrow> wire = body \<and> tail \<noteq> [] \<and> hd tail = recv_ok []))"

lemma ParseContentLength_text: "n \<le> SIZE_MAX \<Longrightarrow> ParseContentLength (to_string n) = Value n"
  using from_chars_to_base[of 10 n SIZE_MAX "[]"] by (simp add: ParseContentLength_def)

lemma ReadContentLengthBody_delivers:
  assumes "valid fd" "delivers ps tail k" "b @ delivered ps = body @ rest"
  shows "\<exists>k'. ReadContentLengthBody net fd b (length body) k = Some (Value body, k')"
proof -
  have "length body \<le> length (b @ delivered ps)" by (simp only: assms(3)) simp
  from read_at_least_delivers[OF assms(1,2) this, of net, unfolded assms(3)] obtain b' ps' k' where
    r: "read_at_least net fd (length body) b k = Some (status_Ok, b', k')"
      "b' @ delivered ps' = body @ rest" "length body \<le> length b'" by blast
  have "take (length body) b' = body" using arg_cong[OF r(2), of "take (length body)"] r(3) by simp
  then show ?thesis using r(1) by (simp add: ReadContentLengthBody_def)
qed

lemma read_body_delivers:
  assumes "valid fd" "delivers ps tail k" "framed hs body (b @ delivered ps) tail"
  shows "\<exists>k'. read_body net fd hs b k = Some (Value body, k')"
proof -
  have close: "\<exists>k'. ReadUntilClose net fd b k = Some (Value (b @ delivered ps), k')"
    if "tail \<noteq> []" "hd tail = recv_ok []"
    using ReadUntilClose_delivers[OF assms(1), of ps "tl tail" k net b] assms(2) that by (cases tail) auto
  show ?thesis
  proof (cases "hs ''transfer-encoding''")
    case (Some coding)
    then show ?thesis
      using assms(3) close ReadChunkedBody_delivers[OF assms(1,2), of _ b _ net "[]"]
      by (fastforce simp: framed_def read_body_def split: if_splits)
  next
    case None
    then show ?thesis
      using assms(3) close ReadContentLengthBody_delivers[OF assms(1,2), of b body]
      by (fastforce simp: framed_def read_body_def ParseContentLength_text split: option.splits)
  qed
qed

lemma read_response_delivers:
  assumes "valid fd" "delivers ps tail k" "code \<le> INT_MAX" "CHR 0x0D \<notin> set reason"
    "\<forall>h\<in>set hs. wf_header h" "delivered ps = response_head code reason hs @ CRLF @ CRLF @ wire"
    "framed (header_map hs) body wire tail"
  shows "\<exists>k'. read_response net fd k =
    Some (Value \<lparr>status_code = int code, headers = header_map hs, http_body = body\<rparr>, k')"
proof -
  let ?head = "response_head code reason hs" and ?l = "status_line code reason"
  have pl: "plain ?l" "\<forall>l\<in>set (map header_line hs). plain l"
    using plain_lines[OF assms(4)] assms(5) by auto
  have "find_str (CRLF @ CRLF) ([] @ delivered ps) = Some (length ?head)"
    using find_head_end[OF pl, of wire] assms(6) by (simp add: response_head_def)
  from read_until_delivers[OF assms(1,2) this, of net] obtain b ps1 k1 where
    u: "read_until net fd (CRLF @ CRLF) [] k = Some (Value (length ?head), b, k1)"
      "delivers ps1 tail k1" "b @ delivered ps1 = ?head @ CRLF @ CRLF @ wire" "length ?head + 4 \<le> length b"
    using assms(6) by auto
  have b: "take (length ?head) b = ?head" "drop (length ?head + 4) b @ delivered ps1 = wire"
    using arg_cong[OF u(3), of "take (length ?head)"] arg_cong[OF u(3), of "drop (length ?head + 4)"] u(4)
    by simp_all
  obtain k2 where body: "read_body net fd (header_map hs) (drop (length ?head + 4) b) k1 = Some (Value body, k2)"
    using read_body_delivers[OF assms(1) u(2), of "header_map hs" body _ net] b(2) assms(7) by blast
  have split: "(case find_str CRLF ?head of Some n \<Rightarrow> (take n ?head, drop (n + 2) ?head) | None \<Rightarrow> (?head, [])) =
      (?l, if hs = [] then [] else join_lines (header_line (hd hs)) (map header_line (tl hs)))"
    using find_line_end[OF pl(1), of "map header_line hs"]
    by (cases hs) (simp_all add: response_head_def join_lines_def)
  have "parse_headers Map.empty (snd (?l,
      if hs = [] then [] else join_lines (header_line (hd hs)) (map header_line (tl hs)))) = header_map hs"
    using parse_headers_lines[of "header_line (hd hs)" "map header_line (tl hs)" Map.empty] pl(2)
      fold_header_lines[OF assms(5), of Map.empty]
    by (cases hs) (simp_all add: parse_headers.simps[of _ "[]"] header_map_def)
  then show ?thesis
    unfolding read_response_def u(1) Option.bind.simps prod.case status_or.case Let_def b(1) split
    using body parse_status_line_text[OF assms(3), of reason] by simp
qed

section \<open>Descriptors of an exchange\<close>

lemma Read_live: "Read net n fd k = Some (res, k') \<Longrightarrow> live (trace k') = live (trace k)"
  by (auto simp: Read_def bind_eq_Some_conv dest!: retry_quiet split: if_splits)

lemma WriteAll_live: "WriteAll net bs fd k = Some (st, k') \<Longrightarrow> live (trace k') = live (trace k)"
proof (induction net bs fd k rule: WriteAll.induct)
  case (1 net bs fd k)
  have w: "live (trace k1) = live (trace k)" if "Write net bs fd k = Some (res, k1)" for res k1
    using that by (auto simp: Write_def bind_eq_Some_conv dest!: retry_quiet split: if_splits)
  show ?case
    using 1(2) 1(1)
    by (subst (asm) WriteAll.simps)
      (auto dest!: w split: if_splits option.splits prod.splits status_or.splits)
qed

lemma SetReadWriteTimeout_live:
  "SetReadWriteTimeout net t fd k = Some (st, k') \<Longrightarrow> live (trace k') = live (trace k)"
  by (auto simp: SetReadWriteTimeout_def bind_eq_Some_conv dest!: syscall_quiet split: if_splits)

lemma ReadMore_live: "ReadMore net fd b k = Some (st, b', k') \<Longrightarrow> live (trace k') = live (trace k)"
proof -
  assume a: "ReadMore net fd b k = Some (st, b', k')"
  then obtain res k1 where r: "Read net READ_BUFFER_SIZE fd k = Some (res, k1)"
    by (auto simp: ReadMore_def bind_eq_Some_conv)
  then show ?thesis
    using a Read_live[OF r] by (cases res) (auto simp: ReadMore_def split: if_splits)
qed

lemma ReadUntilClose_live:
  "ReadUntilClose net fd b k = Some (res, k') \<Longrightarrow> live (trace k') = live (trace k)"
proof (induction net fd b k rule: ReadUntilClose.induct)
  case (1 net fd b k)
  then show ?case
    by (subst (asm) (2) ReadUntilClose.simps)
      (auto dest!: Read_live split: if_splits option.splits prod.splits status_or.splits)
qed

lemma read_at_least_live:
  "read_at_least net fd n b k = Some (st, b', k') \<Longrightarrow> live (trace k') = live (trace k)"
proof (induction net fd n b k rule: read_at_least.induct)
  case (1 net fd n b k)
  then show ?case
    by (subst (asm) (2) read_at_least.simps)
      (auto dest!: ReadMore_live split: if_splits option.splits prod.splits)
qed

lemma read_until_live:
  "read_until net fd pat b k = Some (res, b', k') \<Longrightarrow> live (trace k') = live (trace k)"
proof (induction net fd pat b k rule: read_until.induct)
  case (1 net fd pat b k)
  then show ?case
    by (subst (asm) (2) read_until.simps)
      (auto dest!: ReadMore_live split: if_splits option.splits prod.splits)
qed

lemma read_chunk_live:
  assumes "read_chunk net fd b k = Some (c, b', k')"
  shows "live (trace k') = live (trace k)"
proof -
  obtain le b1 k1 where le: "read_until net fd CRLF b k = Some (le, b1, k1)"
    using assms by (auto simp: read_chunk_def bind_eq_Some_conv)
  show ?thesis
  proof (cases "\<exists>n size. le = Value n \<and> ParseChunkSize (take n b1) = Value size")
    case True
    then show ?thesis
      using assms le read_until_live[OF le]
      by (auto simp: read_chunk_def Let_def bind_eq_Some_conv dest!: read_at_least_live split: if_splits)
  next
    case False
    then show ?thesis
      using assms le read_until_live[OF le] by (auto simp: read_chunk_def split: status_or.splits)
  qed
qed

lemma ReadChunkedBody_live:
  "ReadChunkedBody net fd body b k = Some (res, k') \<Longrightarrow> live (trace k') = live (trace k)"
proof (induction net fd body b k rule: ReadChunkedBody.induct)
  case (1 net fd body b k)
  then show ?case
    by (subst (asm) (2) ReadChunkedBody.simps)
      (auto dest!: read_chunk_live split: option.splits prod.splits chunk_step.splits)
qed

lemma read_body_live:
  "read_body net fd hs b k = Some (res, k') \<Longrightarrow> live (trace k') = live (trace k)"
  by (auto simp: read_body_def ReadContentLengthBody_def bind_eq_Some_conv
      dest!: ReadChunkedBody_live ReadUntilClose_live read_at_least_live
      split: option.splits if_splits status_or.splits)

lemma read_response_live:
  assumes "read_response net fd k = Some (res, k')"
  shows "live (trace k') = live (trace k)"
proof -
  obtain he b k1 where he: "read_until net fd (CRLF @ CRLF) [] k = Some (he, b, k1)"
    using assms by (auto simp: read_response_def bind_eq_Some_conv)
  note eq = assms[unfolded read_response_def he Option.bind.simps prod.case]
  show ?thesis
  proof (cases he)
    case (Error st)
    then show ?thesis using eq read_until_live[OF he] by simp
  next
    case (Value n)
    obtain sl hl where p: "(case find_str CRLF (take n b) of
        Some m \<Rightarrow> (take m (take n b), drop (m + 2) (take n b)) | None \<Rightarrow> (take n b, [])) = (sl, hl)"
      by fastforce
    note eq' = eq[unfolded Value status_or.case Let_def p prod.case]
    show ?thesis
      using eq' read_until_live[OF he]
      by (cases "parse_status_line sl") (auto simp: bind_eq_Some_conv dest!: read_body_live)
  qed
qed

lemma SendRequest_live:
  assumes "SendRequest net client verb path body timeout k = Some (res, k')"
  shows "live (trace k') = live (trace k)"
proof -
  obtain st fd k1 where c: "Connect net (http_host client) (http_port client) timeout (- 1) k = Some (st, fd, k1)"
    using assms by (auto simp: SendRequest_def bind_eq_Some_conv)
  have own: "live (trace k1) = owned fd + live (trace k)"
    using Connect_settled[OF c, of "live (trace k)"] by (simp add: settled_def owned_def valid_def)
  obtain k2 fd2 where "live (trace k2) = live (trace k1)" "Socket_Close fd k2 = Some (fd2, k')"
    using assms c
    by (auto simp: SendRequest_def bind_eq_Some_conv
        dest!: SetReadWriteTimeout_live WriteAll_live read_response_live split: if_splits)
  then show ?thesis using own Socket_Close_live[of fd k2 fd2 k' "live (trace k)"] by simp
qed

section \<open>Results are well formed\<close>

text \<open>An error never carries an OK status, which \<^verbatim>\<open>StatusOr\<close> would refuse by terminating.\<close>

lemma Parse_wf:
  "wf_status_or (ParseContentLength s)" "wf_status_or (ParseChunkSize s)" "wf_status_or (parse_status_line s)"
  by (auto simp: ParseContentLength_def ParseChunkSize_def parse_status_line_def Let_def
      split: sum.splits prod.splits option.splits)

lemma ReadUntilClose_wf: "ReadUntilClose net fd b k = Some (res, k') \<Longrightarrow> wf_status_or res"
proof (induction net fd b k rule: ReadUntilClose.induct)
  case (1 net fd b k)
  then show ?case
    by (subst (asm) (2) ReadUntilClose.simps)
      (auto dest: Read_error split: if_splits option.splits prod.splits status_or.splits)
qed

lemma read_until_wf: "read_until net fd pat b k = Some (res, b', k') \<Longrightarrow> wf_status_or res"
proof (induction net fd pat b k rule: read_until.induct)
  case (1 net fd pat b k)
  then show ?case
    by (subst (asm) (2) read_until.simps) (auto split: if_splits option.splits prod.splits)
qed

lemma wf_status_or_error: "wf_status_or r \<Longrightarrow> r = Error st \<Longrightarrow> \<not> status_ok st"
  by simp

lemma read_chunk_wf:
  assumes "read_chunk net fd b k = Some (ChunkFailed st, b', k')"
  shows "\<not> status_ok st"
proof -
  obtain le b1 k1 where le: "read_until net fd CRLF b k = Some (le, b1, k1)"
    using assms by (auto simp: read_chunk_def bind_eq_Some_conv)
  note eq = assms[unfolded read_chunk_def le Option.bind.simps prod.case]
  show ?thesis
  proof (cases le)
    case (Error e)
    then show ?thesis using eq read_until_wf[OF le] by simp
  next
    case (Value n)
    show ?thesis
      using eq Value Parse_wf(2)[of "take n b1"]
      by (cases "ParseChunkSize (take n b1)") (auto simp: Let_def bind_eq_Some_conv split: if_splits)
  qed
qed

lemma ReadChunkedBody_wf: "ReadChunkedBody net fd body b k = Some (res, k') \<Longrightarrow> wf_status_or res"
proof (induction net fd body b k rule: ReadChunkedBody.induct)
  case (1 net fd body b k)
  then show ?case
    by (subst (asm) (2) ReadChunkedBody.simps)
      (auto dest: read_chunk_wf split: option.splits prod.splits chunk_step.splits)
qed

lemma read_body_wf: "read_body net fd hs b k = Some (res, k') \<Longrightarrow> wf_status_or res"
  by (auto simp: read_body_def ReadContentLengthBody_def bind_eq_Some_conv
      dest: ReadChunkedBody_wf ReadUntilClose_wf wf_status_or_error[OF Parse_wf(1)]
      split: option.splits if_splits status_or.splits)

lemma read_response_wf:
  assumes "read_response net fd k = Some (res, k')"
  shows "wf_status_or res"
proof -
  obtain he b k1 where he: "read_until net fd (CRLF @ CRLF) [] k = Some (he, b, k1)"
    using assms by (auto simp: read_response_def bind_eq_Some_conv)
  note eq = assms[unfolded read_response_def he Option.bind.simps prod.case]
  show ?thesis
  proof (cases he)
    case (Error st)
    then show ?thesis using eq read_until_wf[OF he] by auto
  next
    case (Value n)
    obtain sl hl where p: "(case find_str CRLF (take n b) of
        Some m \<Rightarrow> (take m (take n b), drop (m + 2) (take n b)) | None \<Rightarrow> (take n b, [])) = (sl, hl)"
      by fastforce
    note eq' = eq[unfolded Value status_or.case Let_def p prod.case]
    show ?thesis
    proof (cases "parse_status_line sl")
      case (Error st)
      then show ?thesis using eq' Parse_wf(3)[of sl] by auto
    next
      case (Value code)
      then obtain body k2 where r:
          "read_body net fd (parse_headers Map.empty hl) (drop (n + 4) b) k1 = Some (body, k2)"
        using eq' by (auto simp: bind_eq_Some_conv)
      show ?thesis using eq' Value r read_body_wf[OF r] by (cases body) auto
    qed
  qed
qed

lemma SendRequest_wf:
  assumes "SendRequest net client verb path body timeout k = Some (res, k')"
  shows "wf_status_or res"
  using assms
  by (auto simp: SendRequest_def bind_eq_Some_conv dest: read_response_wf split: if_splits)

section \<open>Properties\<close>

text \<open>C32. A response is read whole, however TCP cuts it and however often a receive is interrupted: for
  every status code, reason, header list and body, and for each of the three ways to delimit a
  body (chunked with extensions, by \<^verbatim>\<open>Content-Length\<close>, by closing), the client returns exactly the
  code, the headers under lower-case names with the first of repeated ones, and the body.\<close>

theorem http_response_round_trip:
  assumes "valid fd" "delivers ps tail k" "code \<le> INT_MAX" "CHR 0x0D \<notin> set reason"
    "\<forall>h\<in>set hs. wf_header h" "delivered ps = response_head code reason hs @ CRLF @ CRLF @ wire"
    "framed (header_map hs) body wire tail"
  shows "\<exists>k'. read_response net fd k =
    Some (Value \<lparr>status_code = int code, headers = header_map hs, http_body = body\<rparr>, k')"
  using assms by (rule read_response_delivers)

definition demo_headers :: "(string \<times> string) list" where
  "demo_headers = [(''Transfer-Encoding'', ''Chunked'')]"

definition demo_wire :: string where
  "demo_wire = encode_chunks [(''abc'', ''; x=1''), (''de'', [])]"

theorem http_response_round_trip_witness:
  "\<exists>k'. read_response demo_net 3
      \<lparr>script = piece_script (1, take 20 (response_head 200 ''OK'' demo_headers @ CRLF @ CRLF @ demo_wire)) @
         piece_script (0, drop 20 (response_head 200 ''OK'' demo_headers @ CRLF @ CRLF @ demo_wire)),
       trace = []\<rparr> =
    Some (Value \<lparr>status_code = 200, headers = header_map demo_headers, http_body = ''abcde''\<rparr>, k')"
proof -
  let ?t = "response_head 200 ''OK'' demo_headers @ CRLF @ CRLF @ demo_wire"
  let ?ps = "[(1, take 20 ?t), (0, drop 20 ?t)] :: (nat \<times> string) list"
  have "20 < length ?t" by (simp add: response_head_def join_lines_def demo_headers_def header_line_def)
  then have d: "delivers ?ps [] \<lparr>script = concat (map piece_script ?ps), trace = []\<rparr>"
    by (auto simp: delivers_def simp del: take_append drop_append)
  have "framed (header_map demo_headers) ''abcde'' demo_wire []"
    unfolding framed_def demo_wire_def
    by (auto simp: header_map_def demo_headers_def ToLower_def tolower_char_def wf_chunk_def char_of_def
        bit_Suc_0_iff intro!: exI[of _ "[(''abc'', ''; x=1''), (''de'', [])]"])
  moreover have "\<forall>h\<in>set demo_headers. wf_header h"
    by (simp add: demo_headers_def wf_header_def trimmed_def isspace_def)
  ultimately show ?thesis
    using http_response_round_trip[OF _ d, of 3 200 "''OK''" demo_headers demo_wire "''abcde''" demo_net]
    by (simp add: valid_def del: take_append drop_append)
qed

text \<open>An exchange with the agent leaves no descriptor behind: whatever the kernel and the peer do, on
  success and on every error, the descriptors open after a request are those open before it.\<close>

theorem send_request_closes:
  assumes "SendRequest net client verb path body timeout k = Some (res, k')"
  shows "live (trace k') = live (trace k)"
  using assms by (rule SendRequest_live)

theorem send_request_closes_witness:
  "\<exists>k'. SendRequest demo_net \<lparr>http_host = ''127.0.0.1'', http_port = 8500\<rparr> ''GET'' ''/'' [] 2000
      \<lparr>script = [sys_ok 7, sys_ok 2, sys_ok 0, sys_fail EINPROGRESS, sys_ok 0, sys_ok 0],
       trace = [(SysSocket, sys_ok 5)]\<rparr> =
    Some (Error (Status DeadlineExceeded ''connect timed out''), k') \<and> live (trace k') = {#5#}"
proof -
  let ?k = "\<lparr>script = [sys_ok 7, sys_ok 2, sys_ok 0, sys_fail EINPROGRESS, sys_ok 0, sys_ok 0],
       trace = [(SysSocket, sys_ok 5)]\<rparr> :: char kernel"
  have "\<exists>k'. SendRequest demo_net \<lparr>http_host = ''127.0.0.1'', http_port = 8500\<rparr> ''GET'' ''/'' [] 2000 ?k =
      Some (Error (Status DeadlineExceeded ''connect timed out''), k')"
    by (simp add: SendRequest_def Connect_def CreateSocket_def syscall_def valid_def sys_ok_def sys_fail_def
        ToAddress_def demo_net_def connect_loop.simps close_with_def Socket_Close_def EINPROGRESS_def
        EINTR_def)
  moreover have "live (trace ?k) = {#5#}" by (simp add: live_def sys_ok_def)
  ultimately show ?thesis using send_request_closes by metis
qed

end
