(* ===== verification/Consul.thy ===== *)
theory Consul
  imports Consul_Http
begin

text \<open>
  \<^verbatim>\<open>src/naming/consul/consul_discovery.cpp\<close> and \<^verbatim>\<open>src/naming/consul/consul_registrar.cpp\<close>, and the
  choice between static and Consul discovery in \<^verbatim>\<open>src/naming/service_discovery.cpp\<close>. The JSON
  library's parser and printer are the parameters \<open>json_env\<close>; its values are the type \<open>json\<close>.
\<close>

section \<open>JSON\<close>

text \<open>The library keeps literals without a sign as unsigned integers.\<close>

datatype json =
    JNull
  | JBool bool
  | JInteger int
  | JUnsigned nat
  | JFloat
  | JString string
  | JArray "json list"
  | JObject "(string \<times> json) list"

record json_env =
  json_parse :: "string \<Rightarrow> json option"
  json_dump :: "json \<Rightarrow> string"

definition member :: "string \<Rightarrow> json \<Rightarrow> json option" where
  "member key j = (case j of JObject kvs \<Rightarrow> map_of kvs key | _ \<Rightarrow> None)"

definition is_object :: "json \<Rightarrow> bool" where
  "is_object j = (case j of JObject _ \<Rightarrow> True | _ \<Rightarrow> False)"

section \<open>Health responses\<close>

definition HeaderValue :: "http_response \<Rightarrow> string \<Rightarrow> string" where
  "HeaderValue response name = (case headers response name of None \<Rightarrow> [] | Some v \<Rightarrow> v)"

definition ParseConsulIndex :: "http_response \<Rightarrow> nat" where
  "ParseConsulIndex response =
    (let value = HeaderValue response ''x-consul-index''
     in if value = [] then 0
        else case from_chars 10 SIZE_MAX value of
          Inl _ \<Rightarrow> 0
        | Inr (parsed, rest) \<Rightarrow> if rest \<noteq> [] then 0 else parsed)"

definition entry_address :: "string \<Rightarrow> json \<Rightarrow> string status_or" where
  "entry_address message j =
    (case member ''Address'' j of
       None \<Rightarrow> Value []
     | Some (JString s) \<Rightarrow> Value s
     | Some _ \<Rightarrow> Error (Status DataLoss message))"

definition entry_port :: "json \<Rightarrow> int status_or" where
  "entry_port service =
    (case member ''Port'' service of
       Some (JUnsigned n) \<Rightarrow> Value (if n \<le> 65535 then int n else 0)
     | Some (JInteger i) \<Rightarrow> Value i
     | _ \<Rightarrow> Error (Status DataLoss ''Consul health response contains an invalid service port''))"

text \<open>One turn of the loop over the entries; \<open>None\<close> is an entry without a usable address.\<close>

definition parse_entry :: "json \<Rightarrow> endpoint option status_or" where
  "parse_entry entry =
    (case (member ''Service'' entry, member ''Node'' entry) of
       (Some service, Some node) \<Rightarrow>
         if \<not> is_object service \<or> \<not> is_object node then
           Error (Status DataLoss ''Consul health response contains an invalid service entry'')
         else (case entry_address ''Consul health response contains an invalid service address'' service of
           Error st \<Rightarrow> Error st
         | Value service_host \<Rightarrow>
             (case (if service_host = []
                    then entry_address ''Consul health response contains an invalid node address'' node
                    else Value service_host) of
                Error st \<Rightarrow> Error st
              | Value host \<Rightarrow>
                  (case entry_port service of
                     Error st \<Rightarrow> Error st
                   | Value port \<Rightarrow>
                       if host = [] \<or> port \<le> 0 \<or> port > 65535 then Value None
                       else Value (Some (Endpoint host (of_int port))))))
     | _ \<Rightarrow> Error (Status DataLoss ''Consul health response contains an invalid service entry''))"

fun parse_entries :: "endpoint list \<Rightarrow> json list \<Rightarrow> endpoint list status_or" where
  "parse_entries endpoints [] = Value endpoints"
| "parse_entries endpoints (entry # entries) =
    (case parse_entry entry of
       Error st \<Rightarrow> Error st
     | Value None \<Rightarrow> parse_entries endpoints entries
     | Value (Some e) \<Rightarrow> parse_entries (endpoints @ [e]) entries)"

definition ParseEndpoints :: "json_env \<Rightarrow> string \<Rightarrow> endpoint list status_or" where
  "ParseEndpoints json body =
    (case json_parse json body of
       Some (JArray entries) \<Rightarrow>
         (case parse_entries [] entries of
            Error st \<Rightarrow> Error st
          | Value endpoints \<Rightarrow> Value (CanonicalizeEndpoints endpoints))
     | _ \<Rightarrow> Error (Status DataLoss ''Consul health response is not an array''))"

section \<open>Discovery\<close>

record consul_discovery =
  disc_service :: string
  disc_client :: consul_http_client
  disc_snapshot :: "endpoint list"
  last_error :: string
  last_index :: nat

definition ConsulDiscovery :: "string \<Rightarrow> consul_http_client \<Rightarrow> consul_discovery" where
  "ConsulDiscovery service client = \<lparr>disc_service = service, disc_client = client, disc_snapshot = [],
     last_error = [], last_index = 0\<rparr>"

definition SetSnapshot :: "endpoint list \<Rightarrow> nat \<Rightarrow> consul_discovery \<Rightarrow> consul_discovery" where
  "SetSnapshot endpoints index d =
    (let d = (if disc_snapshot d \<noteq> endpoints then d\<lparr>disc_snapshot := endpoints\<rparr> else d)
     in if index \<noteq> 0 then d\<lparr>last_index := index\<rparr> else d)"

definition SetLastError :: "string \<Rightarrow> consul_discovery \<Rightarrow> consul_discovery" where
  "SetLastError e d = d\<lparr>last_error := e\<rparr>"

text \<open>The durations, in milliseconds.\<close>

definition CONSUL_HTTP_TIMEOUT :: int where "CONSUL_HTTP_TIMEOUT = 2000"
definition CONSUL_QUERY_WAIT :: int where "CONSUL_QUERY_WAIT = 5000"

definition QueryPath :: "bool \<Rightarrow> consul_discovery \<Rightarrow> string" where
  "QueryPath use_blocking_query d =
    ''/v1/health/service/'' @ disc_service d @ ''?passing=true'' @
    (if use_blocking_query \<and> last_index d \<noteq> 0
     then ''&index='' @ to_string (last_index d) @ ''&wait=5s'' else [])"

definition Fetch ::
  "net_env \<Rightarrow> json_env \<Rightarrow> bool \<Rightarrow> consul_discovery \<Rightarrow> char kernel \<Rightarrow>
     (status \<times> consul_discovery \<times> char kernel) option" where
  "Fetch net json use_blocking_query d k = do {
     (result, k) \<leftarrow> Http_Get net (disc_client d) (QueryPath use_blocking_query d)
       (if use_blocking_query then CONSUL_QUERY_WAIT + CONSUL_HTTP_TIMEOUT else CONSUL_HTTP_TIMEOUT) k;
     Some (case result of
         Error st \<Rightarrow> (st, SetLastError (st_message st) d, k)
       | Value response \<Rightarrow>
           if status_code response < 200 \<or> status_code response \<ge> 300 then
             let e = ''Consul request failed with HTTP status '' @ to_string_int (status_code response)
             in (Status Unavailable e, SetLastError e d, k)
           else (case ParseEndpoints json (http_body response) of
               Error st \<Rightarrow> (st, SetLastError (st_message st) d, k)
             | Value endpoints \<Rightarrow>
                 (status_Ok, SetLastError [] (SetSnapshot endpoints (ParseConsulIndex response) d), k)))
   }"

text \<open>The refresh thread; \<open>stops\<close> are the values its stop token takes at the head of the loop, after
  the last of which it is not scheduled any more.\<close>

fun RefreshLoop ::
  "net_env \<Rightarrow> json_env \<Rightarrow> bool list \<Rightarrow> consul_discovery \<Rightarrow> char kernel \<Rightarrow> (consul_discovery \<times> char kernel) option" where
  "RefreshLoop net json [] d k = Some (d, k)"
| "RefreshLoop net json (stop # stops) d k =
    (if stop then Some (d, k)
     else case Fetch net json True d k of
       None \<Rightarrow> None
     | Some (st, d', k') \<Rightarrow> RefreshLoop net json stops d' k')"

text \<open>\<^verbatim>\<open>Start\<close> starts the refresh thread also when the first fetch has failed.\<close>

definition Discovery_Start ::
  "net_env \<Rightarrow> json_env \<Rightarrow> bool list \<Rightarrow> consul_discovery \<Rightarrow> char kernel \<Rightarrow>
     (status \<times> consul_discovery \<times> char kernel) option" where
  "Discovery_Start net json stops d k = do {
     (st, d, k) \<leftarrow> Fetch net json False d k;
     (d, k) \<leftarrow> RefreshLoop net json stops d k;
     Some (st, d, k)
   }"

datatype discovery = StaticDiscovery "endpoint list" | Consul consul_discovery

abbreviation CONSUL_SCHEME :: string where
  "CONSUL_SCHEME \<equiv> ''consul://''"

definition starts_with :: "string \<Rightarrow> string \<Rightarrow> bool" where
  "starts_with pre s \<longleftrightarrow> take (length pre) s = pre"

definition MakeServiceDiscovery :: "string \<Rightarrow> string \<Rightarrow> discovery status_or" where
  "MakeServiceDiscovery target consul_address =
    (let target = Trim target in
     if starts_with LIST_SCHEME target then
       (case ParseListTarget target of
          Error st \<Rightarrow> Error st
        | Value endpoints \<Rightarrow> Value (StaticDiscovery endpoints))
     else if starts_with CONSUL_SCHEME target then
       let service_name = Trim (drop (length CONSUL_SCHEME) target)
       in if service_name = [] then
            Error (Status InvalidArgument ''consul target requires a service name'')
          else (case Http_Create consul_address of
                  Error st \<Rightarrow> Error st
                | Value client \<Rightarrow> Value (Consul (ConsulDiscovery service_name client)))
     else Error (Status InvalidArgument ''unsupported RpcClient target scheme''))"

section \<open>The registrar\<close>

record registrar_options =
  opt_service_name :: string
  opt_service_id :: string
  opt_service_address :: string
  opt_service_port :: u16

record consul_registrar =
  reg_client :: consul_http_client
  registered :: bool
  registered_service_id :: string

definition ValidateOptions :: "registrar_options \<Rightarrow> status" where
  "ValidateOptions opts =
    (if opt_service_name opts = [] then
       Status InvalidArgument ''ConsulRegistrar service_name must not be empty''
     else if opt_service_id opts = [] then
       Status InvalidArgument ''ConsulRegistrar service_id must not be empty''
     else if opt_service_address opts = [] then
       Status InvalidArgument ''ConsulRegistrar service_address must not be empty''
     else if opt_service_port opts = 0 then
       Status InvalidArgument ''ConsulRegistrar service_port must be non-zero''
     else status_Ok)"

text \<open>The library keeps the members of an object sorted by name.\<close>

definition BuildRegisterPayload :: "json_env \<Rightarrow> registrar_options \<Rightarrow> string" where
  "BuildRegisterPayload json opts = json_dump json (JObject
     [(''Address'', JString (opt_service_address opts)),
      (''Check'', JObject
        [(''Interval'', JString ''5s''),
         (''Name'', JString ''xRPC TCP health check''),
         (''TCP'', JString (opt_service_address opts @ '':'' @ to_string (unat (opt_service_port opts)))),
         (''Timeout'', JString ''1s'')]),
      (''ID'', JString (opt_service_id opts)),
      (''Name'', JString (opt_service_name opts)),
      (''Port'', JUnsigned (unat (opt_service_port opts)))])"

definition HandleAgentWriteResponse :: "http_response status_or \<Rightarrow> status" where
  "HandleAgentWriteResponse response =
    (case response of
       Error st \<Rightarrow> st
     | Value r \<Rightarrow>
         if status_code r < 200 \<or> status_code r \<ge> 300 then
           Status Unavailable (''Consul agent request failed with HTTP status '' @ to_string_int (status_code r))
         else status_Ok)"

definition Registrar_Register ::
  "net_env \<Rightarrow> json_env \<Rightarrow> registrar_options \<Rightarrow> consul_registrar \<Rightarrow> char kernel \<Rightarrow>
     (status \<times> consul_registrar \<times> char kernel) option" where
  "Registrar_Register net json opts reg k =
    (if \<not> status_ok (ValidateOptions opts) then Some (ValidateOptions opts, reg, k)
     else do {
       (response, k) \<leftarrow> Http_Put net (reg_client reg)
         ''/v1/agent/service/register?replace-existing-checks=true'' (BuildRegisterPayload json opts)
         CONSUL_HTTP_TIMEOUT k;
       let st = HandleAgentWriteResponse response;
       Some (if \<not> status_ok st then (st, reg, k)
             else (status_Ok, reg\<lparr>registered := True, registered_service_id := opt_service_id opts\<rparr>, k))
     })"

definition Deregister ::
  "net_env \<Rightarrow> consul_registrar \<Rightarrow> char kernel \<Rightarrow> (status \<times> consul_registrar \<times> char kernel) option" where
  "Deregister net reg k =
    (if \<not> registered reg then Some (status_Ok, reg, k)
     else do {
       (response, k) \<leftarrow> Http_Put net (reg_client reg)
         (''/v1/agent/service/deregister/'' @ registered_service_id reg) [] CONSUL_HTTP_TIMEOUT k;
       let st = HandleAgentWriteResponse response;
       Some (if \<not> status_ok st then (st, reg, k)
             else (status_Ok, reg\<lparr>registered := False, registered_service_id := []\<rparr>, k))
     })"

section \<open>What discovery publishes\<close>

definition usable :: "endpoint \<Rightarrow> bool" where
  "usable e \<longleftrightarrow> ep_host e \<noteq> [] \<and> ep_port e \<noteq> 0"

text \<open>The contract of the interface \<^verbatim>\<open>ServiceDiscovery\<close> towards its client: a snapshot is in canonical
  order and holds endpoints one can connect to.\<close>

locale service_discovery =
  fixes snapshot_of :: "'d \<Rightarrow> endpoint list" and reachable :: "'d \<Rightarrow> bool"
  assumes canonical: "reachable d \<Longrightarrow> sorted_wrt (<) (snapshot_of d)"
    and connectable: "reachable d \<Longrightarrow> e \<in> set (snapshot_of d) \<Longrightarrow> usable e"
begin

lemma snapshot_distinct: "reachable d \<Longrightarrow> distinct (snapshot_of d)"
  using canonical strict_sorted_iff by blast

text \<open>So comparing two snapshots as vectors compares the sets of members.\<close>

lemma same_snapshot:
  "reachable d \<Longrightarrow> reachable d' \<Longrightarrow> snapshot_of d = snapshot_of d' \<longleftrightarrow> set (snapshot_of d) = set (snapshot_of d')"
  using strict_sorted_equal[OF canonical[of d'] canonical[of d]] by auto

end

lemma parse_entry_usable: "parse_entry j = Value (Some e) \<Longrightarrow> usable e"
proof -
  assume a: "parse_entry j = Value (Some e)"
  then obtain host port where e: "e = Endpoint host (of_int port)" "host \<noteq> []" "0 < port" "port \<le> 65535"
    by (auto simp: parse_entry_def not_le not_less split: option.splits prod.splits if_splits status_or.splits)
  have "uint (of_int port :: u16) = port" using e(3,4) by (simp add: uint_word_of_int take_bit_eq_mod)
  then show ?thesis using e by (auto simp: usable_def)
qed

lemma parse_entries_usable:
  "parse_entries acc js = Value eps \<Longrightarrow> \<forall>e\<in>set acc. usable e \<Longrightarrow> \<forall>e\<in>set eps. usable e"
proof (induction acc js rule: parse_entries.induct)
  case (2 acc j js)
  show ?case
  proof (cases "parse_entry j")
    case (Error st)
    then show ?thesis using 2 by simp
  next
    case v: (Value oe)
    show ?thesis
    proof (cases oe)
      case None
      then show ?thesis using 2 v by simp
    next
      case (Some e)
      have "\<forall>e'\<in>set (acc @ [e]). usable e'" using 2 parse_entry_usable[of j e] v Some by simp
      then show ?thesis using 2(2)[OF v Some] 2(3) v Some by simp
    qed
  qed
qed simp

lemma entry_parts_wf: "wf_status_or (entry_address m j)" "wf_status_or (entry_port j)"
  by (auto simp: entry_address_def entry_port_def split: option.splits json.splits)

lemma parse_entry_wf: "wf_status_or (parse_entry j)"
  using wf_status_or_error[OF entry_parts_wf(1)] wf_status_or_error[OF entry_parts_wf(2)]
  by (auto simp: parse_entry_def split: option.splits status_or.splits if_splits)

lemma parse_entries_wf: "wf_status_or (parse_entries acc js)"
proof (induction acc js rule: parse_entries.induct)
  case (2 acc j js)
  then show ?case using wf_status_or_error[OF parse_entry_wf] by (auto split: status_or.splits option.splits)
qed simp

definition canonical_endpoints :: "endpoint list \<Rightarrow> bool" where
  "canonical_endpoints eps \<longleftrightarrow> sorted_wrt (<) eps \<and> (\<forall>e\<in>set eps. usable e)"

lemma ParseEndpoints_canonical: "ParseEndpoints json body = Value eps \<Longrightarrow> canonical_endpoints eps"
  by (auto simp: ParseEndpoints_def CanonicalizeEndpoints_set canonical_endpoints_def
      strict_sorted_list_of_set dest: parse_entries_usable
      split: option.splits json.splits status_or.splits)

lemma ParseEndpoints_wf: "wf_status_or (ParseEndpoints json body)"
  using wf_status_or_error[OF parse_entries_wf]
  by (auto simp: ParseEndpoints_def split: option.splits json.splits status_or.splits)

text \<open>One fetch: a failure keeps the snapshot and the index and records its message, a success
  publishes a canonical list.\<close>

definition fetched :: "consul_discovery \<Rightarrow> status \<Rightarrow> consul_discovery \<Rightarrow> bool" where
  "fetched d st d' \<longleftrightarrow>
    (if status_ok st then
       (\<exists>eps i. canonical_endpoints eps \<and> (i = last_index d \<or> i \<noteq> 0) \<and>
          d' = d\<lparr>disc_snapshot := eps, last_error := [], last_index := i\<rparr>)
     else d' = d\<lparr>last_error := st_message st\<rparr>)"

lemma SetSnapshot_fields:
  "SetLastError e (SetSnapshot eps i d) = d\<lparr>disc_snapshot := eps, last_error := e,
     last_index := if i = 0 then last_index d else i\<rparr>"
  by (cases d) (simp add: SetSnapshot_def SetLastError_def Let_def)

lemma Fetch_fetched:
  assumes "Fetch net json b d k = Some (st, d', k')"
  shows "fetched d st d' \<and> live (trace k') = live (trace k)"
proof -
  obtain res k1 where r: "Http_Get net (disc_client d) (QueryPath b d)
      (if b then CONSUL_QUERY_WAIT + CONSUL_HTTP_TIMEOUT else CONSUL_HTTP_TIMEOUT) k = Some (res, k1)"
    using assms by (auto simp: Fetch_def bind_eq_Some_conv)
  note eq = assms[unfolded Fetch_def r Option.bind.simps prod.case]
  have live: "live (trace k1) = live (trace k)" using SendRequest_live r unfolding Http_Get_def by blast
  have wf: "wf_status_or res" using SendRequest_wf r unfolding Http_Get_def by blast
  show ?thesis
  proof (cases res)
    case (Error e)
    then show ?thesis using eq wf live by (auto simp: fetched_def SetLastError_def)
  next
    case (Value response)
    show ?thesis
    proof (cases "status_code response < 200 \<or> status_code response \<ge> 300")
      case True
      then show ?thesis using eq Value live by (auto simp: fetched_def SetLastError_def Let_def)
    next
      case False
      show ?thesis
      proof (cases "ParseEndpoints json (http_body response)")
        case (Error e)
        then show ?thesis
          using eq Value False live ParseEndpoints_wf[of json "http_body response"]
          by (auto simp: fetched_def SetLastError_def)
      next
        case eps: (Value eps)
        define i where "i = (if ParseConsulIndex response = 0 then last_index d else ParseConsulIndex response)"
        have i: "i = last_index d \<or> i \<noteq> 0" by (simp add: i_def)
        have "st = status_Ok" "k' = k1" "d' = d\<lparr>disc_snapshot := eps, last_error := [], last_index := i\<rparr>"
          using eq eps Value False by (auto simp: SetSnapshot_fields i_def)
        then show ?thesis
          using live ParseEndpoints_canonical[OF eps] i by (simp only: fetched_def status_ok_Ok if_True) blast
      qed
    qed
  qed
qed

text \<open>The states a Consul discovery passes through.\<close>

inductive consul_reach :: "net_env \<Rightarrow> json_env \<Rightarrow> consul_discovery \<Rightarrow> bool" for net json where
  consul_new: "consul_reach net json (ConsulDiscovery service client)"
| consul_fetch: "consul_reach net json d \<Longrightarrow> Fetch net json b d k = Some (st, d', k') \<Longrightarrow>
    consul_reach net json d'"

lemma consul_reach_canonical: "consul_reach net json d \<Longrightarrow> canonical_endpoints (disc_snapshot d)"
proof (induction rule: consul_reach.induct)
  case (consul_new service client)
  then show ?case by (simp add: ConsulDiscovery_def canonical_endpoints_def)
next
  case (consul_fetch d b k st d' k')
  then show ?case
    using Fetch_fetched[OF consul_fetch(2)] by (cases "status_ok st") (auto simp: fetched_def)
qed

interpretation consul: service_discovery disc_snapshot "consul_reach net json" for net json
  using consul_reach_canonical by unfold_locales (auto simp: canonical_endpoints_def)

lemma ParseListTarget_Value:
  "ParseListTarget t = Value eps \<Longrightarrow>
     \<exists>es. parse_list [] (drop (length LIST_SCHEME) t) = Value es \<and> eps = CanonicalizeEndpoints es"
  by (cases "parse_list [] (drop (length LIST_SCHEME) t)") (auto simp: ParseListTarget_def split: if_splits)

interpretation static: service_discovery "\<lambda>eps. eps" "\<lambda>eps. \<exists>t. ParseListTarget t = Value eps"
proof
  fix eps assume "\<exists>t. ParseListTarget t = Value eps"
  then obtain t es where t: "parse_list [] (drop (length LIST_SCHEME) t) = Value es"
      "eps = CanonicalizeEndpoints es"
    using ParseListTarget_Value by blast
  show "sorted_wrt (<) eps" using t(2) by (simp add: CanonicalizeEndpoints_set strict_sorted_list_of_set)
  show "usable e" if "e \<in> set eps" for e
    using that t(2) parse_list_wf[OF t(1)] by (auto simp: CanonicalizeEndpoints_set usable_def wf_endpoint_def)
qed

text \<open>A request to the agent, and what the registrar makes of its answer.\<close>

lemma Http_Put_live: "Http_Put net client path body t k = Some (r, k') \<Longrightarrow> live (trace k') = live (trace k)"
  unfolding Http_Put_def by (rule SendRequest_live)

lemma Register_record:
  assumes "Registrar_Register net json opts reg k = Some (st, reg', k')"
  shows "live (trace k') = live (trace k) \<and>
    (if status_ok st then status_ok (ValidateOptions opts) \<and>
       reg' = reg\<lparr>registered := True, registered_service_id := opt_service_id opts\<rparr>
     else reg' = reg)"
proof (cases "status_ok (ValidateOptions opts)")
  case True
  then obtain r where "Http_Put net (reg_client reg) ''/v1/agent/service/register?replace-existing-checks=true''
      (BuildRegisterPayload json opts) CONSUL_HTTP_TIMEOUT k = Some (r, k')"
    using assms by (auto simp: Registrar_Register_def Let_def bind_eq_Some_conv split: if_splits)
  then show ?thesis
    using assms True Http_Put_live by (simp add: Registrar_Register_def Let_def split: if_splits)
qed (use assms in \<open>simp add: Registrar_Register_def\<close>)

lemma Deregister_record:
  assumes "Deregister net reg k = Some (st, reg', k')"
  shows "live (trace k') = live (trace k) \<and>
    (if \<not> registered reg then st = status_Ok \<and> reg' = reg \<and> k' = k
     else if status_ok st then reg' = reg\<lparr>registered := False, registered_service_id := []\<rparr>
     else reg' = reg)"
proof (cases "registered reg")
  case True
  then obtain r where "Http_Put net (reg_client reg)
      (''/v1/agent/service/deregister/'' @ registered_service_id reg) [] CONSUL_HTTP_TIMEOUT k = Some (r, k')"
    using assms by (auto simp: Deregister_def Let_def bind_eq_Some_conv split: if_splits)
  then show ?thesis
    using assms True Http_Put_live by (simp add: Deregister_def Let_def split: if_splits)
qed (use assms in \<open>simp add: Deregister_def\<close>)

lemma ValidateOptions_ok:
  "status_ok (ValidateOptions opts) \<longleftrightarrow> opt_service_name opts \<noteq> [] \<and> opt_service_id opts \<noteq> [] \<and>
     opt_service_address opts \<noteq> [] \<and> opt_service_port opts \<noteq> 0"
  by (simp add: ValidateOptions_def)

section \<open>Properties\<close>

text \<open>C33. Consul discovery: every published snapshot is strictly sorted and holds only endpoints with a
  host and a port, so that comparing two snapshots as vectors compares their members. A fetch that
  fails keeps the published snapshot and the query index and records its message; one that
  succeeds clears the error and never forgets an index. No fetch leaves a descriptor open.\<close>

theorem consul_fetch_outcome:
  assumes "consul_reach net json d" "Fetch net json blocking d k = Some (st, d', k')"
  shows "fetched d st d' \<and> sorted_wrt (<) (disc_snapshot d') \<and> list_all usable (disc_snapshot d') \<and>
    (disc_snapshot d' = disc_snapshot d \<longleftrightarrow> set (disc_snapshot d') = set (disc_snapshot d)) \<and>
    live (trace k') = live (trace k)"
proof -
  have d': "consul_reach net json d'" using assms by (rule consul_fetch)
  show ?thesis
    using Fetch_fetched[OF assms(2)] consul.canonical[OF d'] consul.connectable[OF d']
      consul.same_snapshot[OF d' assms(1)] by (auto simp: list_all_iff)
qed

definition demo_json :: json_env where
  "demo_json = \<lparr>json_parse = (\<lambda>s. None), json_dump = (\<lambda>j. ''{}'')\<rparr>"

definition demo_client :: consul_http_client where
  "demo_client = \<lparr>http_host = ''127.0.0.1'', http_port = 8500\<rparr>"

definition demo_timeout_kernel :: "char kernel" where
  "demo_timeout_kernel = \<lparr>script = [sys_ok 7, sys_ok 2, sys_ok 0, sys_fail EINPROGRESS, sys_ok 0, sys_ok 0],
     trace = [(SysSocket, sys_ok 5)]\<rparr>"

lemma demo_request_times_out:
  "\<exists>k'. SendRequest demo_net demo_client verb path body 2000 demo_timeout_kernel =
     Some (Error (Status DeadlineExceeded ''connect timed out''), k')"
  by (simp add: demo_client_def demo_timeout_kernel_def SendRequest_def Connect_def CreateSocket_def
      syscall_def valid_def sys_ok_def sys_fail_def ToAddress_def demo_net_def connect_loop.simps
      close_with_def Socket_Close_def EINPROGRESS_def EINTR_def)

theorem consul_fetch_outcome_witness:
  "\<exists>d' k'. Fetch demo_net demo_json False (ConsulDiscovery ''echo'' demo_client) demo_timeout_kernel =
      Some (Status DeadlineExceeded ''connect timed out'', d', k') \<and>
    disc_snapshot d' = [] \<and> last_error d' = ''connect timed out''"
proof -
  let ?d = "ConsulDiscovery ''echo'' demo_client"
  have "disc_client ?d = demo_client" by (simp add: ConsulDiscovery_def)
  then obtain d' k' where f: "Fetch demo_net demo_json False ?d demo_timeout_kernel =
      Some (Status DeadlineExceeded ''connect timed out'', d', k')"
    using demo_request_times_out[of "''GET''" "QueryPath False ?d" "[]"]
    by (auto simp: Fetch_def Http_Get_def CONSUL_HTTP_TIMEOUT_def)
  then show ?thesis
    using consul_fetch_outcome[OF consul_new f] by (auto simp: fetched_def ConsulDiscovery_def)
qed



end
