(* ===== verification/Tcp_Transport.thy ===== *)
theory Tcp_Transport
  imports Frame_Codec Socket
begin

text \<open>
  \<^verbatim>\<open>src/client/tcp_transport.cpp\<close>: one multiplexed connection to an endpoint, used by many calling
  threads and read by one reader thread per connection. A step of a thread is what it does inside
  one critical section, or between two system calls. Clock readings, connect results and the
  results of \<^verbatim>\<open>send\<close> and \<^verbatim>\<open>recv\<close> are inputs of the steps; waiting on a condition variable or for a
  thread to end is a guard.
\<close>

section \<open>Results of an attempt\<close>

datatype commit_state = NotSent | MaybeSent

record call_failure =
  fail_status :: status
  fail_commit :: commit_state

datatype call_attempt_result = CallResponse response_envelope | CallFailed call_failure

definition MakeCallFailure :: "status \<Rightarrow> commit_state \<Rightarrow> call_attempt_result" where
  "MakeCallFailure st commit = CallFailed \<lparr>fail_status = st, fail_commit = commit\<rparr>"

definition HasResponse :: "call_attempt_result \<Rightarrow> bool" where
  "HasResponse r = (case r of CallResponse _ \<Rightarrow> True | CallFailed _ \<Rightarrow> False)"

definition CanRetryWithoutDuplicateRequest :: "call_attempt_result \<Rightarrow> bool" where
  "CanRetryWithoutDuplicateRequest r =
    (case r of CallResponse _ \<Rightarrow> False | CallFailed f \<Rightarrow> fail_commit f = NotSent)"

definition MustStopRetryToAvoidDuplicateRequest :: "call_attempt_result \<Rightarrow> bool" where
  "MustStopRetryToAvoidDuplicateRequest r =
    (case r of CallResponse _ \<Rightarrow> False | CallFailed f \<Rightarrow> fail_commit f = MaybeSent)"

section \<open>Statuses and deadlines\<close>

definition TimeoutStatus :: "string \<Rightarrow> status" where
  "TimeoutStatus action = Status DeadlineExceeded (action @ '' timed out'')"

definition IoStatus :: "net_env \<Rightarrow> string \<Rightarrow> int \<Rightarrow> status" where
  "IoStatus net action e =
    (if e = EAGAIN then TimeoutStatus action
     else Status Unavailable (MakeSystemErrorMessage net action e))"

definition PeerClosedStatus :: "string \<Rightarrow> status" where
  "PeerClosedStatus action = Status Unavailable (action @ '' failed: peer closed connection'')"

text \<open>Time points in nanoseconds; \<^verbatim>\<open>duration_cast\<close> to milliseconds truncates towards zero.\<close>

definition RemainingTimeout :: "int option \<Rightarrow> int \<Rightarrow> int" where
  "RemainingTimeout deadline now =
    (case deadline of
       None \<Rightarrow> 0
     | Some d \<Rightarrow> max (sgn (d - now) * (\<bar>d - now\<bar> div 1000000)) 1)"

definition DeadlineExpired :: "int option \<Rightarrow> int \<Rightarrow> bool" where
  "DeadlineExpired deadline now = (case deadline of None \<Rightarrow> False | Some d \<Rightarrow> now \<ge> d)"

section \<open>Sending a frame\<close>

definition SetSendTimeout :: "net_env \<Rightarrow> byte sysret \<Rightarrow> status option" where
  "SetSendTimeout net r =
    (if ret r < 0 then Some (IoStatus net ''setsockopt(SO_SNDTIMEO)'' (errno r)) else None)"

text \<open>One turn of the loop of \<^verbatim>\<open>SendAll\<close>: the number of bytes written and whether this is a retry, the
  clock, and the results of the two system calls of the turn.\<close>

datatype send_outcome = AllSent | SendMore nat bool | SendFailed status

definition SendAll_step ::
  "net_env \<Rightarrow> int option \<Rightarrow> int \<Rightarrow> byte sysret \<Rightarrow> byte sysret \<Rightarrow> bytes \<Rightarrow> nat \<Rightarrow> bool \<Rightarrow> send_outcome" where
  "SendAll_step net deadline now timeo r frame written retrying =
    (if \<not> written < length frame then AllSent
     else if retrying \<and> deadline \<noteq> None \<and> DeadlineExpired deadline now then SendFailed (TimeoutStatus ''send'')
     else if retrying \<and> deadline \<noteq> None \<and> SetSendTimeout net timeo \<noteq> None then
       SendFailed (the (SetSendTimeout net timeo))
     else if ret r > 0 then
       SendMore (written + nat (ret r)) (written + nat (ret r) < length frame)
     else if ret r = 0 then SendFailed (PeerClosedStatus ''send'')
     else if errno r = EINTR then SendMore written True
     else SendFailed (IoStatus net ''send'' (errno r)))"

section \<open>State\<close>

text \<open>Where a call is. \<open>CJoin\<close>, \<open>CReplace\<close> and \<open>CCloseJoin\<close> wait for a reader thread, \<open>CReplace\<close> with
  \<^verbatim>\<open>state_mutex_\<close> held: assigning the new thread to \<^verbatim>\<open>reader_thread_\<close> joins one still there; from \<open>CWriteCheck\<close> to
  \<open>CCloseJoin\<close> the call holds \<^verbatim>\<open>write_mutex_\<close>; \<open>CPublishAll\<close> holds the pending calls it has taken and
  has still to complete.\<close>

datatype call_pc =
    CStart
  | CEnsure
  | CJoin nat
  | CConnect
  | CReplace int
  | CRegister
  | CLock
  | CWriteCheck
  | CFailWrite call_failure
  | CSending int nat bool
  | CSendFailed status
  | CClose status
  | CTake status "nat option"
  | CPublishAll "nat list" status "nat option"
  | CCloseJoin status "nat option"
  | CWait
  | CUnregister
  | CWaitOwner
  | CDone call_attempt_result

text \<open>A call with its \<^verbatim>\<open>PendingCall\<close>, whose \<^verbatim>\<open>result_\<close> is \<open>call_slot\<close>. \<open>taken_bytes\<close> is history: how many
  bytes of the frame the kernel has taken.\<close>

record call =
  call_request :: request_envelope
  call_deadline :: "int option"
  call_pc :: call_pc
  call_frame :: bytes
  call_slot :: "call_attempt_result option"
  taken_bytes :: nat

datatype reader_pc =
    RDecode
  | RRecv
  | RComplete response_envelope nat
  | RPublish nat response_envelope nat
  | RClose status
  | RTake status
  | RPublishAll "nat list" status
  | RDone

record reader =
  rd_fd :: int
  rd_pc :: reader_pc
  rd_buffer :: bytes

text \<open>The transport, its calls and its readers. \<open>pending_calls\<close> is the map from request ids to pending
  calls. A reader is also the generation of its connection; \<open>tr_generation\<close> is history: the reader
  started with the current socket. \<open>write_owner\<close> and \<open>state_owner\<close> are the calls that hold
  \<^verbatim>\<open>write_mutex_\<close> and \<^verbatim>\<open>state_mutex_\<close> between steps. \<open>slot_overwritten\<close> records a result that replaces another.\<close>

record transport =
  tr_socket :: int
  tr_reader :: "nat option"
  tr_generation :: nat
  pending_calls :: "(u64 \<times> nat) list"
  max_inflight_per_endpoint :: nat
  tr_limits :: protocol_limits
  write_owner :: "nat option"
  state_owner :: "nat option"
  calls :: "call list"
  readers :: "reader list"
  slot_overwritten :: bool

definition TcpTransport :: "protocol_limits \<Rightarrow> nat \<Rightarrow> transport" where
  "TcpTransport plimits m = \<lparr>tr_socket = - 1, tr_reader = None, tr_generation = 0, pending_calls = [],
     max_inflight_per_endpoint = m, tr_limits = plimits, write_owner = None, state_owner = None, calls = [], readers = [],
     slot_overwritten = False\<rparr>"

definition set_call :: "nat \<Rightarrow> (call \<Rightarrow> call) \<Rightarrow> transport \<Rightarrow> transport" where
  "set_call c f s = s\<lparr>calls := (calls s)[c := f (calls s ! c)]\<rparr>"

definition set_reader :: "nat \<Rightarrow> (reader \<Rightarrow> reader) \<Rightarrow> transport \<Rightarrow> transport" where
  "set_reader i f s = s\<lparr>readers := (readers s)[i := f (readers s ! i)]\<rparr>"

abbreviation goto_pc :: "nat \<Rightarrow> call_pc \<Rightarrow> transport \<Rightarrow> transport" where
  "goto_pc c pc \<equiv> set_call c (\<lambda>cl. cl\<lparr>call_pc := pc\<rparr>)"

abbreviation reader_goto :: "nat \<Rightarrow> reader_pc \<Rightarrow> transport \<Rightarrow> transport" where
  "reader_goto i pc \<equiv> set_reader i (\<lambda>rd. rd\<lparr>rd_pc := pc\<rparr>)"

section \<open>Critical sections\<close>

definition CloseSocketLocked :: "transport \<Rightarrow> transport" where
  "CloseSocketLocked s = (if \<not> valid (tr_socket s) then s else s\<lparr>tr_socket := - 1\<rparr>)"

definition TryRegisterPending :: "u64 \<Rightarrow> nat \<Rightarrow> transport \<Rightarrow> bool \<times> transport" where
  "TryRegisterPending i c s =
    (if length (pending_calls s) \<ge> max_inflight_per_endpoint s then (False, s)
     else (True, s\<lparr>pending_calls := (i, c) # filter (\<lambda>e. fst e \<noteq> i) (pending_calls s)\<rparr>))"

definition TryUnregisterPending :: "u64 \<Rightarrow> transport \<Rightarrow> bool \<times> transport" where
  "TryUnregisterPending i s =
    (map_of (pending_calls s) i \<noteq> None, s\<lparr>pending_calls := filter (\<lambda>e. fst e \<noteq> i) (pending_calls s)\<rparr>)"

text \<open>The second section of \<^verbatim>\<open>CompletePending\<close> and the body of the loop of \<^verbatim>\<open>FailAllPending\<close>.\<close>

definition publish :: "nat \<Rightarrow> call_attempt_result \<Rightarrow> transport \<Rightarrow> transport" where
  "publish c r s =
    (let s = s\<lparr>slot_overwritten := slot_overwritten s \<or> call_slot (calls s ! c) \<noteq> None\<rparr>
     in set_call c (\<lambda>cl. cl\<lparr>call_slot := Some r\<rparr>) s)"

text \<open>The first section of \<^verbatim>\<open>FailAllPending\<close>.\<close>

definition take_all_pending :: "transport \<Rightarrow> nat list \<times> transport" where
  "take_all_pending s = (map snd (pending_calls s), s\<lparr>pending_calls := []\<rparr>)"

definition reader_ended :: "transport \<Rightarrow> nat option \<Rightarrow> bool" where
  "reader_ended s rd = (case rd of None \<Rightarrow> True | Some r \<Rightarrow> rd_pc (readers s ! r) = RDone)"

definition start_reader :: "int \<Rightarrow> transport \<Rightarrow> transport" where
  "start_reader fd s = s\<lparr>tr_reader := Some (length (readers s)), tr_generation := length (readers s),
     readers := readers s @ [\<lparr>rd_fd = fd, rd_pc = RDecode, rd_buffer = []\<rparr>]\<rparr>"

text \<open>\<^verbatim>\<open>EnsureConnectedWithTimeout\<close> from line 189 on.\<close>

definition connect_section :: "status + int \<Rightarrow> nat \<Rightarrow> transport \<Rightarrow> transport" where
  "connect_section outcome c s =
    (if valid (tr_socket s) then goto_pc c CRegister s
     else case outcome of
       Inl st \<Rightarrow> goto_pc c (CDone (MakeCallFailure st NotSent)) s
     | Inr fd \<Rightarrow>
         if reader_ended s (tr_reader s) then goto_pc c CRegister (start_reader fd (s\<lparr>tr_socket := fd\<rparr>))
         else goto_pc c (CReplace fd) (s\<lparr>tr_socket := fd, state_owner := Some c\<rparr>))"

section \<open>Steps\<close>

text \<open>The inputs of a step: the clock, the outcome of \<^verbatim>\<open>Socket::Connect\<close> and the results of
  \<^verbatim>\<open>setsockopt\<close>, \<^verbatim>\<open>send\<close> and \<^verbatim>\<open>recv\<close>.\<close>

record step_input =
  in_now :: int
  in_connect :: "status + int"
  in_timeo :: "byte sysret"
  in_io :: "byte sysret"

text \<open>\<^verbatim>\<open>Call\<close> up to \<^verbatim>\<open>EnsureConnectedWithTimeout\<close>.\<close>

definition call_begin :: "codec_env \<Rightarrow> int \<Rightarrow> nat \<Rightarrow> transport \<Rightarrow> transport" where
  "call_begin env now c s =
    (let cl = calls s ! c in
     case Encode_request env (tr_limits s) (call_request cl) of
       Error st \<Rightarrow> goto_pc c (CDone (MakeCallFailure st NotSent)) s
     | Value frame \<Rightarrow>
         if DeadlineExpired (call_deadline cl) now then
           goto_pc c (CDone (MakeCallFailure (Status DeadlineExceeded ''RPC deadline exceeded'') NotSent)) s
         else set_call c (\<lambda>cl. cl\<lparr>call_frame := frame, call_pc := CEnsure\<rparr>) s)"

definition write_check :: "net_env \<Rightarrow> step_input \<Rightarrow> nat \<Rightarrow> transport \<Rightarrow> transport" where
  "write_check net inp c s =
    (if DeadlineExpired (call_deadline (calls s ! c)) (in_now inp) then
       goto_pc c (CFailWrite \<lparr>fail_status = Status DeadlineExceeded ''RPC deadline exceeded'',
         fail_commit = NotSent\<rparr>) s
     else if \<not> valid (tr_socket s) then
       goto_pc c (CFailWrite \<lparr>fail_status = Status Unavailable ''transport not connected'',
         fail_commit = NotSent\<rparr>) s
     else case SetSendTimeout net (in_timeo inp) of
       Some st \<Rightarrow> goto_pc c (CFailWrite \<lparr>fail_status = st, fail_commit = NotSent\<rparr>) s
     | None \<Rightarrow> goto_pc c (CSending (tr_socket s) 0 False) s)"

definition call_step :: "net_env \<Rightarrow> codec_env \<Rightarrow> step_input \<Rightarrow> nat \<Rightarrow> transport \<Rightarrow> transport option" where
  "call_step net env inp c s =
    (let cl = calls s ! c; i = req_id (call_request cl) in
     case call_pc cl of
       CStart \<Rightarrow> Some (call_begin env (in_now inp) c s)
     | CEnsure \<Rightarrow>
         if state_owner s \<noteq> None then None
         else if valid (tr_socket s) then Some (goto_pc c CRegister s)
         else (case tr_reader s of
             Some r \<Rightarrow> Some (goto_pc c (CJoin r) (s\<lparr>tr_reader := None\<rparr>))
           | None \<Rightarrow> Some (connect_section (in_connect inp) c s))
     | CJoin r \<Rightarrow> if reader_ended s (Some r) then Some (goto_pc c CConnect s) else None
     | CConnect \<Rightarrow>
         if state_owner s \<noteq> None then None else Some (connect_section (in_connect inp) c s)
     | CReplace fd \<Rightarrow>
         if reader_ended s (tr_reader s) then
           Some (goto_pc c CRegister (start_reader fd (s\<lparr>state_owner := None\<rparr>)))
         else None
     | CRegister \<Rightarrow>
         Some (case TryRegisterPending i c s of
             (False, s) \<Rightarrow> goto_pc c (CDone (MakeCallFailure
               (Status ResourceExhausted ''client max in-flight per endpoint exceeded'') NotSent)) s
           | (True, s) \<Rightarrow> goto_pc c CLock s)
     | CLock \<Rightarrow>
         if write_owner s = None then Some (goto_pc c CWriteCheck (s\<lparr>write_owner := Some c\<rparr>)) else None
     | CWriteCheck \<Rightarrow> if state_owner s \<noteq> None then None else Some (write_check net inp c s)
     | CFailWrite f \<Rightarrow>
         Some (goto_pc c (CDone (CallFailed f)) ((snd (TryUnregisterPending i s))\<lparr>write_owner := None\<rparr>))
     | CSending fd written retrying \<Rightarrow>
         Some (case SendAll_step net (call_deadline cl) (in_now inp) (in_timeo inp) (in_io inp)
                   (call_frame cl) written retrying of
             AllSent \<Rightarrow> goto_pc c CWait (s\<lparr>write_owner := None\<rparr>)
           | SendMore w again \<Rightarrow> set_call c (\<lambda>cl. cl\<lparr>call_pc := CSending fd w again, taken_bytes := w\<rparr>) s
           | SendFailed st \<Rightarrow> goto_pc c (CSendFailed st) s)
     | CSendFailed st \<Rightarrow> Some (goto_pc c (CClose st) (snd (TryUnregisterPending i s)))
     | CClose st \<Rightarrow>
         if state_owner s \<noteq> None then None
         else Some (goto_pc c (CTake st (tr_reader s)) ((CloseSocketLocked s)\<lparr>tr_reader := None\<rparr>))
     | CTake st rd \<Rightarrow> (case take_all_pending s of (cs, s) \<Rightarrow> Some (goto_pc c (CPublishAll cs st rd) s))
     | CPublishAll cs st rd \<Rightarrow>
         Some (case cs of
             [] \<Rightarrow> goto_pc c (CCloseJoin st rd) s
           | d # ds \<Rightarrow> publish d (MakeCallFailure (Status Unavailable ''transport closed'') MaybeSent)
               (goto_pc c (CPublishAll ds st rd) s))
     | CCloseJoin st rd \<Rightarrow>
         if reader_ended s rd then
           Some (goto_pc c (CDone (MakeCallFailure st MaybeSent)) (s\<lparr>write_owner := None\<rparr>))
         else None
     | CWait \<Rightarrow>
         (case call_slot cl of
            Some r \<Rightarrow> Some (goto_pc c (CDone r) s)
          | None \<Rightarrow>
              if DeadlineExpired (call_deadline cl) (in_now inp) then Some (goto_pc c CUnregister s) else None)
     | CUnregister \<Rightarrow>
         Some (case TryUnregisterPending i s of
             (True, s) \<Rightarrow> goto_pc c (CDone (MakeCallFailure
               (Status DeadlineExceeded ''RPC deadline exceeded'') MaybeSent)) s
           | (False, s) \<Rightarrow> goto_pc c CWaitOwner s)
     | CWaitOwner \<Rightarrow>
         (case call_slot cl of Some r \<Rightarrow> Some (goto_pc c (CDone r) s) | None \<Rightarrow> None)
     | CDone _ \<Rightarrow> None)"

definition reader_decode :: "codec_env \<Rightarrow> protocol_limits \<Rightarrow> bytes \<Rightarrow> reader_pc" where
  "reader_decode env plimits buffer =
    (let d = Decode env plimits buffer in
     if dec_error d = NeedMoreData then RRecv
     else if dec_error d \<noteq> ProtoOk then RClose (Status DataLoss ''failed to decode response frame'')
     else case dec_response d of
       None \<Rightarrow> RClose (Status DataLoss ''response frame did not contain an RPC response'')
     | Some r \<Rightarrow> RComplete r (consumed d))"

definition reader_recv :: "net_env \<Rightarrow> byte sysret \<Rightarrow> reader \<Rightarrow> reader" where
  "reader_recv net r rd =
    (if ret r > 0 then
       rd\<lparr>rd_pc := RDecode, rd_buffer := rd_buffer rd @ take (nat (ret r)) (received_bytes r)\<rparr>
     else if ret r = 0 then rd\<lparr>rd_pc := RClose (PeerClosedStatus ''recv'')\<rparr>
     else if errno r = EINTR then rd
     else rd\<lparr>rd_pc := RClose (IoStatus net ''recv'' (errno r))\<rparr>)"

definition reader_step :: "net_env \<Rightarrow> codec_env \<Rightarrow> step_input \<Rightarrow> nat \<Rightarrow> transport \<Rightarrow> transport option" where
  "reader_step net env inp i s =
    (let rd = readers s ! i in
     case rd_pc rd of
       RDecode \<Rightarrow> Some (reader_goto i (reader_decode env (tr_limits s) (rd_buffer rd)) s)
     | RRecv \<Rightarrow> Some (set_reader i (reader_recv net (in_io inp)) s)
     | RComplete r n \<Rightarrow>
         Some (case map_of (pending_calls s) (resp_id r) of
             None \<Rightarrow> set_reader i (\<lambda>rd. rd\<lparr>rd_pc := RDecode, rd_buffer := drop n (rd_buffer rd)\<rparr>) s
           | Some c \<Rightarrow> reader_goto i (RPublish c r n)
               (s\<lparr>pending_calls := filter (\<lambda>e. fst e \<noteq> resp_id r) (pending_calls s)\<rparr>))
     | RPublish c r n \<Rightarrow>
         Some (set_reader i (\<lambda>rd. rd\<lparr>rd_pc := RDecode, rd_buffer := drop n (rd_buffer rd)\<rparr>)
           (publish c (CallResponse r) s))
     | RClose st \<Rightarrow>
         if state_owner s \<noteq> None then None
         else Some (reader_goto i (RTake st)
           (if valid (tr_socket s) \<and> tr_socket s = rd_fd rd then CloseSocketLocked s else s))
     | RTake st \<Rightarrow> (case take_all_pending s of (cs, s) \<Rightarrow> Some (reader_goto i (RPublishAll cs st) s))
     | RPublishAll cs st \<Rightarrow>
         Some (case cs of
             [] \<Rightarrow> reader_goto i RDone s
           | d # ds \<Rightarrow> publish d (MakeCallFailure st MaybeSent) (reader_goto i (RPublishAll ds st) s))
     | RDone \<Rightarrow> None)"

text \<open>A new call has a request id no other call has used; a connect gives a descriptor; a \<^verbatim>\<open>send\<close>
  takes no more than it was offered.\<close>

definition honest :: "step_input \<Rightarrow> call \<Rightarrow> bool" where
  "honest inp cl \<longleftrightarrow> (case in_connect inp of Inl _ \<Rightarrow> True | Inr fd \<Rightarrow> valid fd) \<and>
    (case call_pc cl of CSending fd w again \<Rightarrow> ret (in_io inp) \<le> int (length (call_frame cl) - w) | _ \<Rightarrow> True)"

definition new_call :: "request_envelope \<Rightarrow> int option \<Rightarrow> call" where
  "new_call r deadline = \<lparr>call_request = r, call_deadline = deadline, call_pc = CStart, call_frame = [],
     call_slot = None, taken_bytes = 0\<rparr>"

inductive transport_step :: "net_env \<Rightarrow> codec_env \<Rightarrow> transport \<Rightarrow> transport \<Rightarrow> bool" for net env where
  call_made: "\<forall>cl\<in>set (calls s). req_id (call_request cl) \<noteq> req_id r \<Longrightarrow>
    transport_step net env s (s\<lparr>calls := calls s @ [new_call r deadline]\<rparr>)"
| call_moved: "c < length (calls s) \<Longrightarrow> honest inp (calls s ! c) \<Longrightarrow> call_step net env inp c s = Some s' \<Longrightarrow>
    transport_step net env s s'"
| reader_moved: "i < length (readers s) \<Longrightarrow> reader_step net env inp i s = Some s' \<Longrightarrow>
    transport_step net env s s'"

inductive transport_reach :: "net_env \<Rightarrow> codec_env \<Rightarrow> protocol_limits \<Rightarrow> nat \<Rightarrow> transport \<Rightarrow> bool"
  for net env plimits m where
  transport_new: "transport_reach net env plimits m (TcpTransport plimits m)"
| transport_next: "transport_reach net env plimits m s \<Longrightarrow> transport_step net env s s' \<Longrightarrow>
    transport_reach net env plimits m s'"

section \<open>The invariant\<close>

text \<open>The pending calls a thread has taken out of the map and has still to complete.\<close>

fun reader_held :: "reader_pc \<Rightarrow> nat list" where
  "reader_held (RPublish c r n) = [c]"
| "reader_held (RPublishAll cs st) = cs"
| "reader_held _ = []"

fun call_held :: "call_pc \<Rightarrow> nat list" where
  "call_held (CPublishAll cs st rd) = cs"
| "call_held _ = []"

definition held :: "transport \<Rightarrow> nat \<Rightarrow> nat" where
  "held s c = list_total (\<lambda>rd. count_list (reader_held (rd_pc rd)) c) (readers s) +
     list_total (\<lambda>cl. count_list (call_held (call_pc cl)) c) (calls s)"

definition registered_count :: "transport \<Rightarrow> nat \<Rightarrow> nat" where
  "registered_count s c = count_list (map snd (pending_calls s)) c"

text \<open>The places a pending call can be: in the map, with a thread that will complete it, completed.\<close>

definition weight :: "transport \<Rightarrow> nat \<Rightarrow> nat" where
  "weight s c = held s c + registered_count s c + (if call_slot (calls s ! c) = None then 0 else 1)"

definition outcome_ok :: "call \<Rightarrow> call_attempt_result \<Rightarrow> bool" where
  "outcome_ok cl r = (case r of
     CallResponse resp \<Rightarrow> resp_id resp = req_id (call_request cl)
   | CallFailed f \<Rightarrow> fail_commit f = NotSent \<longrightarrow> taken_bytes cl = 0)"

definition slot_ok :: "call \<Rightarrow> bool" where
  "slot_ok cl = (case call_slot cl of
     Some (CallResponse resp) \<Rightarrow> resp_id resp = req_id (call_request cl)
   | Some (CallFailed f) \<Rightarrow> fail_commit f = MaybeSent
   | None \<Rightarrow> True)"

definition pc_ok :: "nat \<Rightarrow> nat \<Rightarrow> call \<Rightarrow> bool" where
  "pc_ok w reg cl = (case call_pc cl of
     CStart \<Rightarrow> w = 0 \<and> taken_bytes cl = 0
   | CEnsure \<Rightarrow> w = 0 \<and> taken_bytes cl = 0
   | CJoin r \<Rightarrow> w = 0 \<and> taken_bytes cl = 0
   | CConnect \<Rightarrow> w = 0 \<and> taken_bytes cl = 0
   | CReplace fd \<Rightarrow> w = 0 \<and> taken_bytes cl = 0
   | CRegister \<Rightarrow> w = 0 \<and> taken_bytes cl = 0
   | CLock \<Rightarrow> w = 1 \<and> taken_bytes cl = 0
   | CWriteCheck \<Rightarrow> w = 1 \<and> taken_bytes cl = 0
   | CFailWrite f \<Rightarrow> w = 1 \<and> taken_bytes cl = 0
   | CSending fd n again \<Rightarrow> w = 1 \<and> taken_bytes cl = n \<and> n \<le> length (call_frame cl)
   | CSendFailed st \<Rightarrow> w = 1
   | CWait \<Rightarrow> w = 1 \<and> taken_bytes cl = length (call_frame cl)
   | CUnregister \<Rightarrow> w = 1 \<and> taken_bytes cl = length (call_frame cl)
   | CWaitOwner \<Rightarrow> w = 1 \<and> reg = 0
   | CDone r \<Rightarrow> outcome_ok cl r
   | _ \<Rightarrow> True)"

definition call_ok :: "transport \<Rightarrow> nat \<Rightarrow> bool" where
  "call_ok s c \<longleftrightarrow> weight s c \<le> 1 \<and> pc_ok (weight s c) (registered_count s c) (calls s ! c) \<and>
     slot_ok (calls s ! c)"

abbreviation call_id :: "transport \<Rightarrow> nat \<Rightarrow> u64" where
  "call_id s c \<equiv> req_id (call_request (calls s ! c))"

text \<open>Request ids are unique and the map is keyed by them; what threads hold are calls of this
  transport, and a response is for the call it was matched with.\<close>

definition keys_ok :: "transport \<Rightarrow> bool" where
  "keys_ok s \<longleftrightarrow> distinct (map (\<lambda>cl. req_id (call_request cl)) (calls s)) \<and>
     (\<forall>e\<in>set (pending_calls s). snd e < length (calls s) \<and> fst e = call_id s (snd e)) \<and>
     (\<forall>c. held s c \<noteq> 0 \<longrightarrow> c < length (calls s)) \<and>
     (\<forall>rd\<in>set (readers s). \<forall>c r n. rd_pc rd = RPublish c r n \<longrightarrow> resp_id r = call_id s c)"

definition tr_ok :: "nat \<Rightarrow> transport \<Rightarrow> bool" where
  "tr_ok m s \<longleftrightarrow> keys_ok s \<and> (\<forall>c<length (calls s). call_ok s c) \<and> \<not> slot_overwritten s \<and>
     max_inflight_per_endpoint s = m \<and> length (pending_calls s) \<le> m"

subsection \<open>Weights under updates\<close>

lemma set_call_simps [simp]:
  "readers (set_call c f s) = readers s" "pending_calls (set_call c f s) = pending_calls s"
  "length (calls (set_call c f s)) = length (calls s)"
  "slot_overwritten (set_call c f s) = slot_overwritten s"
  "max_inflight_per_endpoint (set_call c f s) = max_inflight_per_endpoint s"
  "c < length (calls s) \<Longrightarrow> calls (set_call c f s) ! d = (if d = c then f (calls s ! c) else calls s ! d)"
  "tr_socket (set_call c f s) = tr_socket s" "write_owner (set_call c f s) = write_owner s"
  "tr_reader (set_call c f s) = tr_reader s" "tr_limits (set_call c f s) = tr_limits s"
  by (auto simp: set_call_def nth_list_update)

lemma set_reader_simps [simp]:
  "calls (set_reader i f s) = calls s" "pending_calls (set_reader i f s) = pending_calls s"
  "slot_overwritten (set_reader i f s) = slot_overwritten s"
  "max_inflight_per_endpoint (set_reader i f s) = max_inflight_per_endpoint s"
  "write_owner (set_reader i f s) = write_owner s"
  by (auto simp: set_reader_def)

lemma held_set_call:
  "c < length (calls s) \<Longrightarrow>
     held (set_call c f s) x + count_list (call_held (call_pc (calls s ! c))) x =
     held s x + count_list (call_held (call_pc (f (calls s ! c)))) x"
  using list_total_update[of c "calls s" "\<lambda>cl. count_list (call_held (call_pc cl)) x" "f (calls s ! c)"]
  by (simp add: held_def set_call_def)

lemma held_set_reader:
  "i < length (readers s) \<Longrightarrow>
     held (set_reader i f s) x + count_list (reader_held (rd_pc (readers s ! i))) x =
     held s x + count_list (reader_held (rd_pc (f (readers s ! i)))) x"
  using list_total_update[of i "readers s" "\<lambda>rd. count_list (reader_held (rd_pc rd)) x" "f (readers s ! i)"]
  by (simp add: held_def set_reader_def)

text \<open>Fields that no account depends on.\<close>

lemma weight_other [simp]:
  "held (s\<lparr>write_owner := w\<rparr>) = held s" "held (s\<lparr>tr_reader := r\<rparr>) = held s"
  "held (s\<lparr>tr_socket := fd\<rparr>) = held s" "held (s\<lparr>slot_overwritten := b\<rparr>) = held s"
  "held (s\<lparr>pending_calls := p\<rparr>) = held s" "held (s\<lparr>state_owner := w\<rparr>) = held s"
  "registered_count (s\<lparr>state_owner := w\<rparr>) = registered_count s"
  "registered_count (s\<lparr>write_owner := w\<rparr>) = registered_count s"
  "registered_count (s\<lparr>tr_reader := r\<rparr>) = registered_count s"
  "registered_count (s\<lparr>tr_socket := fd\<rparr>) = registered_count s"
  "registered_count (s\<lparr>slot_overwritten := b\<rparr>) = registered_count s"
  "registered_count (set_call c f s) = registered_count s"
  "registered_count (set_reader i g s) = registered_count s"
  by (auto simp: held_def registered_count_def fun_eq_iff)

lemma tr_ok_other:
  "tr_ok m s \<Longrightarrow> tr_ok m (s\<lparr>write_owner := w\<rparr>)" "tr_ok m s \<Longrightarrow> tr_ok m (s\<lparr>tr_reader := r\<rparr>)"
  "tr_ok m s \<Longrightarrow> tr_ok m (s\<lparr>tr_socket := fd\<rparr>)" "tr_ok m s \<Longrightarrow> tr_ok m (CloseSocketLocked s)"
  "tr_ok m s \<Longrightarrow> tr_ok m (s\<lparr>state_owner := w\<rparr>)"
  by (auto simp: tr_ok_def keys_ok_def call_ok_def weight_def CloseSocketLocked_def)

lemma slot_ok_cong:
  "call_slot cl = call_slot cl' \<Longrightarrow> call_request cl = call_request cl' \<Longrightarrow> slot_ok cl = slot_ok cl'"
  by (auto simp: slot_ok_def split: option.splits call_attempt_result.splits)

lemma pc_ok_mono: "pc_ok w reg cl \<Longrightarrow> reg' \<le> reg \<Longrightarrow> pc_ok w reg' cl"
  by (auto simp: pc_ok_def split: call_pc.splits)

lemma call_ok_keep:
  "call_ok s x \<Longrightarrow> weight s' x = weight s x \<Longrightarrow> registered_count s' x \<le> registered_count s x \<Longrightarrow>
     calls s' ! x = calls s ! x \<Longrightarrow> call_ok s' x"
  by (auto simp: call_ok_def intro: pc_ok_mono)

lemma tr_okI:
  assumes ok: "tr_ok m s" and len: "length (calls s') = length (calls s)"
    and req: "\<And>x. x < length (calls s) \<Longrightarrow> call_request (calls s' ! x) = call_request (calls s ! x)"
    and calls: "\<And>x. x < length (calls s) \<Longrightarrow> call_ok s' x"
    and pend: "\<And>e. e \<in> set (pending_calls s') \<Longrightarrow>
      e \<in> set (pending_calls s) \<or> (\<exists>c<length (calls s). e = (call_id s c, c))"
    and held: "\<And>x. held s' x \<noteq> 0 \<Longrightarrow> held s x \<noteq> 0 \<or> registered_count s x \<noteq> 0"
    and rds: "\<And>rd c r n. rd \<in> set (readers s') \<Longrightarrow> rd_pc rd = RPublish c r n \<Longrightarrow>
      (\<exists>rd'\<in>set (readers s). rd_pc rd' = RPublish c r n) \<or> resp_id r = call_id s c"
    and rest: "\<not> slot_overwritten s'" "max_inflight_per_endpoint s' = m" "length (pending_calls s') \<le> m"
  shows "tr_ok m s'"
proof -
  have k: "keys_ok s" using ok by (simp add: tr_ok_def)
  have in_range: "x < length (calls s)" if "held s x \<noteq> 0 \<or> registered_count s x \<noteq> 0" for x
    using that k by (auto simp: keys_ok_def registered_count_def count_list_0_iff)
  have "map (\<lambda>cl. req_id (call_request cl)) (calls s') = map (\<lambda>cl. req_id (call_request cl)) (calls s)"
    using len req by (intro nth_equalityI) auto
  then have "distinct (map (\<lambda>cl. req_id (call_request cl)) (calls s'))" using k by (simp add: keys_ok_def)
  moreover have "snd e < length (calls s') \<and> fst e = call_id s' (snd e)" if "e \<in> set (pending_calls s')" for e
    using pend[OF that] k len req by (auto simp: keys_ok_def)
  moreover have "resp_id r = call_id s' c"
    if rd: "rd \<in> set (readers s')" "rd_pc rd = RPublish c r n" for rd c r n
  proof -
    have "held s' c \<noteq> 0" using rd
      by (auto simp: held_def sum_list_eq_0_iff intro!: bexI[of _ rd])
    then have "c < length (calls s)" using held in_range by blast
    then show ?thesis using rds[OF rd] k req by (auto simp: keys_ok_def)
  qed
  ultimately have "keys_ok s'" using held in_range len by (auto simp: keys_ok_def)
  then show ?thesis using calls len rest by (simp add: tr_ok_def)
qed

text \<open>A call that moves on without touching what others see.\<close>

lemma tr_ok_set_call:
  assumes ok: "tr_ok m s" and c: "c < length (calls s)"
    and f: "call_slot (f (calls s ! c)) = call_slot (calls s ! c)"
      "call_request (f (calls s ! c)) = call_request (calls s ! c)"
      "call_held (call_pc (calls s ! c)) = []" "call_held (call_pc (f (calls s ! c))) = []"
    and pc: "pc_ok (weight s c) (registered_count s c) (f (calls s ! c))"
  shows "tr_ok m (set_call c f s)"
proof -
  have h: "held (set_call c f s) x = held s x" for x using held_set_call[OF c, of f x] f(3,4) by simp
  then have w: "weight (set_call c f s) x = weight s x" for x
    using c f(1) by (simp add: weight_def)
  have "call_ok (set_call c f s) x" if "x < length (calls s)" for x
    using ok that pc c slot_ok_cong[OF f(1,2)] by (auto simp: tr_ok_def call_ok_def w)
  then show ?thesis
    using ok h c f(2) by (intro tr_okI[OF ok]) (auto simp: tr_ok_def)
qed

lemma count_list_filter_zero: "(\<And>x. x \<in> set xs \<Longrightarrow> snd x = c \<Longrightarrow> \<not> P x) \<Longrightarrow>
    count_list (map snd (filter P xs)) c = 0"
  by (induction xs) auto

lemma count_list_filter_same: "(\<And>x. x \<in> set xs \<Longrightarrow> snd x = c \<Longrightarrow> P x) \<Longrightarrow>
    count_list (map snd (filter P xs)) c = count_list (map snd xs) c"
  by (induction xs) auto

lemma call_id_inject:
  "keys_ok s \<Longrightarrow> c < length (calls s) \<Longrightarrow> d < length (calls s) \<Longrightarrow> call_id s c = call_id s d \<longleftrightarrow> c = d"
  using nth_eq_iff_index_eq[of "map (\<lambda>cl. req_id (call_request cl)) (calls s)" c d]
  by (auto simp: keys_ok_def)

text \<open>Removing a request id removes its call and nothing else.\<close>

definition erase :: "u64 \<Rightarrow> transport \<Rightarrow> transport" where
  "erase i s = s\<lparr>pending_calls := filter (\<lambda>e. fst e \<noteq> i) (pending_calls s)\<rparr>"

lemma erase_count:
  assumes "keys_ok s" "c < length (calls s)"
  shows "registered_count (erase (call_id s c) s) x = (if x = c then 0 else registered_count s x)"
proof (cases "x = c")
  case True
  then show ?thesis
    using assms unfolding registered_count_def erase_def
    by (auto simp: keys_ok_def intro!: count_list_filter_zero)
next
  case False
  have "fst e \<noteq> call_id s c" if "e \<in> set (pending_calls s)" "snd e = x" for e
    using that False assms call_id_inject[OF assms(1), of x c] by (auto simp: keys_ok_def)
  then have "count_list (map snd (filter (\<lambda>e. fst e \<noteq> call_id s c) (pending_calls s))) x =
      count_list (map snd (pending_calls s)) x"
    by (intro count_list_filter_same) auto
  then show ?thesis using False by (simp add: registered_count_def erase_def)
qed

lemma erase_weight:
  assumes "keys_ok s" "c < length (calls s)"
  shows "weight (erase (call_id s c) s) x + (if x = c then registered_count s c else 0) = weight s x"
  using erase_count[OF assms, of x] by (auto simp: weight_def erase_def)

lemma lookup_count:
  assumes "keys_ok s" "c < length (calls s)"
  shows "map_of (pending_calls s) (call_id s c) = (if registered_count s c = 0 then None else Some c)"
proof (cases "registered_count s c = 0")
  case True
  then have "c \<notin> snd ` set (pending_calls s)" by (simp add: registered_count_def count_list_0_iff)
  moreover have "snd e = c" if "e \<in> set (pending_calls s)" "fst e = call_id s c" for e
  proof -
    have "snd e < length (calls s)" "call_id s c = call_id s (snd e)"
      using that assms(1) by (simp_all add: keys_ok_def)
    then show ?thesis using call_id_inject[OF assms] by simp
  qed
  ultimately have "call_id s c \<notin> fst ` set (pending_calls s)" by fastforce
  then show ?thesis using True by (simp add: map_of_eq_None_iff)
next
  case False
  then have "c \<in> snd ` set (pending_calls s)"
    using count_list_0_iff[of "map snd (pending_calls s)" c] by (auto simp: registered_count_def)
  then obtain e where e: "e \<in> set (pending_calls s)" "snd e = c" by auto
  then have "fst e = call_id s c" using assms(1) by (auto simp: keys_ok_def)
  then have "map_of (pending_calls s) (call_id s c) \<noteq> None"
    using e(1) by (metis map_of_eq_None_iff image_eqI)
  then obtain d where d: "map_of (pending_calls s) (call_id s c) = Some d" by auto
  then have "(call_id s c, d) \<in> set (pending_calls s)" by (rule map_of_SomeD)
  then have "call_id s c = call_id s d" "d < length (calls s)" using assms(1) by (auto simp: keys_ok_def)
  then show ?thesis using d False call_id_inject[OF assms] by auto
qed

lemma erase_keys: "keys_ok s \<Longrightarrow> keys_ok (erase i s)"
  by (auto simp: keys_ok_def erase_def)

text \<open>A call unregisters itself and moves on.\<close>

lemma tr_ok_unregister:
  assumes ok: "tr_ok m s" and c: "c < length (calls s)"
    and pc: "call_held (call_pc (calls s ! c)) = []" "call_held pc = []"
      "pc_ok (weight s c - registered_count s c) 0 ((calls s ! c)\<lparr>call_pc := pc\<rparr>)"
  shows "tr_ok m (goto_pc c pc (erase (call_id s c) s))"
proof -
  let ?s = "goto_pc c pc (erase (call_id s c) s)"
  have k: "keys_ok s" using ok by (simp add: tr_ok_def)
  have e: "calls (erase (call_id s c) s) = calls s" "held (erase (call_id s c) s) = held s"
    by (simp_all add: erase_def)
  have h: "held ?s x = held s x" for x
    using held_set_call[of c "erase (call_id s c) s" "\<lambda>cl. cl\<lparr>call_pc := pc\<rparr>" x] c pc(1,2) e by simp
  have w: "weight ?s x = weight (erase (call_id s c) s) x" for x using c e h by (simp add: weight_def)
  have wc: "weight (erase (call_id s c) s) c = weight s c - registered_count s c"
    using erase_weight[OF k c, of c] by simp
  have "call_ok ?s x" if x: "x < length (calls s)" for x
  proof (cases "x = c")
    case True
    then show ?thesis
      using ok c pc(3) w[of c] e slot_ok_cong[of "(calls s ! c)\<lparr>call_pc := pc\<rparr>" "calls s ! c"]
        wc erase_count[OF k c, of c]
      by (auto simp: call_ok_def tr_ok_def)
  next
    case False
    have "call_ok s x" using ok x by (simp add: tr_ok_def)
    moreover have "weight ?s x = weight s x" "registered_count ?s x \<le> registered_count s x"
      using w[of x] erase_weight[OF k c, of x] erase_count[OF k c, of x] False by simp_all
    moreover have "calls ?s ! x = calls s ! x" using c e(1) False by simp
    ultimately show ?thesis by (rule call_ok_keep)
  qed
  then show ?thesis
    using ok h c e by (intro tr_okI[OF ok]) (auto simp: tr_ok_def erase_def intro: le_trans[OF length_filter_le])
qed

lemma tr_ok_register:
  assumes ok: "tr_ok m s" and c: "c < length (calls s)" and pc: "call_pc (calls s ! c) = CRegister"
    and room: "length (pending_calls s) < m"
  shows "tr_ok m (goto_pc c CLock (s\<lparr>pending_calls :=
    (call_id s c, c) # filter (\<lambda>e. fst e \<noteq> call_id s c) (pending_calls s)\<rparr>))"
proof -
  have k: "keys_ok s" and z: "weight s c = 0" and t: "taken_bytes (calls s ! c) = 0"
    using ok c pc by (auto simp: tr_ok_def call_ok_def pc_ok_def)
  have "call_id s c \<notin> fst ` set (pending_calls s)"
    using lookup_count[OF k c] z by (simp add: map_of_eq_None_iff weight_def)
  then have "filter (\<lambda>e. fst e \<noteq> call_id s c) (pending_calls s) = pending_calls s"
    by (intro filter_True ballI notI) (drule imageI[of _ _ fst], simp)
  moreover define s1 where "s1 = s\<lparr>pending_calls := (call_id s c, c) # pending_calls s\<rparr>"
  ultimately have eq: "s\<lparr>pending_calls :=
      (call_id s c, c) # filter (\<lambda>e. fst e \<noteq> call_id s c) (pending_calls s)\<rparr> = s1" by simp
  have s1: "calls s1 = calls s" "readers s1 = readers s" "held s1 = held s"
    by (simp_all add: s1_def)
  have reg: "registered_count s1 x = registered_count s x + (if x = c then 1 else 0)" for x
    by (simp add: s1_def registered_count_def)
  have h: "held (goto_pc c CLock s1) x = held s x" for x
    using held_set_call[of c s1 "\<lambda>cl. cl\<lparr>call_pc := CLock\<rparr>" x] c pc s1 by simp
  have w: "weight (goto_pc c CLock s1) x = weight s x + (if x = c then 1 else 0)" for x
    using h c s1 reg by (simp add: weight_def)
  have "call_ok (goto_pc c CLock s1) x" if x: "x < length (calls s)" for x
  proof (cases "x = c")
    case True
    then show ?thesis
      using ok c w[of c] s1 z t slot_ok_cong[of "(calls s ! c)\<lparr>call_pc := CLock\<rparr>" "calls s ! c"]
      by (auto simp: call_ok_def tr_ok_def pc_ok_def)
  next
    case False
    have "call_ok s x" using ok x by (simp add: tr_ok_def)
    moreover have "weight (goto_pc c CLock s1) x = weight s x"
        "registered_count (goto_pc c CLock s1) x \<le> registered_count s x"
        "calls (goto_pc c CLock s1) ! x = calls s ! x"
      using w[of x] reg[of x] c s1(1) False by simp_all
    ultimately show ?thesis by (rule call_ok_keep)
  qed
  then show ?thesis
    using ok h c s1 room unfolding eq by (intro tr_okI[OF ok]) (auto simp: tr_ok_def s1_def)
qed

text \<open>Taking all pending calls moves them from the map to the thread.\<close>

lemma tr_ok_call_takes:
  assumes ok: "tr_ok m s" and c: "c < length (calls s)" and pc: "call_pc (calls s ! c) = CTake st rd"
  shows "tr_ok m (goto_pc c (CPublishAll (map snd (pending_calls s)) st rd) (s\<lparr>pending_calls := []\<rparr>))"
proof -
  let ?pc = "CPublishAll (map snd (pending_calls s)) st rd"
  let ?s = "goto_pc c ?pc (s\<lparr>pending_calls := []\<rparr>)"
  have h: "held ?s x = held s x + registered_count s x" for x
    using held_set_call[of c "s\<lparr>pending_calls := []\<rparr>" "\<lambda>cl. cl\<lparr>call_pc := ?pc\<rparr>" x] c pc
    by (simp add: registered_count_def)
  have w: "weight ?s x = weight s x" "registered_count ?s x = 0" for x
    using h c by (simp_all add: weight_def registered_count_def)
  have "call_ok ?s x" if x: "x < length (calls s)" for x
  proof (cases "x = c")
    case True
    then show ?thesis
      using ok c w[of c] slot_ok_cong[of "(calls s ! c)\<lparr>call_pc := ?pc\<rparr>" "calls s ! c"]
      by (auto simp: call_ok_def tr_ok_def pc_ok_def)
  next
    case False
    have "call_ok s x" using ok x by (simp add: tr_ok_def)
    moreover note w(1)[of x]
    moreover have "registered_count ?s x \<le> registered_count s x" using w(2)[of x] by simp
    moreover have "calls ?s ! x = calls s ! x" using c False by simp
    ultimately show ?thesis by (rule call_ok_keep)
  qed
  then show ?thesis using ok h c by (intro tr_okI[OF ok]) (auto simp: tr_ok_def)
qed

text \<open>Completing a call a thread holds: it was not completed before.\<close>

lemma held_slot:
  assumes "tr_ok m s" "held s d \<noteq> 0"
  shows "d < length (calls s)" "call_slot (calls s ! d) = None"
proof -
  show d: "d < length (calls s)" using assms by (auto simp: tr_ok_def keys_ok_def)
  then have "weight s d \<le> 1" using assms(1) by (auto simp: tr_ok_def call_ok_def)
  then show "call_slot (calls s ! d) = None" using assms(2) by (auto simp: weight_def split: if_splits)
qed

lemma held_member:
  "i < length (readers s) \<Longrightarrow> d \<in> set (reader_held (rd_pc (readers s ! i))) \<Longrightarrow> held s d \<noteq> 0"
  "c < length (calls s) \<Longrightarrow> d \<in> set (call_held (call_pc (calls s ! c))) \<Longrightarrow> held s d \<noteq> 0"
  using list_total_member[of i "readers s" "\<lambda>rd. count_list (reader_held (rd_pc rd)) d"]
    list_total_member[of c "calls s" "\<lambda>cl. count_list (call_held (call_pc cl)) d"]
  by (auto simp: held_def count_list_0_iff)

lemma pc_ok_slot: "pc_ok w reg (cl\<lparr>call_slot := v\<rparr>) = pc_ok w reg cl"
  by (cases "call_pc cl") (simp_all add: pc_ok_def outcome_ok_def split: call_attempt_result.splits)

lemma pc_ok_publishing: "pc_ok w reg (cl\<lparr>call_pc := CPublishAll cs st rd\<rparr>)"
  by (simp add: pc_ok_def)

definition publishable :: "transport \<Rightarrow> nat \<Rightarrow> call_attempt_result \<Rightarrow> bool" where
  "publishable s d r = (case r of
     CallResponse resp \<Rightarrow> resp_id resp = call_id s d | CallFailed f \<Rightarrow> fail_commit f = MaybeSent)"

text \<open>From \<open>s\<close>, in which \<open>d\<close> is held, to \<open>s1\<close>, in which its holder has let it go, then publishing.\<close>

lemma tr_ok_publish:
  assumes ok: "tr_ok m s" and d: "held s d \<noteq> 0" and r: "publishable s d r"
    and s1: "length (calls s1) = length (calls s)" "pending_calls s1 = pending_calls s"
      "slot_overwritten s1 = slot_overwritten s" "max_inflight_per_endpoint s1 = max_inflight_per_endpoint s"
      "\<And>x. held s1 x + (if x = d then 1 else 0) = held s x"
      "\<And>x. calls s1 ! x = calls s ! x \<or>
        (\<exists>cs st rd. calls s1 ! x = (calls s ! x)\<lparr>call_pc := CPublishAll cs st rd\<rparr>)"
    and rds: "\<And>rd c r n. rd \<in> set (readers s1) \<Longrightarrow> rd_pc rd = RPublish c r n \<Longrightarrow> rd \<in> set (readers s)"
  shows "tr_ok m (publish d r s1)"
proof -
  note dd = held_slot[OF ok d]
  have slot: "call_slot (calls s1 ! x) = call_slot (calls s ! x)"
      "call_request (calls s1 ! x) = call_request (calls s ! x)" for x
    using s1(6)[of x] by auto
  let ?s = "publish d r s1"
  have p: "readers ?s = readers s1" "pending_calls ?s = pending_calls s1" "length (calls ?s) = length (calls s)"
      "registered_count ?s = registered_count s"
      "calls ?s ! x = (if x = d then (calls s1 ! d)\<lparr>call_slot := Some r\<rparr> else calls s1 ! x)" for x
    using dd(1) s1(1,2) by (auto simp: publish_def Let_def registered_count_def)
  have h: "held ?s x = held s1 x" for x
    using held_set_call[of d "s1\<lparr>slot_overwritten := slot_overwritten s1 \<or> call_slot (calls s1 ! d) \<noteq> None\<rparr>"
        "\<lambda>cl. cl\<lparr>call_slot := Some r\<rparr>" x] dd(1) s1(1) by (simp add: publish_def Let_def)
  have w: "weight ?s x = weight s x" for x
    using s1(5)[of x] h[of x] p(4) p(5)[of x] dd(2) slot(1)[of x] by (auto simp: weight_def)
  have "call_ok ?s x" if x: "x < length (calls s)" for x
  proof -
    have cx: "weight s x \<le> 1" "pc_ok (weight s x) (registered_count s x) (calls s ! x)" "slot_ok (calls s ! x)"
      using ok x by (auto simp: tr_ok_def call_ok_def)
    have "pc_ok (weight s x) (registered_count s x) (calls s1 ! x)"
      using cx(2) s1(6)[of x] pc_ok_publishing by metis
    then have "pc_ok (weight s x) (registered_count s x) (calls ?s ! x)"
      using p(5)[of x] by (cases "x = d") (simp_all add: pc_ok_slot)
    moreover have "slot_ok (calls s1 ! x)" using cx(3) slot_ok_cong[OF slot] by blast
    then have "slot_ok (calls ?s ! x)"
      using p(5)[of x] r slot(2)[of d]
      by (cases "x = d") (auto simp: slot_ok_def publishable_def split: call_attempt_result.splits)
    ultimately show ?thesis using cx(1) w p(4) by (simp add: call_ok_def)
  qed
  moreover have "\<not> slot_overwritten ?s"
    using ok dd(2) slot(1)[of d] s1(3) by (simp add: publish_def Let_def tr_ok_def)
  moreover have "max_inflight_per_endpoint ?s = m" using ok s1(4) by (simp add: publish_def Let_def tr_ok_def)
  moreover have "held s1 x \<noteq> 0 \<Longrightarrow> held s x \<noteq> 0" for x using s1(5)[of x] by simp
  ultimately show ?thesis
    using ok p h slot(2) s1(2) rds by (intro tr_okI[OF ok]) (auto simp: tr_ok_def)
qed

lemma tr_ok_call_publishes:
  assumes ok: "tr_ok m s" and c: "c < length (calls s)"
    and pc: "call_pc (calls s ! c) = CPublishAll (d # ds) st rd"
  shows "tr_ok m (publish d (MakeCallFailure e MaybeSent) (goto_pc c (CPublishAll ds st rd) s))"
proof (rule tr_ok_publish[OF ok])
  show "held s d \<noteq> 0" using held_member(2)[OF c, of d] pc by simp
  show "publishable s d (MakeCallFailure e MaybeSent)" by (simp add: publishable_def MakeCallFailure_def)
  show "held (goto_pc c (CPublishAll ds st rd) s) x + (if x = d then 1 else 0) = held s x" for x
    using held_set_call[OF c, of "\<lambda>cl. cl\<lparr>call_pc := CPublishAll ds st rd\<rparr>" x] pc by auto
  show "calls (goto_pc c (CPublishAll ds st rd) s) ! x = calls s ! x \<or>
      (\<exists>cs st' rd'. calls (goto_pc c (CPublishAll ds st rd) s) ! x =
        (calls s ! x)\<lparr>call_pc := CPublishAll cs st' rd'\<rparr>)" for x
    using c by (cases "x = c") auto
qed (use c in simp_all)

subsection \<open>Readers\<close>

lemma set_reader_member:
  "i < length (readers s) \<Longrightarrow> rd \<in> set (readers (set_reader i f s)) \<Longrightarrow>
     rd \<in> set (readers s) \<or> rd = f (readers s ! i)"
  using set_update_subset_insert[of "readers s" i "f (readers s ! i)"] by (auto simp: set_reader_def)

lemma weight_set_reader:
  "weight (set_reader i f s) x = held (set_reader i f s) x + registered_count s x +
     (if call_slot (calls s ! x) = None then 0 else 1)"
  by (simp add: weight_def)

text \<open>A reader that moves on without taking or completing calls.\<close>

lemma tr_ok_set_reader:
  assumes ok: "tr_ok m s" and i: "i < length (readers s)"
    and f: "reader_held (rd_pc (readers s ! i)) = []" "reader_held (rd_pc (f (readers s ! i))) = []"
  shows "tr_ok m (set_reader i f s)"
proof -
  have h: "held (set_reader i f s) x = held s x" for x using held_set_reader[OF i, of f x] f by simp
  have "call_ok (set_reader i f s) x" if "x < length (calls s)" for x
    using ok that h by (simp add: tr_ok_def call_ok_def weight_def)
  moreover have "rd_pc rd = RPublish c r n \<Longrightarrow> rd \<in> set (readers s)"
    if "rd \<in> set (readers (set_reader i f s))" for rd c r n
    using set_reader_member[OF i that] f(2) by auto
  ultimately show ?thesis using ok h by (intro tr_okI[OF ok]) (auto simp: tr_ok_def)
qed

text \<open>Matching a response takes its call out of the map.\<close>

lemma tr_ok_reader_matches:
  assumes ok: "tr_ok m s" and i: "i < length (readers s)"
    and pc: "rd_pc (readers s ! i) = RComplete r n" and l: "map_of (pending_calls s) (resp_id r) = Some c"
  shows "tr_ok m (reader_goto i (RPublish c r n) (erase (resp_id r) s))"
proof -
  let ?s = "reader_goto i (RPublish c r n) (erase (resp_id r) s)"
  have k: "keys_ok s" using ok by (simp add: tr_ok_def)
  have "(resp_id r, c) \<in> set (pending_calls s)" using l by (rule map_of_SomeD)
  then have c: "c < length (calls s)" "resp_id r = call_id s c" "registered_count s c \<noteq> 0"
    using k by (auto simp: keys_ok_def registered_count_def count_list_0_iff image_iff intro!: bexI)
  then have one: "registered_count s c = 1" "held s c = 0"
    using ok by (auto simp: tr_ok_def call_ok_def weight_def)
  have h: "held ?s x = held s x + (if x = c then 1 else 0)" for x
    using held_set_reader[of i "erase (resp_id r) s" "\<lambda>rd. rd\<lparr>rd_pc := RPublish c r n\<rparr>" x] i pc
    by (simp add: erase_def)
  have reg: "registered_count ?s x = (if x = c then 0 else registered_count s x)" for x
    using erase_count[OF k c(1), of x] c(2) by simp
  have w: "weight ?s x = weight s x" for x
    using h[of x] reg[of x] one by (auto simp: weight_def erase_def)
  have "call_ok ?s x" if "x < length (calls s)" for x
  proof (rule call_ok_keep[of s x])
    show "call_ok s x" using ok that by (simp add: tr_ok_def)
    show "weight ?s x = weight s x" by (rule w)
    show "registered_count ?s x \<le> registered_count s x" using reg[of x] by simp
  qed (simp add: erase_def)
  moreover have "(\<exists>rd'\<in>set (readers s). rd_pc rd' = RPublish c' r' n') \<or> resp_id r' = call_id s c'"
    if "rd \<in> set (readers ?s)" "rd_pc rd = RPublish c' r' n'" for rd c' r' n'
    using set_reader_member[OF _ that(1)] that(2) i c(2) by (auto simp: erase_def)
  ultimately show ?thesis
    using ok h c(3) one
    by (intro tr_okI[OF ok])
      (auto simp: tr_ok_def erase_def intro: le_trans[OF length_filter_le] split: if_splits)
qed

lemma tr_ok_reader_takes:
  assumes ok: "tr_ok m s" and i: "i < length (readers s)" and pc: "rd_pc (readers s ! i) = RTake st"
  shows "tr_ok m (reader_goto i (RPublishAll (map snd (pending_calls s)) st) (s\<lparr>pending_calls := []\<rparr>))"
proof -
  let ?s = "reader_goto i (RPublishAll (map snd (pending_calls s)) st) (s\<lparr>pending_calls := []\<rparr>)"
  have h: "held ?s x = held s x + registered_count s x" for x
    using held_set_reader[of i "s\<lparr>pending_calls := []\<rparr>"
        "\<lambda>rd. rd\<lparr>rd_pc := RPublishAll (map snd (pending_calls s)) st\<rparr>" x] i pc
    by (simp add: registered_count_def)
  have "call_ok ?s x" if "x < length (calls s)" for x
  proof (rule call_ok_keep[of s x])
    show "call_ok s x" using ok that by (simp add: tr_ok_def)
    show "weight ?s x = weight s x" using h[of x] by (simp add: weight_def registered_count_def)
    show "registered_count ?s x \<le> registered_count s x" by (simp add: registered_count_def)
  qed simp
  moreover have "rd \<in> set (readers s)"
    if "rd \<in> set (readers ?s)" "rd_pc rd = RPublish c r n" for rd c r n
    using set_reader_member[OF _ that(1)] that(2) i by auto
  ultimately show ?thesis using ok h by (intro tr_okI[OF ok]) (auto simp: tr_ok_def)
qed

lemma tr_ok_reader_publishes:
  assumes ok: "tr_ok m s" and i: "i < length (readers s)"
    and d: "reader_held (rd_pc (readers s ! i)) = d # ds" "reader_held (rd_pc (f (readers s ! i))) = ds"
      "\<And>c r n. rd_pc (f (readers s ! i)) \<noteq> RPublish c r n"
    and r: "publishable s d r"
  shows "tr_ok m (publish d r (set_reader i f s))"
proof (rule tr_ok_publish[OF ok _ r])
  show "held s d \<noteq> 0" using held_member(1)[OF i, of d] d(1) by simp
  show "held (set_reader i f s) x + (if x = d then 1 else 0) = held s x" for x
    using held_set_reader[OF i, of f x] d(1,2) by auto
  show "rd \<in> set (readers s)" if "rd \<in> set (readers (set_reader i f s))" "rd_pc rd = RPublish c r n" for rd c r n
    using set_reader_member[OF i that(1)] that(2) d(3) by auto
qed simp_all

lemma publish_set_reader: "set_reader i f (publish d r s) = publish d r (set_reader i f s)"
  by (simp add: publish_def set_reader_def set_call_def Let_def)

subsection \<open>Steps\<close>

lemma start_reader_held [simp]:
  "held (start_reader fd s) = held s" "calls (start_reader fd s) = calls s"
  "registered_count (start_reader fd s) = registered_count s"
  by (auto simp: start_reader_def held_def registered_count_def)

lemma tr_ok_start_reader: "tr_ok m s \<Longrightarrow> tr_ok m (start_reader fd s)"
  by (auto simp: tr_ok_def keys_ok_def call_ok_def weight_def)
    (auto simp: start_reader_def)

lemma tr_ok_call_made:
  assumes ok: "tr_ok m s" and new: "\<forall>cl\<in>set (calls s). req_id (call_request cl) \<noteq> req_id r"
  shows "tr_ok m (s\<lparr>calls := calls s @ [new_call r deadline]\<rparr>)"
proof -
  let ?s = "s\<lparr>calls := calls s @ [new_call r deadline]\<rparr>" and ?n = "length (calls s)"
  have h: "held ?s = held s" "registered_count ?s = registered_count s"
    by (auto simp: held_def registered_count_def new_call_def)
  have z: "held s ?n = 0" "registered_count s ?n = 0"
    using ok by (auto simp: tr_ok_def keys_ok_def registered_count_def count_list_0_iff)
  have "call_ok ?s c" if "c < Suc ?n" for c
  proof (cases "c = ?n")
    case True
    then show ?thesis using h z
      by (simp add: call_ok_def weight_def pc_ok_def slot_ok_def new_call_def)
  next
    case False
    then show ?thesis using that h ok by (auto simp: call_ok_def weight_def tr_ok_def nth_append)
  qed
  moreover have "resp_id q = call_id ?s c" if rd: "rd \<in> set (readers s)" "rd_pc rd = RPublish c q n" for rd c q n
  proof -
    obtain i where "i < length (readers s)" "readers s ! i = rd" using rd(1) by (auto simp: in_set_conv_nth)
    then have "c < ?n" using held_member(1)[of i s c] held_slot(1)[OF ok, of c] rd(2) by simp
    then show ?thesis using ok rd by (auto simp: tr_ok_def keys_ok_def nth_append)
  qed
  then have "keys_ok ?s"
    using ok new h by (auto simp: tr_ok_def keys_ok_def nth_append new_call_def less_Suc_eq)
  ultimately show ?thesis using ok by (simp add: tr_ok_def)
qed

lemma reader_step_ok:
  assumes ok: "tr_ok m s" and i: "i < length (readers s)" and st: "reader_step net env inp i s = Some s'"
  shows "tr_ok m s'"
proof (cases "rd_pc (readers s ! i)")
  case RDecode
  have "reader_held (reader_decode env p b) = []" for p b
    by (simp add: reader_decode_def Let_def split: option.split)
  then show ?thesis using st RDecode tr_ok_set_reader[OF ok i]
    by (auto simp: reader_step_def)
next
  case RRecv
  then have "reader_held (rd_pc (reader_recv net (in_io inp) (readers s ! i))) = []"
    by (simp add: reader_recv_def)
  then show ?thesis using st RRecv tr_ok_set_reader[OF ok i] by (auto simp: reader_step_def)
next
  case (RComplete r n)
  then show ?thesis
    using st tr_ok_set_reader[OF ok i] tr_ok_reader_matches[OF ok i RComplete]
    by (auto simp: reader_step_def erase_def split: option.splits)
next
  case (RPublish c r n)
  then have "resp_id r = call_id s c" using ok nth_mem[OF i] unfolding tr_ok_def keys_ok_def by blast
  then have "tr_ok m (publish c (CallResponse r)
      (set_reader i (\<lambda>rd. rd\<lparr>rd_pc := RDecode, rd_buffer := drop n (rd_buffer rd)\<rparr>) s))"
    using RPublish by (intro tr_ok_reader_publishes[OF ok i]) (simp_all add: publishable_def)
  then show ?thesis using st RPublish by (simp add: reader_step_def publish_set_reader)
next
  case (RClose e)
  have "tr_ok m (if valid (tr_socket s) \<and> tr_socket s = rd_fd (readers s ! i) then CloseSocketLocked s else s)"
    using ok by (simp add: tr_ok_other)
  then show ?thesis using st RClose i
    by (auto simp: reader_step_def CloseSocketLocked_def split: if_splits intro!: tr_ok_set_reader)
next
  case (RTake e)
  then show ?thesis using st tr_ok_reader_takes[OF ok i RTake]
    by (simp add: reader_step_def take_all_pending_def)
next
  case (RPublishAll cs e)
  show ?thesis
  proof (cases cs)
    case Nil
    then show ?thesis using st RPublishAll tr_ok_set_reader[OF ok i] by (auto simp: reader_step_def)
  next
    case (Cons d ds)
    have "tr_ok m (publish d (MakeCallFailure e MaybeSent) (reader_goto i (RPublishAll ds e) s))"
      using RPublishAll Cons
      by (intro tr_ok_reader_publishes[OF ok i]) (simp_all add: publishable_def MakeCallFailure_def)
    then show ?thesis using st RPublishAll Cons by (simp add: reader_step_def)
  qed
next
  case RDone
  then show ?thesis using st by (simp add: reader_step_def)
qed

lemma call_ok_at: "tr_ok m s \<Longrightarrow> c < length (calls s) \<Longrightarrow> pc_ok (weight s c) (registered_count s c) (calls s ! c)"
  "tr_ok m s \<Longrightarrow> c < length (calls s) \<Longrightarrow> weight s c \<le> 1"
  "tr_ok m s \<Longrightarrow> c < length (calls s) \<Longrightarrow> slot_ok (calls s ! c)"
  by (auto simp: tr_ok_def call_ok_def)

text \<open>A call that only moves to another point.\<close>

lemma tr_ok_goto:
  assumes "tr_ok m s" "c < length (calls s)" "call_held (call_pc (calls s ! c)) = []" "call_held pc = []"
    "pc_ok (weight s c) (registered_count s c) ((calls s ! c)\<lparr>call_pc := pc\<rparr>)"
  shows "tr_ok m (goto_pc c pc s)"
  using assms by (intro tr_ok_set_call) simp_all

lemma weight_fields [simp]:
  "weight (s\<lparr>write_owner := w\<rparr>) = weight s" "weight (s\<lparr>state_owner := w\<rparr>) = weight s"
  "weight (s\<lparr>tr_reader := r\<rparr>) = weight s" "weight (s\<lparr>tr_socket := fd\<rparr>) = weight s"
  "weight (start_reader fd s) = weight s" "weight (CloseSocketLocked s) = weight s"
  "registered_count (CloseSocketLocked s) = registered_count s" "calls (CloseSocketLocked s) = calls s"
  by (auto simp: weight_def CloseSocketLocked_def fun_eq_iff)

lemma connect_section_ok:
  assumes ok: "tr_ok m s" and c: "c < length (calls s)"
    and pc: "call_held (call_pc (calls s ! c)) = []" "weight s c = 0" "taken_bytes (calls s ! c) = 0"
  shows "tr_ok m (connect_section r c s)"
proof (cases r)
  case (Inl st)
  then show ?thesis using assms
    by (auto simp: connect_section_def pc_ok_def outcome_ok_def MakeCallFailure_def intro!: tr_ok_goto)
next
  case (Inr fd)
  then show ?thesis using assms
    by (auto simp: connect_section_def pc_ok_def
        intro!: tr_ok_goto tr_ok_start_reader tr_ok_other)
qed

lemma call_begin_ok:
  assumes ok: "tr_ok m s" and c: "c < length (calls s)" and pc: "call_pc (calls s ! c) = CStart"
  shows "tr_ok m (call_begin env now c s)"
  using call_ok_at(1)[OF ok c] ok c pc
  by (auto simp: call_begin_def Let_def pc_ok_def outcome_ok_def MakeCallFailure_def
      intro!: tr_ok_goto tr_ok_set_call split: status_or.splits)

lemma write_check_ok:
  assumes ok: "tr_ok m s" and c: "c < length (calls s)" and pc: "call_pc (calls s ! c) = CWriteCheck"
  shows "tr_ok m (write_check net inp c s)"
  using call_ok_at(1)[OF ok c] ok c pc
  by (auto simp: write_check_def pc_ok_def intro!: tr_ok_goto split: option.split)

lemma send_step_ok:
  assumes ok: "tr_ok m s" and c: "c < length (calls s)" and pc: "call_pc (calls s ! c) = CSending fd w again"
    and hon: "honest inp (calls s ! c)" and st: "call_step net env inp c s = Some s'"
  shows "tr_ok m s'"
proof -
  let ?cl = "calls s ! c"
  let ?r = "SendAll_step net (call_deadline ?cl) (in_now inp) (in_timeo inp) (in_io inp) (call_frame ?cl) w again"
  have now: "weight s c = 1" "taken_bytes ?cl = w" "w \<le> length (call_frame ?cl)"
    using call_ok_at(1)[OF ok c] pc by (simp_all add: pc_ok_def)
  show ?thesis
  proof (cases ?r)
    case AllSent
    then have "w = length (call_frame ?cl)"
      using now(3) by (auto simp: SendAll_step_def split: if_splits)
    then show ?thesis using st AllSent pc now ok c
      by (auto simp: call_step_def Let_def pc_ok_def intro!: tr_ok_goto tr_ok_other)
  next
    case (SendMore w' again')
    then have "w' \<le> length (call_frame ?cl)"
      using now(3) hon pc by (auto simp: SendAll_step_def honest_def split: if_splits)
    then show ?thesis using st SendMore pc now ok c
      by (auto simp: call_step_def Let_def pc_ok_def intro!: tr_ok_set_call)
  next
    case (SendFailed e)
    then show ?thesis using st pc now ok c
      by (auto simp: call_step_def Let_def pc_ok_def intro!: tr_ok_goto)
  qed
qed

lemma unregister_eq:
  assumes "keys_ok s" "c < length (calls s)"
  shows "TryUnregisterPending (call_id s c) s = (registered_count s c \<noteq> 0, erase (call_id s c) s)"
  using lookup_count[OF assms] by (simp add: TryUnregisterPending_def erase_def)

lemma goto_pc_fields:
  "goto_pc c pc (s\<lparr>write_owner := w\<rparr>) = (goto_pc c pc s)\<lparr>write_owner := w\<rparr>"
  by (simp add: set_call_def)

lemma publish_step_ok:
  assumes ok: "tr_ok m s" and c: "c < length (calls s)" and pc: "call_pc (calls s ! c) = CPublishAll cs e rd"
    and st: "call_step net env inp c s = Some s'"
  shows "tr_ok m s'"
proof (cases cs)
  case Nil
  have "pc_ok w reg ((calls s ! c)\<lparr>call_pc := CCloseJoin e rd\<rparr>)" for w reg by (simp add: pc_ok_def)
  then show ?thesis using st pc Nil ok c by (auto simp: call_step_def Let_def intro!: tr_ok_goto)
next
  case (Cons d ds)
  then show ?thesis using st pc tr_ok_call_publishes[OF ok c] by (auto simp: call_step_def Let_def)
qed

lemma call_step_ok:
  assumes ok: "tr_ok m s" and c: "c < length (calls s)" and hon: "honest inp (calls s ! c)"
    and st: "call_step net env inp c s = Some s'"
  shows "tr_ok m s'"
proof -
  have k: "keys_ok s" and room: "max_inflight_per_endpoint s = m" using ok by (simp_all add: tr_ok_def)
  note now = call_ok_at[OF ok c]
  note moves = tr_ok_goto tr_ok_other connect_section_ok[OF ok c] tr_ok_unregister[OF ok c] tr_ok_start_reader
  note defs = call_step_def Let_def pc_ok_def outcome_ok_def MakeCallFailure_def slot_ok_def
    unregister_eq[OF k c] goto_pc_fields TryRegisterPending_def
  show ?thesis
  proof (cases "call_pc (calls s ! c)")
    case CStart
    then show ?thesis using st call_begin_ok[OF ok c] by (auto simp: call_step_def Let_def)
  next
    case CWriteCheck
    then show ?thesis using st write_check_ok[OF ok c] by (auto simp: call_step_def Let_def split: if_splits)
  next
    case (CSending fd w again)
    then show ?thesis using send_step_ok[OF ok c _ hon st] by simp
  next
    case (CTake e rd)
    then show ?thesis using st tr_ok_call_takes[OF ok c CTake]
      by (auto simp: call_step_def Let_def take_all_pending_def)
  next
    case (CPublishAll cs e rd)
    then show ?thesis using publish_step_ok[OF ok c _ st] by simp
  next
    case CRegister
    then show ?thesis
      using st now ok c room tr_ok_register[OF ok c CRegister] by (auto simp: defs split: if_splits intro!: moves)
  next
    case CUnregister
    then show ?thesis using st now ok c by (auto simp: defs split: bool.splits intro!: moves)
  qed (use st now ok c in \<open>auto simp: defs intro!: moves
        split: if_splits option.splits call_attempt_result.splits\<close>)
qed

theorem transport_invariant: "transport_reach net env plimits m s \<Longrightarrow> tr_ok m s"
proof (induction rule: transport_reach.induct)
  case transport_new
  show ?case by (simp add: tr_ok_def keys_ok_def TcpTransport_def held_def)
next
  case (transport_next s s')
  from transport_next.hyps(2) show ?case
    using transport_next.IH tr_ok_call_made call_step_ok reader_step_ok by (cases) blast+
qed

text \<open>Runs that name each step.\<close>

datatype tr_action = Make_Call request_envelope "int option" | Move_Call nat step_input | Move_Reader nat step_input

definition tr_act :: "net_env \<Rightarrow> codec_env \<Rightarrow> tr_action \<Rightarrow> transport \<Rightarrow> transport option" where
  "tr_act net env a s = (case a of
     Make_Call r d \<Rightarrow>
       if req_id r \<in> set (map (\<lambda>cl. req_id (call_request cl)) (calls s)) then None
       else Some (s\<lparr>calls := calls s @ [new_call r d]\<rparr>)
   | Move_Call c inp \<Rightarrow>
       if c < length (calls s) \<and> honest inp (calls s ! c) then call_step net env inp c s else None
   | Move_Reader i inp \<Rightarrow> if i < length (readers s) then reader_step net env inp i s else None)"

fun tr_run :: "net_env \<Rightarrow> codec_env \<Rightarrow> tr_action list \<Rightarrow> transport \<Rightarrow> transport option" where
  "tr_run net env [] s = Some s"
| "tr_run net env (a # as) s = (case tr_act net env a s of None \<Rightarrow> None | Some s' \<Rightarrow> tr_run net env as s')"

lemma tr_act_step: "tr_act net env a s = Some s' \<Longrightarrow> transport_step net env s s'"
  by (cases a)
    (auto simp: tr_act_def image_iff split: if_splits intro: transport_step.intros intro!: call_made)

lemma tr_run_steps: "tr_run net env as s = Some s' \<Longrightarrow> (transport_step net env)\<^sup>*\<^sup>* s s'"
  by (induction as arbitrary: s)
    (auto split: option.splits intro: converse_rtranclp_into_rtranclp tr_act_step)

lemma steps_reach:
  "(transport_step net env)\<^sup>*\<^sup>* s s' \<Longrightarrow> transport_reach net env plimits m s \<Longrightarrow>
     transport_reach net env plimits m s'"
  by (induction rule: rtranclp_induct) (auto intro: transport_next)

lemma tr_run_reach:
  "tr_run net env as (TcpTransport plimits m) = Some s \<Longrightarrow> transport_reach net env plimits m s"
  using steps_reach[OF tr_run_steps transport_new] .

text \<open>A reader that publishes failures comes to its end.\<close>

lemma publish_slots:
  assumes "d < length (calls s)"
  shows "call_slot (calls (publish d r s) ! x) = (if x = d then Some r else call_slot (calls s ! x))"
    "length (calls (publish d r s)) = length (calls s)" "readers (publish d r s) = readers s"
    "pending_calls (publish d r s) = pending_calls s"
  using assms by (auto simp: publish_def Let_def)

lemma publishing_reader_ends:
  assumes "rd_pc (readers s ! i) = RPublishAll cs st" "i < length (readers s)" "set cs \<subseteq> {..<length (calls s)}"
  shows "\<exists>s'. tr_run net env (replicate (Suc (length cs)) (Move_Reader i inp)) s = Some s' \<and>
    rd_pc (readers s' ! i) = RDone \<and> pending_calls s' = pending_calls s \<and>
    (\<forall>c. call_slot (calls s' ! c) =
       (if c \<in> set cs then Some (MakeCallFailure st MaybeSent) else call_slot (calls s ! c)))"
  using assms
proof (induction cs arbitrary: s)
  case Nil
  then show ?case by (simp add: tr_act_def reader_step_def) (simp add: set_reader_def)
next
  case (Cons d ds)
  let ?s = "publish d (MakeCallFailure st MaybeSent) (reader_goto i (RPublishAll ds st) s)"
  have d: "d < length (calls (reader_goto i (RPublishAll ds st) s))" using Cons.prems(3) by simp
  have "rd_pc (readers ?s ! i) = RPublishAll ds st" "i < length (readers ?s)" "set ds \<subseteq> {..<length (calls ?s)}"
    using Cons.prems publish_slots[OF d] by (auto simp: set_reader_def)
  from Cons.IH[OF this] obtain s' where
    s': "tr_run net env (replicate (Suc (length ds)) (Move_Reader i inp)) ?s = Some s'"
      "rd_pc (readers s' ! i) = RDone" "pending_calls s' = pending_calls ?s"
      "\<And>c. call_slot (calls s' ! c) =
        (if c \<in> set ds then Some (MakeCallFailure st MaybeSent) else call_slot (calls ?s ! c))" by blast
  have "tr_act net env (Move_Reader i inp) s = Some ?s"
    using Cons.prems by (simp add: tr_act_def reader_step_def)
  then have "tr_run net env (replicate (Suc (length (d # ds))) (Move_Reader i inp)) s = Some s'" using s'(1) by simp
  then show ?case using s' publish_slots[OF d] by (intro exI[of _ s']) auto
qed


text \<open>C5. A call that waits for its result is never lost. In every reachable state no result has
  replaced another, at most \<^verbatim>\<open>max_inflight_per_endpoint\<close> calls are pending, and a call that waits
  without a result is either registered under its request id or held by exactly one thread that has
  taken it and will complete it; never both.\<close>

theorem pending_calls_complete:
  assumes "transport_reach net env plimits m s" "c < length (calls s)"
    "call_pc (calls s ! c) \<in> {CWait, CUnregister, CWaitOwner}" "call_slot (calls s ! c) = None"
  shows "\<not> slot_overwritten s \<and> length (pending_calls s) \<le> m \<and>
    (if map_of (pending_calls s) (req_id (call_request (calls s ! c))) = Some c then held s c = 0
     else held s c = 1)"
proof -
  note ok = transport_invariant[OF assms(1)]
  have k: "keys_ok s" using ok by (simp add: tr_ok_def)
  have "weight s c = 1" using call_ok_at(1)[OF ok assms(2)] assms(3) by (auto simp: pc_ok_def)
  then show ?thesis using ok assms(4) lookup_count[OF k assms(2)]
    by (auto simp: weight_def tr_ok_def)
qed

text \<open>C6. What a call returns: a response has the request id of the call, and a failure that the
  caller may retry elsewhere means that the kernel has taken no byte of the request.\<close>

theorem call_results_match:
  assumes "transport_reach net env plimits m s" "c < length (calls s)" "call_pc (calls s ! c) = CDone r"
  shows "(case r of CallResponse resp \<Rightarrow> resp_id resp = req_id (call_request (calls s ! c))
      | CallFailed f \<Rightarrow> True) \<and>
    (CanRetryWithoutDuplicateRequest r \<longrightarrow> taken_bytes (calls s ! c) = 0)"
  using call_ok_at(1)[OF transport_invariant[OF assms(1)] assms(2)] assms(3)
  by (auto simp: pc_ok_def outcome_ok_def CanRetryWithoutDuplicateRequest_def split: call_attempt_result.splits)

section \<open>Runs\<close>

text \<open>Four calls, whose frames are not empty, with nothing known of the bytes.\<close>

definition demo_call :: "u64 \<Rightarrow> request_envelope" where
  "demo_call i = demo_request\<lparr>req_id := i\<rparr>"

lemma demo_call_frame: "\<exists>b f. Encode_request demo_env demo_limits (demo_call i) = Value (b # f)"
proof -
  have "\<exists>f. Encode_request demo_env demo_limits (demo_call i) = Value f"
    by (simp add: demo_call_def Encode_request_Value frame_fits_def
      demo_env_def demo_request_def demo_limits_def DEFAULT_MAX_METADATA_SIZE_def Let_def)
  then obtain f where f: "Encode_request demo_env demo_limits (demo_call i) = Value f" ..
  then have "f \<noteq> []" by (auto simp: Encode_request_Value demo_env_def demo_call_def demo_request_def Let_def)
  then show ?thesis using f by (cases f) auto
qed

definition demo_input :: "int \<Rightarrow> int \<Rightarrow> step_input" where
  "demo_input fd n = \<lparr>in_now = 0, in_connect = Inr fd, in_timeo = sys_ok 0, in_io = sys_ok n\<rparr>"

definition demo_broken :: step_input where
  "demo_broken = \<lparr>in_now = 0, in_connect = Inr 5, in_timeo = sys_ok 0, in_io = sys_fail 32\<rparr>"

abbreviation mv_act :: "nat \<Rightarrow> tr_action" where
  "mv_act c \<equiv> Move_Call c (demo_input 5 0)"

abbreviation rd_act :: "nat \<Rightarrow> tr_action" where
  "rd_act i \<equiv> Move_Reader i (demo_input 5 0)"

text \<open>A connection that its peer closes; call 1 waits for its reader to end. Call 2 connects again
  and its request cannot be written: it closes the socket. Call 3 connects and gets the descriptor
  number that has just become free.\<close>

definition stale_run :: "tr_action list" where
  "stale_run =
    [Make_Call (demo_call 1) None, Make_Call (demo_call 2) None, Make_Call (demo_call 3) None,
     Make_Call (demo_call 4) None, mv_act 0, mv_act 0, rd_act 0, rd_act 0, rd_act 0, rd_act 0, rd_act 0, mv_act 1, mv_act 1,
     mv_act 2, mv_act 2, mv_act 2, mv_act 2, mv_act 2, rd_act 1, Move_Call 2 demo_broken, mv_act 2, mv_act 2, mv_act 3, mv_act 3, rd_act 1]"

lemmas tr_run_defs = tr_act_def TcpTransport_def new_call_def call_step_def reader_step_def call_begin_def
  connect_section_def start_reader_def write_check_def set_call_def set_reader_def reader_decode_def
  reader_recv_def Decode_empty honest_def demo_input_def demo_broken_def sys_ok_def sys_fail_def valid_def
  DeadlineExpired_def reader_ended_def TryRegisterPending_def TryUnregisterPending_def SetSendTimeout_def
  SendAll_step_def CloseSocketLocked_def take_all_pending_def Let_def demo_call_def

text \<open>Then the reader of the connection that call 2 closed learns of it; call 1 goes on, connects,
  and waits for the reader of call 3's connection, which learns that its socket is shut down.\<close>

definition deadlock_run :: "tr_action list" where
  "deadlock_run = [rd_act 1, mv_act 1, Move_Call 1 (demo_input 6 0), rd_act 2, rd_act 2]"

lemma stale_run_result:
  "\<exists>s. tr_run demo_net demo_env stale_run (TcpTransport demo_limits 4) = Some s \<and>
    tr_socket s = 5 \<and> tr_generation s = 2 \<and> 1 < length (readers s) \<and> 2 < length (readers s) \<and>
    (\<exists>st. rd_pc (readers s ! 1) = RClose st) \<and>
    (\<exists>s'. reader_step demo_net demo_env (demo_input 5 0) 1 s = Some s' \<and> tr_socket s' = - 1 \<and>
      tr_generation s' = 2 \<and> rd_pc (readers s' ! 2) = RDecode) \<and>
    (\<exists>s' st. tr_run demo_net demo_env deadlock_run s = Some s' \<and> 1 < length (calls s') \<and>
      2 < length (readers s') \<and> call_pc (calls s' ! 1) = CReplace 6 \<and> state_owner s' = Some 1 \<and>
      tr_reader s' = Some 2 \<and> rd_pc (readers s' ! 2) = RClose st)"
proof -
  obtain b1 f1 b2 f2 b3 f3 b4 f4 where
    "Encode_request demo_env demo_limits (demo_request\<lparr>req_id := 1\<rparr>) = Value (b1 # f1)"
    "Encode_request demo_env demo_limits (demo_request\<lparr>req_id := 2\<rparr>) = Value (b2 # f2)"
    "Encode_request demo_env demo_limits (demo_request\<lparr>req_id := 3\<rparr>) = Value (b3 # f3)"
    "Encode_request demo_env demo_limits (demo_request\<lparr>req_id := 4\<rparr>) = Value (b4 # f4)"
    using demo_call_frame unfolding demo_call_def by meson
  then show ?thesis unfolding stale_run_def deadlock_run_def numeral_2_eq_2 numeral_3_eq_3
    by (simp add: tr_run_defs EINTR_def)
qed

text \<open>C36. The reader of a connection that is gone can close the current one. After \<^const>\<open>stale_run\<close>
  reader 1 belongs to a connection closed earlier and the transport is connected with the socket of
  reader 2; the step in which reader 1 closes the socket it owns closes that of reader 2, because the
  two sockets have had the same descriptor number.\<close>

theorem stale_reader_closes_current:
  "\<exists>s s'. transport_reach demo_net demo_env demo_limits 4 s \<and> valid (tr_socket s) \<and> tr_generation s \<noteq> 1 \<and>
     reader_step demo_net demo_env (demo_input 5 0) 1 s = Some s' \<and> \<not> valid (tr_socket s')"
proof -
  obtain s s' where "tr_run demo_net demo_env stale_run (TcpTransport demo_limits 4) = Some s"
      "tr_socket s = 5" "tr_generation s = 2"
      "reader_step demo_net demo_env (demo_input 5 0) 1 s = Some s'" "tr_socket s' = - 1"
    using stale_run_result by blast
  then show ?thesis using tr_run_reach[of demo_net demo_env stale_run demo_limits 4 s]
    by (intro exI[of _ s] exI[of _ s']) (simp add: valid_def)
qed

text \<open>A call that holds \<^verbatim>\<open>state_mutex_\<close> while it waits for a reader that needs it.\<close>

definition deadlocked :: "nat \<Rightarrow> nat \<Rightarrow> transport \<Rightarrow> bool" where
  "deadlocked c r s \<longleftrightarrow> c < length (calls s) \<and> r < length (readers s) \<and> state_owner s = Some c \<and>
     tr_reader s = Some r \<and> (\<exists>fd. call_pc (calls s ! c) = CReplace fd) \<and> (\<exists>st. rd_pc (readers s ! r) = RClose st)"

lemma deadlocked_set_call:
  "deadlocked c r s \<Longrightarrow> x \<noteq> c \<or> call_pc (f (calls s ! x)) = call_pc (calls s ! x) \<Longrightarrow> deadlocked c r (set_call x f s)"
  by (cases "x = c") (auto simp: deadlocked_def set_call_def)

lemma deadlocked_publish: "deadlocked c r s \<Longrightarrow> deadlocked c r (publish d v s)"
  unfolding publish_def Let_def by (rule deadlocked_set_call) (auto simp: deadlocked_def)

lemma deadlocked_set_reader:
  "deadlocked c r s \<Longrightarrow> i \<noteq> r \<Longrightarrow> deadlocked c r (set_reader i f s)"
  by (auto simp: deadlocked_def set_reader_def nth_list_update)

lemma deadlocked_fields:
  "deadlocked c r s \<Longrightarrow> deadlocked c r (s\<lparr>write_owner := w\<rparr>)"
  "deadlocked c r s \<Longrightarrow> deadlocked c r (s\<lparr>pending_calls := p\<rparr>)"
  by (auto simp: deadlocked_def)

lemma deadlocked_step:
  assumes d: "deadlocked c r s" and st: "transport_step net env s s'"
  shows "deadlocked c r s'"
  using st
proof cases
  case (call_made q deadline)
  then show ?thesis using d by (auto simp: deadlocked_def nth_append)
next
  case (call_moved x inp)
  have "x \<noteq> c" using call_moved(3) d by (auto simp: call_step_def deadlocked_def reader_ended_def)
  moreover have "state_owner s \<noteq> None" using d by (simp add: deadlocked_def)
  ultimately show ?thesis using call_moved(3) d
    by (cases "call_pc (calls s ! x)")
      (auto simp: call_step_def Let_def call_begin_def TryRegisterPending_def TryUnregisterPending_def
        take_all_pending_def reader_ended_def deadlocked_def[of c r s]
        intro!: deadlocked_set_call deadlocked_publish deadlocked_fields
        split: if_splits option.splits status_or.splits send_outcome.splits bool.splits list.splits)
next
  case (reader_moved i inp)
  have "i \<noteq> r" using reader_moved(2) d by (auto simp: reader_step_def deadlocked_def)
  then show ?thesis using reader_moved(2) d
    by (cases "rd_pc (readers s ! i)")
      (auto simp: reader_step_def Let_def take_all_pending_def deadlocked_def[of c r s]
        intro!: deadlocked_set_reader deadlocked_publish deadlocked_fields
        split: if_splits option.splits list.splits)
qed

text \<open>C37. And that can end in a deadlock: call 1 holds \<^verbatim>\<open>state_mutex_\<close> and joins the reader whose
  connection was closed under it, and that reader waits for \<^verbatim>\<open>state_mutex_\<close>. The state is reachable,
  and every state that follows it has the same two threads waiting for each other.\<close>

theorem stale_reader_deadlock:
  "\<exists>s. transport_reach demo_net demo_env demo_limits 4 s \<and>
     {s'. (transport_step demo_net demo_env)\<^sup>*\<^sup>* s s'} \<subseteq> {s'. deadlocked 1 2 s'}"
proof -
  obtain s0 s st where run: "tr_run demo_net demo_env stale_run (TcpTransport demo_limits 4) = Some s0"
      "tr_run demo_net demo_env deadlock_run s0 = Some s" "1 < length (calls s)" "2 < length (readers s)"
      "call_pc (calls s ! 1) = CReplace 6" "state_owner s = Some 1" "tr_reader s = Some 2"
      "rd_pc (readers s ! 2) = RClose st"
    using stale_run_result by blast
  have "transport_reach demo_net demo_env demo_limits 4 s"
    by (rule steps_reach[OF tr_run_steps[OF run(2)] tr_run_reach[OF run(1)]])
  moreover have "deadlocked 1 2 s" using run by (simp add: deadlocked_def)
  moreover have "deadlocked 1 2 s'" if "(transport_step demo_net demo_env)\<^sup>*\<^sup>* s s'" for s'
    using that \<open>deadlocked 1 2 s\<close> by (induction rule: rtranclp_induct) (auto intro: deadlocked_step)
  ultimately show ?thesis by blast
qed

text \<open>A call that has sent its request, and its connection closed by the peer.\<close>

lemma waiting_run:
  "\<exists>as s s'. tr_run demo_net demo_env as (TcpTransport demo_limits 4) = Some s \<and> length (calls s) = 1 \<and>
     call_pc (calls s ! 0) = CWait \<and> call_slot (calls s ! 0) = None \<and> pending_calls s = [(1, 0)] \<and>
     req_id (call_request (calls s ! 0)) = 1 \<and>
     tr_run demo_net demo_env [rd_act 0, rd_act 0, rd_act 0] s = Some s' \<and> length (readers s') = 1 \<and>
     rd_pc (readers s' ! 0) = RTake (PeerClosedStatus ''recv'') \<and> pending_calls s' = [(1, 0)]"
proof -
  obtain b f where "Encode_request demo_env demo_limits (demo_request\<lparr>req_id := 1\<rparr>) = Value (b # f)"
    using demo_call_frame unfolding demo_call_def by meson
  then show ?thesis
    by (intro exI[of _ "[Make_Call (demo_call 1) None, mv_act 0, mv_act 0, mv_act 0, mv_act 0, mv_act 0,
        Move_Call 0 (demo_input 5 (int (Suc (length f)))), mv_act 0]"])
      (simp add: tr_run_defs EINTR_def)
qed

theorem pending_calls_complete_witness:
  "\<exists>s. transport_reach demo_net demo_env demo_limits 4 s \<and> call_pc (calls s ! 0) = CWait \<and>
     \<not> slot_overwritten s \<and> length (pending_calls s) \<le> 4 \<and> held s 0 = 0"
proof -
  obtain as s where run: "tr_run demo_net demo_env as (TcpTransport demo_limits 4) = Some s"
      "length (calls s) = 1" "call_pc (calls s ! 0) = CWait" "call_slot (calls s ! 0) = None"
      "pending_calls s = [(1, 0)]" "req_id (call_request (calls s ! 0)) = 1"
    using waiting_run by blast
  then show ?thesis
    using pending_calls_complete[OF tr_run_reach[OF run(1)], of 0] tr_run_reach[OF run(1)] by auto
qed


lemma refused_run:
  "\<exists>as s. tr_run demo_net demo_env as (TcpTransport demo_limits 4) = Some s \<and> length (calls s) = 1 \<and>
     call_request (calls s ! 0) = demo_call 1 \<and> taken_bytes (calls s ! 0) = 0 \<and>
     call_pc (calls s ! 0) = CDone (MakeCallFailure (Status Unavailable ''refused'') NotSent)"
proof -
  let ?as = "[Make_Call (demo_call 1) None, mv_act 0,
      Move_Call 0 (demo_input 5 0\<lparr>in_connect := Inl (Status Unavailable ''refused'')\<rparr>)]"
  obtain b f where "Encode_request demo_env demo_limits (demo_request\<lparr>req_id := 1\<rparr>) = Value (b # f)"
    using demo_call_frame unfolding demo_call_def by meson
  then show ?thesis by (intro exI[of _ ?as]) (simp add: tr_run_defs)
qed

theorem call_results_match_witness:
  "\<exists>s r. transport_reach demo_net demo_env demo_limits 4 s \<and> call_pc (calls s ! 0) = CDone r \<and>
     CanRetryWithoutDuplicateRequest r \<and> taken_bytes (calls s ! 0) = 0"
proof -
  let ?r = "MakeCallFailure (Status Unavailable ''refused'') NotSent"
  obtain as s where run: "tr_run demo_net demo_env as (TcpTransport demo_limits 4) = Some s"
      "length (calls s) = 1" "call_pc (calls s ! 0) = CDone ?r"
    using refused_run by blast
  then show ?thesis
    using call_results_match[OF tr_run_reach[OF run(1)], of 0 ?r] tr_run_reach[OF run(1)]
    by (intro exI[of _ s] exI[of _ ?r]) (simp add: CanRetryWithoutDuplicateRequest_def MakeCallFailure_def)
qed

end
