(* ===== verification/Rpc_Client.thy ===== *)
theory Rpc_Client
  imports Tcp_Transport Consul Service_Registry
begin

text \<open>
  \<^verbatim>\<open>src/client/rpc_client_impl.cpp\<close>, \<^verbatim>\<open>src/client/rpc_client.cpp\<close> and the typed call of
  \<^verbatim>\<open>include/xrpc/rpc_client.h\<close>: routing of a call to an endpoint, consistent hashing of sticky keys,
  and failover. What the transports return and what the discovery has published are inputs.
\<close>

section \<open>Options\<close>

record client_options =
  target :: string
  consul_address :: string
  cl_timeout :: int
  cl_max_payload_size :: nat
  cl_max_inflight :: nat

definition ValidateClientOptions :: "client_options \<Rightarrow> protocol_limits status_or" where
  "ValidateClientOptions options =
    (if target options = [] then Error (Status InvalidArgument ''RpcClient target must not be empty'')
     else if consul_address options = [] then
       Error (Status InvalidArgument ''RpcClient consul_address must not be empty'')
     else if cl_timeout options < 0 then
       Error (Status InvalidArgument ''RpcClient timeout must not be negative'')
     else if cl_max_inflight options = 0 then
       Error (Status InvalidArgument ''RpcClient max_inflight_per_endpoint must be greater than 0'')
     else MakeProtocolLimits (cl_max_payload_size options))"

record call_options =
  co_timeout :: int
  sticky_key :: string

definition ValidateCallOptions :: "call_options \<Rightarrow> status" where
  "ValidateCallOptions options =
    (if co_timeout options < 0 then Status InvalidArgument ''CallOptions timeout must not be negative''
     else status_Ok)"

record effective_call_options =
  eff_deadline :: "int option"
  eff_sticky_key :: string

text \<open>Timeouts in milliseconds, the clock in nanoseconds.\<close>

definition ResolveCallOptions :: "int \<Rightarrow> int \<Rightarrow> call_options \<Rightarrow> effective_call_options" where
  "ResolveCallOptions now default_timeout options =
    (let timeout = (if co_timeout options > 0 then co_timeout options else default_timeout)
     in \<lparr>eff_deadline = (if timeout > 0 then Some (now + timeout * 1000000) else None),
         eff_sticky_key = sticky_key options\<rparr>)"

section \<open>The hash ring\<close>

definition VIRTUAL_NODE_COUNT :: nat where "VIRTUAL_NODE_COUNT = 128"
definition FNV1A_OFFSET_BASIS :: u64 where "FNV1A_OFFSET_BASIS = 14695981039346656037"
definition FNV1A_PRIME :: u64 where "FNV1A_PRIME = 1099511628211"

definition Fnv1a64 :: "string \<Rightarrow> u64" where
  "Fnv1a64 value = fold (\<lambda>ch hash. (hash XOR of_char ch) * FNV1A_PRIME) value FNV1A_OFFSET_BASIS"

definition MakeEndpointId :: "endpoint \<Rightarrow> string" where
  "MakeEndpointId e = ep_host e @ '':'' @ to_string (unat (ep_port e))"

record hash_ring_entry =
  ring_hash :: u64
  endpoint_index :: nat

definition vnode_hashes :: "endpoint \<Rightarrow> u64 list" where
  "vnode_hashes e = map (\<lambda>vnode. Fnv1a64 (MakeEndpointId e @ ''#'' @ to_string vnode)) [0..<VIRTUAL_NODE_COUNT]"

abbreviation ring_key :: "hash_ring_entry \<Rightarrow> u64 \<times> nat" where
  "ring_key e \<equiv> (ring_hash e, endpoint_index e)"

definition ring_entries :: "endpoint list \<Rightarrow> hash_ring_entry list" where
  "ring_entries endpoints =
    concat (map (\<lambda>i. map (\<lambda>h. \<lparr>ring_hash = h, endpoint_index = i\<rparr>) (vnode_hashes (endpoints ! i)))
      [0..<length endpoints])"

definition BuildHashRing :: "endpoint list \<Rightarrow> hash_ring_entry list" where
  "BuildHashRing endpoints = sort_key ring_key (ring_entries endpoints)"

text \<open>\<^verbatim>\<open>std::ranges::lower_bound\<close>: bisection of the \<open>len\<close> elements from \<open>first\<close> on.\<close>

function lower_bound :: "('a \<Rightarrow> u64) \<Rightarrow> 'a list \<Rightarrow> u64 \<Rightarrow> nat \<Rightarrow> nat \<Rightarrow> nat" where
  "lower_bound proj xs v first len =
    (if len = 0 then first
     else let half = len div 2; middle = first + half
       in if proj (xs ! middle) < v then lower_bound proj xs v (middle + 1) (len - half - 1)
          else lower_bound proj xs v first half)"
  by pat_completeness auto
termination by (relation "measure (\<lambda>(proj, xs, v, first, len). len)") auto

declare lower_bound.simps [simp del]

text \<open>The assertions are \<open>None\<close>.\<close>

definition SelectStickyStart :: "string \<Rightarrow> hash_ring_entry list \<Rightarrow> nat option" where
  "SelectStickyStart key ring =
    (if key = [] \<or> ring = [] then None
     else let entry = lower_bound ring_hash ring (Fnv1a64 key) 0 (length ring)
       in Some (if entry = length ring then endpoint_index (ring ! 0) else endpoint_index (ring ! entry)))"

section \<open>Routing\<close>

text \<open>A shared pointer to a published discovery snapshot is its address and what it points to; a
  transport is its number in \<open>made_transports\<close>, which records the endpoint each was made for.\<close>

type_synonym discovery_snapshot = "nat \<times> endpoint list"

record routing_snapshot =
  rs_endpoints :: discovery_snapshot
  transports :: "nat list"
  hash_ring :: "hash_ring_entry list"

record rpc_client =
  cl_limits :: protocol_limits
  default_timeout :: int
  max_inflight :: nat
  cl_discovery :: discovery
  routing :: "routing_snapshot option"
  next_endpoint_index :: u64
  next_request_id :: u64
  made_transports :: "endpoint list"

text \<open>The constructor starts the discovery, whose first fetch may fail; its refresh thread comes later.\<close>

definition StartDiscovery ::
  "net_env \<Rightarrow> json_env \<Rightarrow> discovery \<Rightarrow> char kernel \<Rightarrow> (discovery \<times> char kernel) option" where
  "StartDiscovery net json d k =
    (case d of
       StaticDiscovery eps \<Rightarrow> Some (d, k)
     | Consul c \<Rightarrow> (case Discovery_Start net json [] c k of
         None \<Rightarrow> None
       | Some (st, c, k) \<Rightarrow> Some (Consul c, k)))"

definition Impl_Create ::
  "net_env \<Rightarrow> json_env \<Rightarrow> client_options \<Rightarrow> char kernel \<Rightarrow> (rpc_client status_or \<times> char kernel) option" where
  "Impl_Create net json options k =
    (case ValidateClientOptions options of
       Error st \<Rightarrow> Some (Error st, k)
     | Value plimits \<Rightarrow>
         (case MakeServiceDiscovery (target options) (consul_address options) of
            Error st \<Rightarrow> Some (Error st, k)
          | Value d \<Rightarrow>
              (case StartDiscovery net json d k of
                 None \<Rightarrow> None
               | Some (d, k) \<Rightarrow> Some (Value \<lparr>cl_limits = plimits, default_timeout = cl_timeout options,
                   max_inflight = cl_max_inflight options, cl_discovery = d, routing = None,
                   next_endpoint_index = 0, next_request_id = 1, made_transports = []\<rparr>, k))))"

definition NextRequestId :: "rpc_client \<Rightarrow> u64 \<times> rpc_client" where
  "NextRequestId s = (next_request_id s, s\<lparr>next_request_id := next_request_id s + 1\<rparr>)"

fun find_endpoint :: "endpoint \<Rightarrow> endpoint list \<Rightarrow> nat list \<Rightarrow> nat option" where
  "find_endpoint e (x # xs) (t # ts) = (if x = e then Some t else find_endpoint e xs ts)"
| "find_endpoint e _ _ = None"

definition FindReusableTransport :: "routing_snapshot option \<Rightarrow> endpoint \<Rightarrow> nat option" where
  "FindReusableTransport snapshot e =
    (case snapshot of None \<Rightarrow> None | Some rs \<Rightarrow> find_endpoint e (snd (rs_endpoints rs)) (transports rs))"

text \<open>The loop of \<^verbatim>\<open>ResolveRoutingSnapshot\<close>: reuse a transport or make one.\<close>

fun route_endpoints ::
  "routing_snapshot option \<Rightarrow> endpoint list \<Rightarrow> nat list \<Rightarrow> endpoint list \<Rightarrow> nat list \<times> endpoint list" where
  "route_endpoints current [] ts made = (ts, made)"
| "route_endpoints current (e # es) ts made =
    (case FindReusableTransport current e of
       Some t \<Rightarrow> route_endpoints current es (ts @ [t]) made
     | None \<Rightarrow> route_endpoints current es (ts @ [length made]) (made @ [e]))"

text \<open>\<open>discovered\<close> and \<open>err\<close>, the last error, are what the discovery gives; \<open>loaded\<close> is the snapshot that the load
  before taking \<^verbatim>\<open>routing_update_mutex_\<close> has seen, which may be older than the current one.\<close>

definition ResolveRoutingSnapshot ::
  "discovery_snapshot option \<Rightarrow> string \<Rightarrow> routing_snapshot option \<Rightarrow> rpc_client \<Rightarrow>
     routing_snapshot status_or \<times> rpc_client" where
  "ResolveRoutingSnapshot discovered err loaded s =
    (case discovered of
       None \<Rightarrow> (Error (Status Unavailable (''service discovery has no endpoints'' @
         (if err \<noteq> [] then '': '' @ err else []))), s)
     | Some d \<Rightarrow>
         if snd d = [] then (Error (Status Unavailable (''service discovery has no endpoints'' @
           (if err \<noteq> [] then '': '' @ err else []))), s)
         else if loaded \<noteq> None \<and> fst (rs_endpoints (the loaded)) = fst d then (Value (the loaded), s)
         else if routing s \<noteq> None \<and> fst (rs_endpoints (the (routing s))) = fst d then
           (Value (the (routing s)), s)
         else (case route_endpoints (routing s) (snd d) [] (made_transports s) of
           (ts, made) \<Rightarrow>
             let published = \<lparr>rs_endpoints = d, transports = ts, hash_ring = BuildHashRing (snd d)\<rparr>
             in (Value published, s\<lparr>routing := Some published, made_transports := made\<rparr>)))"

section \<open>Calls\<close>

text \<open>The failover loop from \<open>offset\<close> on; the first component is the list of transports tried.\<close>

function failover ::
  "(nat \<Rightarrow> call_attempt_result) \<Rightarrow> nat list \<Rightarrow> nat \<Rightarrow> nat \<Rightarrow> call_attempt_result \<Rightarrow>
     nat list \<times> call_attempt_result" where
  "failover outcome ts start offset last_result =
    (if offset < length ts then
       let t = ts ! ((start + offset) mod length ts); r = outcome t
       in if HasResponse r \<or> MustStopRetryToAvoidDuplicateRequest r then ([t], r)
          else (case failover outcome ts start (offset + 1) r of (tried, res) \<Rightarrow> (t # tried, res))
     else ([], last_result))"
  by pat_completeness auto
termination by (relation "measure (\<lambda>(outcome, ts, start, offset, r). length ts - offset)") auto

declare failover.simps [simp del]

definition CallWithFailover ::
  "discovery_snapshot option \<Rightarrow> string \<Rightarrow> routing_snapshot option \<Rightarrow> (nat \<Rightarrow> call_attempt_result) \<Rightarrow>
     effective_call_options \<Rightarrow> rpc_client \<Rightarrow> (nat list \<times> call_attempt_result \<times> rpc_client) option" where
  "CallWithFailover discovered err loaded outcome options s =
    (case ResolveRoutingSnapshot discovered err loaded s of
       (Error st, s) \<Rightarrow> Some ([], MakeCallFailure st NotSent, s)
     | (Value snapshot, s) \<Rightarrow>
         let count = length (transports snapshot);
             last_result = MakeCallFailure (Status Unavailable ''no endpoints available'') NotSent
         in if eff_sticky_key options = [] then
              if count = 0 then None
              else (case failover outcome (transports snapshot) (unat (next_endpoint_index s) mod count) 0 last_result of
                (tried, r) \<Rightarrow> Some (tried, r, s\<lparr>next_endpoint_index := next_endpoint_index s + 1\<rparr>))
            else (case SelectStickyStart (eff_sticky_key options) (hash_ring snapshot) of
                None \<Rightarrow> None
              | Some start \<Rightarrow>
                  (case failover outcome (transports snapshot) start 0 last_result of
                     (tried, r) \<Rightarrow> Some (tried, r, s))))"

definition Impl_Call ::
  "int \<Rightarrow> discovery_snapshot option \<Rightarrow> string \<Rightarrow> routing_snapshot option \<Rightarrow>
     (request_envelope \<Rightarrow> int option \<Rightarrow> nat \<Rightarrow> call_attempt_result) \<Rightarrow> string \<Rightarrow> string \<Rightarrow> bytes \<Rightarrow> call_options \<Rightarrow>
     rpc_client \<Rightarrow> (bytes status_or \<times> rpc_client) option" where
  "Impl_Call now discovered err loaded outcome service method payload options s =
    (if \<not> status_ok (ValidateCallOptions options) then Some (Error (ValidateCallOptions options), s)
     else let effective = ResolveCallOptions now (default_timeout s) options;
              (i, s) = NextRequestId s;
              request = \<lparr>req_id = i, service_name = service, method_name = method, req_payload = payload\<rparr>
       in case CallWithFailover discovered err loaded (outcome request (eff_deadline effective)) effective s of
            None \<Rightarrow> None
          | Some (tried, CallResponse response, s) \<Rightarrow>
              Some (if \<not> status_ok (resp_status response) then Error (resp_status response)
                    else Value (resp_payload response), s)
          | Some (tried, CallFailed f, s) \<Rightarrow> Some (Error (fail_status f), s))"

section \<open>The public calls\<close>

text \<open>\<^verbatim>\<open>Impl::Call\<close> returns or throws.\<close>

definition CallPayload :: "cxx_exception + bytes status_or \<Rightarrow> bytes status_or" where
  "CallPayload r =
    (case r of Inl e \<Rightarrow> Error (CaughtExceptionToStatus Internal ''RPC call failed'' (Some e)) | Inr v \<Rightarrow> v)"

text \<open>The typed call, over the serialisation of the request type and the parser of the response type,
  which may throw.\<close>

definition Typed_Call ::
  "(bytes \<Rightarrow> bytes status_or) \<Rightarrow> (bytes \<Rightarrow> cxx_exception + 'r option) \<Rightarrow> cxx_exception + bytes \<Rightarrow> 'r status_or" where
  "Typed_Call send parse serialized =
    (case serialized of
       Inl e \<Rightarrow> Error (Status Internal
         (case exception_what e of Some w \<Rightarrow> w | None \<Rightarrow> ''failed to serialize Protobuf request''))
     | Inr payload \<Rightarrow>
         (case send payload of
            Error st \<Rightarrow> Error st
          | Value bs \<Rightarrow>
              (case parse bs of
                 Inr None \<Rightarrow> Error (Status DataLoss ''failed to decode Protobuf response'')
               | Inr (Some response) \<Rightarrow> Value response
               | Inl e \<Rightarrow> Error (Status Internal
                   (case exception_what e of Some w \<Rightarrow> w | None \<Rightarrow> ''failed to decode Protobuf response'')))))"

section \<open>Bisection\<close>

lemma lower_bound_bounds:
  assumes "sorted (map proj xs)" "first + len \<le> length xs"
    "\<forall>i<first. proj (xs ! i) < v" "\<forall>i<length xs. first + len \<le> i \<longrightarrow> \<not> proj (xs ! i) < v"
  shows "lower_bound proj xs v first len \<le> length xs \<and>
    (\<forall>i<length xs. proj (xs ! i) < v \<longleftrightarrow> i < lower_bound proj xs v first len)"
  using assms
proof (induction proj xs v first len rule: lower_bound.induct)
  case (1 proj xs v first len)
  define half where "half = len div 2"
  note mono = sorted_nth_mono[OF 1(3)]
  show ?case
  proof (cases "len = 0")
    case True
    then have "lower_bound proj xs v first len = first" by (simp add: lower_bound.simps)
    then show ?thesis using 1(4-6) True by (auto simp: not_less)
  next
    case False
    then have h: "half < len" by (simp add: half_def)
    show ?thesis
    proof (cases "proj (xs ! (first + half)) < v")
      case True
      have "proj (xs ! i) < v" if "i < first + half + 1" for i
        using mono[of i "first + half"] that h True 1(4) by (auto intro: le_less_trans)
      then have "\<forall>i<first + half + 1. proj (xs ! i) < v" by blast
      moreover have "\<forall>i<length xs. first + half + 1 + (len - half - 1) \<le> i \<longrightarrow> \<not> proj (xs ! i) < v"
        using 1(6) h by simp
      moreover have "lower_bound proj xs v first len = lower_bound proj xs v (first + half + 1) (len - half - 1)"
        using False True by (subst lower_bound.simps) (simp add: Let_def half_def)
      ultimately show ?thesis using 1(1)[OF False half_def refl True 1(3)] 1(4) h by simp
    next
      case f: False
      have "\<not> proj (xs ! i) < v" if "i < length xs" "first + half \<le> i" for i
        using mono[of "first + half" i] that f by auto
      then have "\<forall>i<length xs. first + half \<le> i \<longrightarrow> \<not> proj (xs ! i) < v" by blast
      moreover have "lower_bound proj xs v first len = lower_bound proj xs v first half"
        using False f by (subst lower_bound.simps) (simp add: Let_def half_def)
      ultimately show ?thesis using 1(2)[OF False half_def refl f 1(3) _ 1(5)] 1(4) h by simp
    qed
  qed
qed

lemma lower_bound_scan:
  assumes "sorted (map proj xs)"
  shows "lower_bound proj xs v 0 (length xs) = length (takeWhile (\<lambda>x. proj x < v) xs)"
proof -
  let ?n = "lower_bound proj xs v 0 (length xs)"
  have n: "?n \<le> length xs" "\<And>i. i < length xs \<Longrightarrow> proj (xs ! i) < v \<longleftrightarrow> i < ?n"
    using lower_bound_bounds[OF assms, of 0 "length xs" v] by auto
  have "takeWhile (\<lambda>x. proj x < v) xs = take ?n xs"
    by (rule takeWhile_eq_take_P_nth) (use n in auto)
  then show ?thesis using n(1) by simp
qed

section \<open>Sticky routing\<close>

lemma insort_key_map:
  "(\<And>y. y \<in> set ys \<Longrightarrow> f (g x) \<le> f (g y) \<longleftrightarrow> f' x \<le> f' y) \<Longrightarrow>
     insort_key f (g x) (map g ys) = map g (insort_key f' x ys)"
  by (induction ys) auto

lemma sort_key_map:
  "(\<And>x y. x \<in> set xs \<Longrightarrow> y \<in> set xs \<Longrightarrow> f (g x) \<le> f (g y) \<longleftrightarrow> f' x \<le> f' y) \<Longrightarrow>
     sort_key f (map g xs) = map g (sort_key f' xs)"
proof (induction xs)
  case (Cons a xs)
  then have "sort_key f (map g xs) = map g (sort_key f' xs)" by simp
  moreover have "insort_key f (g a) (map g (sort_key f' xs)) = map g (insort_key f' a (sort_key f' xs))"
    by (rule insort_key_map) (use Cons.prems in auto)
  ultimately show ?case by simp
qed simp

text \<open>The place of an endpoint among those that satisfy \<open>P\<close>.\<close>

definition place :: "(endpoint \<Rightarrow> bool) \<Rightarrow> endpoint list \<Rightarrow> nat \<Rightarrow> nat" where
  "place P eps i = length (filter P (take i eps))"

lemma place_nth: "i < length eps \<Longrightarrow> P (eps ! i) \<Longrightarrow>
    place P eps i < length (filter P eps) \<and> filter P eps ! place P eps i = eps ! i"
proof -
  assume i: "i < length eps" "P (eps ! i)"
  have "filter P eps = filter P (take i eps) @ eps ! i # filter P (drop (Suc i) eps)"
    using i by (subst id_take_nth_drop[OF i(1)]) simp
  then show ?thesis by (simp add: place_def nth_append)
qed

lemma place_less:
  assumes "i < j" "j < length eps" "P (eps ! i)"
  shows "place P eps i < place P eps j"
proof -
  have "take j eps = take i eps @ eps ! i # drop (Suc i) (take j eps)"
    using id_take_nth_drop[of i "take j eps"] assms by (simp add: min_def)
  then have "filter P (take j eps) = filter P (take i eps) @ eps ! i # filter P (drop (Suc i) (take j eps))"
    using assms(3) by (metis filter.simps(2) filter_append)
  then show ?thesis by (simp add: place_def)
qed

lemma place_le:
  assumes "i < length eps" "j < length eps" "P (eps ! i)" "P (eps ! j)"
  shows "place P eps i \<le> place P eps j \<longleftrightarrow> i \<le> j"
  using place_less[of i j eps P] place_less[of j i eps P] assms by (cases i j rule: linorder_cases) auto

definition replace_index :: "(nat \<Rightarrow> nat) \<Rightarrow> hash_ring_entry \<Rightarrow> hash_ring_entry" where
  "replace_index f e = e\<lparr>endpoint_index := f (endpoint_index e)\<rparr>"

lemma ring_entries_snoc:
  "ring_entries (eps @ [e]) =
     ring_entries eps @ map (\<lambda>h. \<lparr>ring_hash = h, endpoint_index = length eps\<rparr>) (vnode_hashes e)"
  by (auto simp: ring_entries_def nth_append intro!: arg_cong[where f = concat])

lemma ring_entries_index: "e \<in> set (ring_entries eps) \<Longrightarrow> endpoint_index e < length eps"
  by (auto simp: ring_entries_def)

lemma ring_entries_filter:
  "ring_entries (filter P eps) =
     map (replace_index (place P eps)) (filter (\<lambda>e. P (eps ! endpoint_index e)) (ring_entries eps))"
proof (induction eps rule: rev_induct)
  case (snoc x eps)
  have "filter (\<lambda>e. P ((eps @ [x]) ! endpoint_index e)) (ring_entries eps) =
      filter (\<lambda>e. P (eps ! endpoint_index e)) (ring_entries eps)"
    by (rule filter_cong) (auto simp: nth_append dest: ring_entries_index)
  moreover have "map (replace_index (place P (eps @ [x]))) (filter (\<lambda>e. P (eps ! endpoint_index e)) (ring_entries eps)) =
      map (replace_index (place P eps)) (filter (\<lambda>e. P (eps ! endpoint_index e)) (ring_entries eps))"
    by (auto simp: place_def replace_index_def dest: ring_entries_index)
  ultimately show ?case
    using snoc.IH by (simp add: ring_entries_snoc filter_map o_def replace_index_def place_def)
qed (simp add: ring_entries_def)

lemma BuildHashRing_filter:
  "BuildHashRing (filter P eps) =
     map (replace_index (place P eps)) (filter (\<lambda>e. P (eps ! endpoint_index e)) (BuildHashRing eps))"
proof -
  let ?k = "filter (\<lambda>e. P (eps ! endpoint_index e)) (ring_entries eps)"
  have "sort_key ring_key (map (replace_index (place P eps)) ?k) =
      map (replace_index (place P eps)) (sort_key ring_key ?k)"
  proof (rule sort_key_map)
    fix x y assume "x \<in> set ?k" "y \<in> set ?k"
    then show "ring_key (replace_index (place P eps) x) \<le> ring_key (replace_index (place P eps) y) \<longleftrightarrow>
        ring_key x \<le> ring_key y"
      using place_le[of "endpoint_index x" eps "endpoint_index y" P] ring_entries_index
      by (auto simp: replace_index_def)
  qed
  then show ?thesis by (simp add: BuildHashRing_def ring_entries_filter filter_sort)
qed

text \<open>The owner of a key: the first entry at or after its hash, around the ring.\<close>

definition ring_owner :: "u64 \<Rightarrow> hash_ring_entry list \<Rightarrow> hash_ring_entry" where
  "ring_owner v ring = (case dropWhile (\<lambda>e. ring_hash e < v) ring of [] \<Rightarrow> hd ring | e # es \<Rightarrow> e)"

lemma ring_owner_cases:
  "dropWhile (\<lambda>e. ring_hash e < v) ring = [] \<Longrightarrow> ring_owner v ring = hd ring"
  "dropWhile (\<lambda>e. ring_hash e < v) ring = e # es \<Longrightarrow> ring_owner v ring = e"
  unfolding ring_owner_def by (simp_all only: list.case)

lemma sorted_ring: "sorted (map ring_hash (BuildHashRing eps))"
proof -
  have "sorted (map ring_key (BuildHashRing eps))" by (simp add: BuildHashRing_def)
  then show ?thesis by (auto simp: sorted_map intro: sorted_wrt_mono_rel[rotated])
qed

lemma SelectStickyStart_owner:
  assumes "key \<noteq> []" "BuildHashRing eps \<noteq> []"
  shows "SelectStickyStart key (BuildHashRing eps) = Some (endpoint_index (ring_owner (Fnv1a64 key) (BuildHashRing eps)))"
proof -
  let ?r = "BuildHashRing eps" and ?P = "\<lambda>e. ring_hash e < Fnv1a64 key"
  let ?n = "length (takeWhile ?P ?r)"
  have n: "lower_bound ring_hash ?r (Fnv1a64 key) 0 (length ?r) = ?n"
    by (rule lower_bound_scan[OF sorted_ring])
  have d: "dropWhile ?P ?r = drop ?n ?r" by (rule dropWhile_eq_drop)
  show ?thesis
  proof (cases "?n = length ?r")
    case True
    then have "dropWhile ?P ?r = []" using d by simp
    then show ?thesis using assms n True by (simp add: SelectStickyStart_def ring_owner_cases(1) hd_conv_nth)
  next
    case False
    then have "?n < length ?r" using length_takeWhile_le[of ?P ?r] by linarith
    then have "dropWhile ?P ?r = ?r ! ?n # drop (Suc ?n) ?r" using d by (simp add: Cons_nth_drop_Suc)
    then show ?thesis using assms n False by (simp add: SelectStickyStart_def ring_owner_cases(2))
  qed
qed

lemma ring_owner_map:
  "(\<And>e. ring_hash (f e) = ring_hash e) \<Longrightarrow> ring \<noteq> [] \<Longrightarrow> ring_owner v (map f ring) = f (ring_owner v ring)"
proof -
  assume f: "\<And>e. ring_hash (f e) = ring_hash e" and r: "ring \<noteq> []"
  have d: "dropWhile (\<lambda>e. ring_hash e < v) (map f ring) = map f (dropWhile (\<lambda>e. ring_hash e < v) ring)"
    using f by (simp add: dropWhile_map o_def)
  show ?thesis
  proof (cases "dropWhile (\<lambda>e. ring_hash e < v) ring")
    case Nil
    then show ?thesis using ring_owner_cases(1)[of v "map f ring"] ring_owner_cases(1)[OF Nil] d r
      by (simp add: list.map_sel)
  next
    case (Cons e es)
    then show ?thesis using ring_owner_cases(2)[of v "map f ring" "f e" "map f es"] ring_owner_cases(2)[OF Cons] d
      by simp
  qed
qed

lemma ring_owner_filter:
  assumes "K (ring_owner v ring)" "ring \<noteq> []"
  shows "ring_owner v (filter K ring) = ring_owner v ring \<and> filter K ring \<noteq> []"
proof (cases "dropWhile (\<lambda>e. ring_hash e < v) ring")
  case Nil
  then have "\<forall>e\<in>set ring. ring_hash e < v" by (simp add: dropWhile_eq_Nil_conv)
  then have "dropWhile (\<lambda>e. ring_hash e < v) (filter K ring) = []" by (auto simp: dropWhile_eq_Nil_conv)
  then show ?thesis
    using assms ring_owner_cases(1)[OF Nil] ring_owner_cases(1)[of v "filter K ring"] by (cases ring) auto
next
  case (Cons e es)
  define p where "p = takeWhile (\<lambda>e. ring_hash e < v) ring"
  have r: "ring = p @ e # es" using Cons takeWhile_dropWhile_id[of "\<lambda>e. ring_hash e < v" ring] by (simp add: p_def)
  have p: "\<And>x. x \<in> set p \<Longrightarrow> ring_hash x < v" unfolding p_def by (auto dest: set_takeWhileD)
  have e: "\<not> ring_hash e < v" using Cons by (metis dropWhile_eq_Cons_conv)
  have k: "K e" using assms(1) ring_owner_cases(2)[OF Cons] by simp
  have "dropWhile (\<lambda>e. ring_hash e < v) (filter K ring) = e # filter K es"
    unfolding r using dropWhile_append2[of "filter K p" "\<lambda>e. ring_hash e < v" "e # filter K es"] p e k by simp
  then show ?thesis using ring_owner_cases(2)[OF Cons] ring_owner_cases(2)[of v "filter K ring"] r k by simp
qed

lemma ring_owner_member: "ring \<noteq> [] \<Longrightarrow> ring_owner v ring \<in> set ring"
  using set_dropWhileD[of _ "\<lambda>e. ring_hash e < v" ring] by (auto simp: ring_owner_def split: list.split)

text \<open>C38. Sticky routing moves no key it does not have to. When endpoints leave (those that do not
  satisfy \<open>P\<close>) a key that was routed to an endpoint that stays is routed to the same endpoint, whatever
  its place in the new list; the hash collisions of virtual nodes included.\<close>

theorem sticky_route_stable:
  assumes "SelectStickyStart key (BuildHashRing eps) = Some i" "P (eps ! i)"
  shows "\<exists>j. SelectStickyStart key (BuildHashRing (filter P eps)) = Some j \<and>
    i < length eps \<and> j < length (filter P eps) \<and> filter P eps ! j = eps ! i"
proof -
  let ?r = "BuildHashRing eps" and ?K = "\<lambda>e. P (eps ! endpoint_index e)"
  let ?o = "ring_owner (Fnv1a64 key) ?r" and ?f = "replace_index (place P eps)"
  have ne: "key \<noteq> []" "?r \<noteq> []" using assms(1) by (auto simp: SelectStickyStart_def split: if_splits)
  then have i: "i = endpoint_index ?o" using assms(1) SelectStickyStart_owner by simp
  have il: "i < length eps"
    using ring_owner_member[OF ne(2), of "Fnv1a64 key"] ring_entries_index i by (simp add: BuildHashRing_def)
  have own: "ring_owner (Fnv1a64 key) (filter ?K ?r) = ?o" "filter ?K ?r \<noteq> []"
    using ring_owner_filter[OF _ ne(2), of ?K "Fnv1a64 key"] assms(2) i by simp_all
  have f: "ring_hash (?f e) = ring_hash e" for e by (simp add: replace_index_def)
  have "ring_owner (Fnv1a64 key) (BuildHashRing (filter P eps)) = ?f ?o"
    using ring_owner_map[of ?f "filter ?K ?r", OF f own(2)] own(1) by (simp add: BuildHashRing_filter)
  moreover have "BuildHashRing (filter P eps) \<noteq> []" using own(2) by (simp add: BuildHashRing_filter)
  ultimately have "SelectStickyStart key (BuildHashRing (filter P eps)) = Some (place P eps i)"
    using SelectStickyStart_owner[OF ne(1)] i by (simp add: replace_index_def)
  then show ?thesis using place_nth[of i eps P] il assms(2) by auto
qed

lemma BuildHashRing_Nil: "BuildHashRing eps = [] \<longleftrightarrow> eps = []"
proof -
  have "BuildHashRing eps = [] \<longleftrightarrow> ring_entries eps = []"
    using length_sort[of ring_key "ring_entries eps"] unfolding BuildHashRing_def by (metis length_0_conv)
  moreover have "vnode_hashes e \<noteq> []" for e by (simp add: vnode_hashes_def VIRTUAL_NODE_COUNT_def)
  ultimately show ?thesis by (cases eps) (auto simp: ring_entries_def)
qed

text \<open>Two endpoints, of which the one that owns the key stays.\<close>

theorem sticky_route_stable_witness:
  "\<exists>i. let eps = [Endpoint ''a'' 1, Endpoint ''b'' 2] in
     SelectStickyStart ''key'' (BuildHashRing eps) = Some i \<and>
     SelectStickyStart ''key'' (BuildHashRing [eps ! i]) = Some 0"
proof -
  let ?eps = "[Endpoint ''a'' 1, Endpoint ''b'' 2]"
  obtain i where i: "SelectStickyStart ''key'' (BuildHashRing ?eps) = Some i"
    using SelectStickyStart_owner[of "''key''" ?eps] BuildHashRing_Nil[of ?eps] by simp
  obtain j where j: "SelectStickyStart ''key'' (BuildHashRing (filter (\<lambda>e. e = ?eps ! i) ?eps)) = Some j"
      "i < length ?eps" "j < length (filter (\<lambda>e. e = ?eps ! i) ?eps)"
    using sticky_route_stable[OF i, of "\<lambda>e. e = ?eps ! i"] by blast
  then have "filter (\<lambda>e. e = ?eps ! i) ?eps = [?eps ! i]" by (auto simp: less_Suc_eq)
  then show ?thesis using i j by (auto simp: Let_def)
qed

section \<open>Routing snapshots\<close>

definition routing_ok :: "routing_snapshot \<Rightarrow> endpoint list \<Rightarrow> bool" where
  "routing_ok rs made \<longleftrightarrow> length (transports rs) = length (snd (rs_endpoints rs)) \<and>
     distinct (snd (rs_endpoints rs)) \<and> distinct (transports rs) \<and>
     (\<forall>i<length (transports rs). transports rs ! i < length made \<and>
        made ! (transports rs ! i) = snd (rs_endpoints rs) ! i) \<and>
     hash_ring rs = BuildHashRing (snd (rs_endpoints rs)) \<and> snd (rs_endpoints rs) \<noteq> []"

definition client_ok :: "rpc_client \<Rightarrow> bool" where
  "client_ok s \<longleftrightarrow> (case routing s of None \<Rightarrow> True | Some rs \<Rightarrow> routing_ok rs (made_transports s))"

text \<open>The routing state as callers see it: which transport serves an endpoint.\<close>

definition routing_map :: "routing_snapshot option \<Rightarrow> endpoint \<rightharpoonup> nat" where
  "routing_map r = (case r of None \<Rightarrow> Map.empty | Some rs \<Rightarrow> map_of (zip (snd (rs_endpoints rs)) (transports rs)))"

text \<open>Abstractly, an update of the membership to \<open>es\<close> keeps the transports of the members that stay and
  gives new transports, numbered from \<open>n\<close> on, to the others.\<close>

definition reconcile :: "(endpoint \<rightharpoonup> nat) \<Rightarrow> endpoint set \<Rightarrow> nat \<Rightarrow> (endpoint \<rightharpoonup> nat) \<Rightarrow> bool" where
  "reconcile m es n m' \<longleftrightarrow> dom m' = es \<and>
     (\<forall>e\<in>es. case m e of Some t \<Rightarrow> m' e = Some t | None \<Rightarrow> the (m' e) \<ge> n) \<and> inj_on m' es"

lemma find_endpoint_zip: "length ts = length es \<Longrightarrow> find_endpoint e es ts = map_of (zip es ts) e"
  by (induction es ts rule: list_induct2') auto

lemma FindReusable_map:
  "client_ok s \<Longrightarrow> FindReusableTransport (routing s) e = routing_map (routing s) e"
  by (auto simp: FindReusableTransport_def routing_map_def client_ok_def routing_ok_def find_endpoint_zip
      split: option.split)

text \<open>Transport \<open>t\<close> serves \<open>e\<close>: the one the current snapshot has for \<open>e\<close>, or one made after the first \<open>n\<close>.\<close>

definition serves :: "(endpoint \<rightharpoonup> nat) \<Rightarrow> nat \<Rightarrow> endpoint list \<Rightarrow> endpoint \<Rightarrow> nat \<Rightarrow> bool" where
  "serves m n made e t \<longleftrightarrow> t < length made \<and> made ! t = e \<and> (case m e of Some t' \<Rightarrow> t = t' | None \<Rightarrow> t \<ge> n)"

lemma serves_more: "serves m n made e t \<Longrightarrow> serves m n (made @ xs) e t"
  by (auto simp: serves_def nth_append)

lemma route_endpoints_ok:
  assumes "\<And>e t. FindReusableTransport current e = Some t \<Longrightarrow> t < n \<and> made0 ! t = e"
    "n = length made0" "take n made = made0"
    "list_all2 (serves (FindReusableTransport current) n made) routed ts"
    "route_endpoints current es ts made = (ts', made')"
  shows "take n made' = made0 \<and> list_all2 (serves (FindReusableTransport current) n made') (routed @ es) ts'"
  using assms(3-5)
proof (induction es arbitrary: routed ts made)
  case Nil
  then show ?case by simp
next
  case (Cons e es)
  have len: "n \<le> length made" using Cons.prems(1) assms(2) by (metis length_take min.cobounded1)
  show ?case
  proof (cases "FindReusableTransport current e")
    case None
    have "list_all2 (serves (FindReusableTransport current) n (made @ [e])) (routed @ [e]) (ts @ [length made])"
      using Cons.prems(2) None len
      by (intro list_all2_appendI) (auto simp: serves_def[of _ _ _ e] elim: list_all2_mono intro: serves_more)
    then show ?thesis
      using Cons.IH[of "made @ [e]" "routed @ [e]" "ts @ [length made]"] Cons.prems None len by simp
  next
    case (Some t)
    have t: "t < n" "made0 ! t = e" using assms(1)[OF Some] by auto
    then have "made ! t = e" using Cons.prems(1) by (metis nth_take)
    then have "list_all2 (serves (FindReusableTransport current) n made) (routed @ [e]) (ts @ [t])"
      using Cons.prems(2) t len Some by (intro list_all2_appendI) (auto simp: serves_def[of _ _ _ e])
    then show ?thesis using Cons.IH[of made "routed @ [e]" "ts @ [t]"] Cons.prems Some by simp
  qed
qed

lemma serves_distinct:
  assumes "list_all2 (serves m n made) es ts" "distinct es"
  shows "distinct ts"
proof (rule distinct_conv_nth[THEN iffD2], intro allI impI)
  fix i j assume ij: "i < length ts" "j < length ts" "i \<noteq> j"
  then have "made ! (ts ! i) = es ! i" "made ! (ts ! j) = es ! j" "es ! i \<noteq> es ! j"
    using assms by (auto simp: list_all2_conv_all_nth serves_def nth_eq_iff_index_eq)
  then show "ts ! i \<noteq> ts ! j" by auto
qed

lemma routing_map_transport:
  assumes "client_ok s" "routing_map (routing s) e = Some t"
  shows "t < length (made_transports s) \<and> made_transports s ! t = e"
proof -
  obtain rs where rs: "routing s = Some rs" "(e, t) \<in> set (zip (snd (rs_endpoints rs)) (transports rs))"
    using assms(2) by (auto simp: routing_map_def split: option.splits dest: map_of_SomeD)
  then show ?thesis using assms(1) by (auto simp: client_ok_def routing_ok_def set_zip)
qed

lemma served_reconcile:
  assumes "list_all2 (serves m n made) es ts" "distinct es"
  shows "reconcile m (set es) n (map_of (zip es ts))"
proof -
  have len: "length es = length ts" using assms(1) by (rule list_all2_lengthD)
  have at: "\<exists>t. map_of (zip es ts) e = Some t \<and> serves m n made e t" if e: "e \<in> set es" for e
  proof -
    obtain i where i: "i < length es" "es ! i = e" using e by (auto simp: in_set_conv_nth)
    then have "map_of (zip es ts) e = Some (ts ! i)" using map_of_zip_nth[OF len assms(2)] len by auto
    then show ?thesis using assms(1) i by (auto simp: list_all2_conv_all_nth)
  qed
  have "inj_on (map_of (zip es ts)) (set es)"
  proof (rule inj_onI)
    fix a b assume ab: "a \<in> set es" "b \<in> set es" "map_of (zip es ts) a = map_of (zip es ts) b"
    then show "a = b" using at[OF ab(1)] at[OF ab(2)] by (auto simp: serves_def)
  qed
  moreover have "case m e of Some t \<Rightarrow> map_of (zip es ts) e = Some t | None \<Rightarrow> the (map_of (zip es ts) e) \<ge> n"
    if "e \<in> set es" for e
    using at[OF that] by (auto simp: serves_def split: option.splits)
  ultimately show ?thesis using len by (simp add: reconcile_def dom_map_of_zip)
qed

text \<open>What the rebuilding under \<^verbatim>\<open>routing_update_mutex_\<close> publishes.\<close>

lemma rebuild_ok:
  assumes ok: "client_ok s" and d: "distinct (snd d)" "snd d \<noteq> []"
    and r: "route_endpoints (routing s) (snd d) [] (made_transports s) = (ts, made)"
  shows "routing_ok \<lparr>rs_endpoints = d, transports = ts, hash_ring = BuildHashRing (snd d)\<rparr> made"
    "reconcile (routing_map (routing s)) (set (snd d)) (length (made_transports s))
      (routing_map (Some \<lparr>rs_endpoints = d, transports = ts, hash_ring = BuildHashRing (snd d)\<rparr>))"
proof -
  have f: "FindReusableTransport (routing s) = routing_map (routing s)"
    using FindReusable_map[OF ok] by (simp add: fun_eq_iff)
  have sv: "list_all2 (serves (routing_map (routing s)) (length (made_transports s)) made) (snd d) ts"
    using route_endpoints_ok[of "routing s" "length (made_transports s)" "made_transports s"
        "made_transports s" "[]" "[]" "snd d" ts made] r f routing_map_transport[OF ok] by simp
  show "routing_ok \<lparr>rs_endpoints = d, transports = ts, hash_ring = BuildHashRing (snd d)\<rparr> made"
    using sv serves_distinct[OF sv d(1)] d by (auto simp: routing_ok_def list_all2_conv_all_nth serves_def)
  show "reconcile (routing_map (routing s)) (set (snd d)) (length (made_transports s))
      (routing_map (Some \<lparr>rs_endpoints = d, transports = ts, hash_ring = BuildHashRing (snd d)\<rparr>))"
    using served_reconcile[OF sv d(1)] by (simp add: routing_map_def)
qed

text \<open>A loaded snapshot was published earlier, and one object holds one list of endpoints.\<close>

definition published_before :: "discovery_snapshot \<Rightarrow> routing_snapshot option \<Rightarrow> rpc_client \<Rightarrow> bool" where
  "published_before d r s = (case r of None \<Rightarrow> True | Some rs \<Rightarrow> routing_ok rs (made_transports s) \<and>
     (fst (rs_endpoints rs) = fst d \<longrightarrow> rs_endpoints rs = d))"

lemma resolve_refines:
  assumes "client_ok s" "distinct (snd d)" "snd d \<noteq> []"
    "published_before d loaded s" "published_before d (routing s) s"
    "ResolveRoutingSnapshot (Some d) err loaded s = (r, s')"
  shows "\<exists>rs. r = Value rs \<and> rs_endpoints rs = d \<and> routing_ok rs (made_transports s') \<and> client_ok s' \<and>
    (routing s' \<noteq> routing s \<longrightarrow> routing s' = Some rs \<and>
       reconcile (routing_map (routing s)) (set (snd d)) (length (made_transports s)) (routing_map (routing s')))"
proof -
  obtain ts made where r: "route_endpoints (routing s) (snd d) [] (made_transports s) = (ts, made)"
    by (cases "route_endpoints (routing s) (snd d) [] (made_transports s)")
  note new = rebuild_ok[OF assms(1-3) r]
  let ?p = "\<lparr>rs_endpoints = d, transports = ts, hash_ring = BuildHashRing (snd d)\<rparr>"
  let ?same = "\<lambda>x. x \<noteq> None \<and> fst (rs_endpoints (the x)) = fst d"
  have step: "(r, s') = (if ?same loaded then (Value (the loaded), s)
      else if ?same (routing s) then (Value (the (routing s)), s)
      else (Value ?p, s\<lparr>routing := Some ?p, made_transports := made\<rparr>))"
    unfolding assms(6)[symmetric] ResolveRoutingSnapshot_def 
    by (simp only: r assms(3) option.case prod.case Let_def if_False)
  consider "?same loaded" | "\<not> ?same loaded" "?same (routing s)" | "\<not> ?same loaded" "\<not> ?same (routing s)" by blast
  then show ?thesis
  proof cases
    case 1
    then show ?thesis using step assms(1,4) by (auto simp: published_before_def)
  next
    case 2
    then show ?thesis using step assms(1,5) by (auto simp: published_before_def)
  next
    case 3
    then have "r = Value ?p" "s' = s\<lparr>routing := Some ?p, made_transports := made\<rparr>" using step by auto
    then show ?thesis using new by (simp add: client_ok_def)
  qed
qed


section \<open>Failover\<close>

lemma not_stop_retry: "\<not> (HasResponse r \<or> MustStopRetryToAvoidDuplicateRequest r) \<longleftrightarrow> CanRetryWithoutDuplicateRequest r"
  by (cases r)
    (auto simp: HasResponse_def MustStopRetryToAvoidDuplicateRequest_def CanRetryWithoutDuplicateRequest_def
      intro: commit_state.exhaust)

lemma failover_spec:
  assumes "failover outcome ts start offset last_result = (tried, r)" "offset \<le> length ts"
  shows "tried = map (\<lambda>i. ts ! ((start + i) mod length ts)) [offset..<offset + length tried] \<and>
    offset + length tried \<le> length ts \<and>
    r = (if tried = [] then last_result else outcome (last tried)) \<and>
    (\<forall>t\<in>set (butlast tried). CanRetryWithoutDuplicateRequest (outcome t)) \<and>
    (tried = [] \<longleftrightarrow> offset = length ts) \<and>
    (offset + length tried = length ts \<or> \<not> CanRetryWithoutDuplicateRequest r)"
  using assms
proof (induction outcome ts start offset last_result arbitrary: tried r rule: failover.induct)
  case (1 outcome ts start offset last_result)
  define t where "t = ts ! ((start + offset) mod length ts)"
  show ?case
  proof (cases "offset < length ts")
    case False
    then have "failover outcome ts start offset last_result = ([], last_result)" by (subst failover.simps) simp
    then show ?thesis using 1(2,3) False by auto
  next
    case True
    show ?thesis
    proof (cases "HasResponse (outcome t) \<or> MustStopRetryToAvoidDuplicateRequest (outcome t)")
      case stop: True
      then have "failover outcome ts start offset last_result = ([t], outcome t)"
        using True by (subst failover.simps) (simp add: Let_def flip: t_def)
      then have "tried = [t]" "r = outcome t" using 1(2) by simp_all
      then show ?thesis using True stop not_stop_retry t_def by auto
    next
      case False
      obtain tried' r' where rec: "failover outcome ts start (offset + 1) (outcome t) = (tried', r')"
        by (cases "failover outcome ts start (offset + 1) (outcome t)")
      then have "failover outcome ts start offset last_result = (t # tried', r')"
        using True False by (subst failover.simps) (simp add: Let_def flip: t_def)
      then have eq: "tried = t # tried'" "r = r'" using 1(2) by simp_all
      have "[offset..<offset + length tried] = offset # [offset + 1..<offset + 1 + length tried']"
        using eq upt_conv_Cons[of offset "offset + length tried"] by (simp del: upt_Suc)
      then show ?thesis
        using 1(1)[OF True t_def refl False rec] True eq False not_stop_retry[of "outcome t"] by (auto simp: t_def)
    qed
  qed
qed

subsection \<open>What failover relies on\<close>

text \<open>An attempt that has finished for a request with a result, and the number of bytes of the request
  that may have left. The contract of a transport: a result that may be retried means that none has,
  and a response is for the request.\<close>

locale call_transport =
  fixes finished :: "'t \<Rightarrow> request_envelope \<Rightarrow> call_attempt_result \<Rightarrow> nat \<Rightarrow> bool"
  assumes unsent: "finished a q r n \<Longrightarrow> CanRetryWithoutDuplicateRequest r \<Longrightarrow> n = 0"
    and answers: "finished a q (CallResponse p) n \<Longrightarrow> resp_id p = req_id q"
begin

lemma sends_once:
  assumes run: "failover outcome ts start 0 (CallFailed f) = (tried, r)"
    and fin: "\<And>t. t \<in> set tried \<Longrightarrow> finished (attempt t) q (outcome t) (sent t)"
  shows "length (filter (\<lambda>t. sent t \<noteq> 0) tried) \<le> 1"
    "CanRetryWithoutDuplicateRequest r \<Longrightarrow> filter (\<lambda>t. sent t \<noteq> 0) tried = []"
    "r = CallResponse p \<Longrightarrow> resp_id p = req_id q"
proof -
  have retried: "\<And>t. t \<in> set (butlast tried) \<Longrightarrow> CanRetryWithoutDuplicateRequest (outcome t)"
    and res: "r = (if tried = [] then CallFailed f else outcome (last tried))"
    using failover_spec[OF run] by blast+
  have "sent t = 0" if "t \<in> set (butlast tried)" for t
    by (rule unsent[OF fin[OF in_set_butlastD[OF that]] retried[OF that]])
  then have none: "filter (\<lambda>t. sent t \<noteq> 0) (butlast tried) = []" by (simp add: filter_empty_conv)
  show "length (filter (\<lambda>t. sent t \<noteq> 0) tried) \<le> 1"
  proof (cases tried rule: rev_cases)
    case (snoc ys y)
    then show ?thesis using none by simp
  qed simp
  show "filter (\<lambda>t. sent t \<noteq> 0) tried = []" if "CanRetryWithoutDuplicateRequest r"
  proof (cases tried rule: rev_cases)
    case (snoc ys y)
    then have "sent y = 0" using unsent[OF fin[of y]] that res by simp
    then show ?thesis using none snoc by simp
  qed simp
  show "resp_id p = req_id q" if "r = CallResponse p"
    using res that answers[of "attempt (last tried)" q p "sent (last tried)"] fin[of "last tried"]
    by (auto split: if_splits)
qed

end

text \<open>Call \<open>c\<close> of a TCP transport in a reachable state, finished.\<close>

definition tcp_finished :: "transport \<times> nat \<Rightarrow> request_envelope \<Rightarrow> call_attempt_result \<Rightarrow> nat \<Rightarrow> bool" where
  "tcp_finished a q r n \<longleftrightarrow> (\<exists>net env plimits m. transport_reach net env plimits m (fst a)) \<and>
     snd a < length (calls (fst a)) \<and> call_request (calls (fst a) ! snd a) = q \<and>
     call_pc (calls (fst a) ! snd a) = CDone r \<and> taken_bytes (calls (fst a) ! snd a) = n"

lemma tcp_finished_ok: "tcp_finished a q r n \<Longrightarrow> outcome_ok (calls (fst a) ! snd a) r"
proof -
  assume a: "tcp_finished a q r n"
  then obtain net env plimits m where reach: "transport_reach net env plimits m (fst a)"
    by (auto simp: tcp_finished_def)
  show ?thesis
    using call_ok_at(1)[OF transport_invariant[OF reach], of "snd a"] a by (simp add: tcp_finished_def pc_ok_def)
qed

interpretation tcp: call_transport tcp_finished
proof
  fix a q r n assume "tcp_finished a q r n" "CanRetryWithoutDuplicateRequest r"
  then show "n = 0" using tcp_finished_ok[of a q r n]
    by (auto simp: outcome_ok_def tcp_finished_def CanRetryWithoutDuplicateRequest_def
        split: call_attempt_result.splits)
next
  fix a q p n assume "tcp_finished a q (CallResponse p) n"
  then show "resp_id p = req_id q" using tcp_finished_ok[of a q "CallResponse p" n]
    by (auto simp: tcp_finished_def outcome_ok_def)
qed

lemma rotation_inject:
  assumes "i \<le> j" "j < l" "(start + i) mod l = (start + j) mod (l :: nat)"
  shows "i = j"
proof -
  have "l dvd start + j - (start + i)" 
    using assms mod_eq_dvd_iff_nat[of "start + i" "start + j" l] by simp
  then have "l dvd j - i" by simp
  moreover have "j - i < l" using assms by simp
  ultimately show ?thesis using assms(1) by (auto dest: dvd_imp_le)
qed

lemma rotation_distinct:
  assumes "distinct ts" "n \<le> length ts"
  shows "distinct (map (\<lambda>i. ts ! ((start + i) mod length ts)) [0..<n])"
proof -
  have "inj_on (\<lambda>i. ts ! ((start + i) mod length ts)) {0..<n}"
  proof (rule inj_onI)
    fix i j assume ij: "i \<in> {0..<n}" "j \<in> {0..<n}"
      "ts ! ((start + i) mod length ts) = ts ! ((start + j) mod length ts)"
    then have "length ts > 0" using assms(2) by auto
    then have eq: "(start + i) mod length ts = (start + j) mod length ts"
      using ij(3) assms(1) by (simp add: nth_eq_iff_index_eq)
    have l: "i < length ts" "j < length ts" using ij(1,2) assms(2) by simp_all
    show "i = j"
      using rotation_inject[OF _ l(2) eq] rotation_inject[OF _ l(1) eq[symmetric]] linear[of i j] by blast
  qed
  then show ?thesis by (simp add: distinct_map)
qed

lemma MakeCallFailure_eq: "MakeCallFailure st c = CallFailed \<lparr>fail_status = st, fail_commit = c\<rparr>"
  by (simp add: MakeCallFailure_def)

lemma CallWithFailover_run:
  assumes rs: "ResolveRoutingSnapshot discovered err loaded s = (Value rs, s1)" "routing_ok rs made"
  shows "\<exists>start tried r s' f. failover outcome (transports rs) start 0 (CallFailed f) = (tried, r) \<and>
    CallWithFailover discovered err loaded outcome options s = Some (tried, r, s')"
proof (cases "eff_sticky_key options = []")
  case True
  let ?run = "failover outcome (transports rs) (unat (next_endpoint_index s1) mod length (transports rs)) 0
    (MakeCallFailure (Status Unavailable ''no endpoints available'') NotSent)"
  obtain tried r where run: "?run = (tried, r)" by (cases ?run)
  then have "CallWithFailover discovered err loaded outcome options s =
      Some (tried, r, s1\<lparr>next_endpoint_index := next_endpoint_index s1 + 1\<rparr>)"
    using True rs by (auto simp: CallWithFailover_def routing_ok_def Let_def)
  then show ?thesis using run unfolding MakeCallFailure_eq by blast
next
  case False
  have "hash_ring rs \<noteq> []" using rs(2) BuildHashRing_Nil by (simp add: routing_ok_def)
  then obtain start where start: "SelectStickyStart (eff_sticky_key options) (hash_ring rs) = Some start"
    using False by (simp add: SelectStickyStart_def Let_def)
  let ?run = "failover outcome (transports rs) start 0
    (MakeCallFailure (Status Unavailable ''no endpoints available'') NotSent)"
  obtain tried r where run: "?run = (tried, r)" by (cases ?run)
  then have "CallWithFailover discovered err loaded outcome options s = Some (tried, r, s1)"
    using False rs(1) start by (simp add: CallWithFailover_def Let_def)
  then show ?thesis using run unfolding MakeCallFailure_eq by blast
qed

text \<open>C7. A request is sent to at most one endpoint. With a discovery snapshot published, a call with
  failover comes to an end, tries no transport twice, and of all the transports it tried at most one may
  have sent bytes of the request, whatever the calls on the TCP transports returned. A result that may
  be retried means that nothing was sent and that every endpoint was tried; a response is the response
  to the request.\<close>

theorem failover_at_most_once:
  assumes "client_ok s" "distinct (snd d)" "snd d \<noteq> []"
    "published_before d loaded s" "published_before d (routing s) s"
    "\<forall>t. tcp_finished (attempt t) q (outcome t) (sent t)"
  shows "\<exists>tried r s'. CallWithFailover (Some d) err loaded outcome options s = Some (tried, r, s') \<and>
    distinct tried \<and> length (filter (\<lambda>t. sent t \<noteq> 0) tried) \<le> 1 \<and>
    (CanRetryWithoutDuplicateRequest r \<longrightarrow>
       filter (\<lambda>t. sent t \<noteq> 0) tried = [] \<and> length tried = length (snd d)) \<and>
    (\<forall>p. r = CallResponse p \<longrightarrow> resp_id p = req_id q)"
proof -
  obtain v s1 where v: "ResolveRoutingSnapshot (Some d) err loaded s = (v, s1)"
    by (cases "ResolveRoutingSnapshot (Some d) err loaded s")
  obtain rs where rs: "v = Value rs" "rs_endpoints rs = d" "routing_ok rs (made_transports s1)"
    using resolve_refines[OF assms(1-5) v] by blast
  obtain start tried r s' f where run: "failover outcome (transports rs) start 0 (CallFailed f) = (tried, r)"
      "CallWithFailover (Some d) err loaded outcome options s = Some (tried, r, s')"
    using CallWithFailover_run[OF v[unfolded rs(1)] rs(3), of outcome options] by blast
  have len: "length (transports rs) = length (snd d)" "distinct (transports rs)"
    using rs by (simp_all add: routing_ok_def)
  have tried: "tried = map (\<lambda>i. transports rs ! ((start + i) mod length (transports rs))) [0..<length tried]"
      "length tried \<le> length (transports rs)"
      "length tried = length (transports rs) \<or> \<not> CanRetryWithoutDuplicateRequest r"
    using failover_spec[OF run(1)] by auto
  have "distinct tried" using rotation_distinct[OF len(2) tried(2), of start] tried(1) by simp
  then show ?thesis
    using run(2) tried(3) len(1) tcp.sends_once[OF run(1), of attempt q sent] assms(6) by auto
qed

section \<open>Concrete calls\<close>

definition demo_snapshot :: "endpoint list \<Rightarrow> nat \<Rightarrow> nat list \<Rightarrow> routing_snapshot" where
  "demo_snapshot es a ts = \<lparr>rs_endpoints = (a, es), transports = ts, hash_ring = BuildHashRing es\<rparr>"

definition demo_rpc_client :: rpc_client where
  "demo_rpc_client = \<lparr>cl_limits = demo_limits, default_timeout = 0, max_inflight = 4,
     cl_discovery = StaticDiscovery [Endpoint ''a'' 1, Endpoint ''b'' 2],
     routing = Some (demo_snapshot [Endpoint ''a'' 1, Endpoint ''b'' 2] 1 [0, 1]),
     next_endpoint_index = 0, next_request_id = 1, made_transports = [Endpoint ''a'' 1, Endpoint ''b'' 2]\<rparr>"

lemma demo_client_ok:
  "client_ok demo_rpc_client"
  "published_before (2, [Endpoint ''b'' 2, Endpoint ''c'' 3]) (routing demo_rpc_client) demo_rpc_client"
  by (simp_all add: client_ok_def routing_ok_def demo_rpc_client_def demo_snapshot_def published_before_def less_Suc_eq)


text \<open>Both endpoints refuse the connection.\<close>

theorem failover_at_most_once_witness:
  "\<exists>tried r s'. CallWithFailover (Some (2, [Endpoint ''b'' 2, Endpoint ''c'' 3])) [] (routing demo_rpc_client)
       (\<lambda>t. MakeCallFailure (Status Unavailable ''refused'') NotSent)
       \<lparr>eff_deadline = None, eff_sticky_key = []\<rparr> demo_rpc_client = Some (tried, r, s') \<and>
     distinct tried \<and> length (filter (\<lambda>t. (0 :: nat) \<noteq> 0) tried) \<le> 1"
proof -
  let ?r = "MakeCallFailure (Status Unavailable ''refused'') NotSent"
  obtain as s where run: "tr_run demo_net demo_env as (TcpTransport demo_limits 4) = Some s"
      "length (calls s) = 1" "call_request (calls s ! 0) = demo_call 1" "taken_bytes (calls s ! 0) = 0"
      "call_pc (calls s ! 0) = CDone ?r"
    using refused_run by blast
  have "transport_reach demo_net demo_env demo_limits 4 s" by (rule tr_run_reach[OF run(1)])
  then have fin: "\<forall>t::nat. tcp_finished (s, 0) (demo_call 1) ?r 0" using run by (auto simp: tcp_finished_def)
  show ?thesis
    using failover_at_most_once[OF demo_client_ok(1) _ _ demo_client_ok(2) demo_client_ok(2) fin,
        of "[]" "\<lparr>eff_deadline = None, eff_sticky_key = []\<rparr>"] by auto
qed

end
