(* ===== verification/Result_Channel.thy ===== *)
theory Result_Channel
  imports Mpsc_Queue
begin

text \<open>
  \<^verbatim>\<open>PostWorkerResult\<close>, \<^verbatim>\<open>ScheduleWorkerResultDrain\<close> and \<^verbatim>\<open>DrainWorkerResults\<close> of
  \<^verbatim>\<open>src/server/connection_io_loop.cpp\<close>: how worker threads hand results to the I/O thread. Workers and
  the I/O thread interleave at every atomic access, those of the queue included; a callback posted to
  the I/O context runs later, on the I/O thread, one at a time.
\<close>

section \<open>The channel\<close>

text \<open>Where a worker is inside \<^verbatim>\<open>PostWorkerResult\<close>. \<open>PostSchedule\<close> has pushed (the position is history) and
  is about to exchange the flag, \<open>PostDrain\<close> is about to post the drain callback.\<close>

datatype 'r post_pc = PostIdle | PostPushing | PostSchedule nat | PostDrain | PostOverflow 'r

text \<open>Where the I/O thread is inside \<^verbatim>\<open>DrainWorkerResults\<close>: in the inner loop with the number of results
  drained, before the flag is cleared, in the \<^verbatim>\<open>TryPop\<close> after that, and with the result of it. In
  \<open>DrainBatch\<close> and \<open>DrainCheck\<close> a \<^verbatim>\<open>TryPop\<close> is in progress.\<close>

datatype 'r drain_pc = DrainIdle | DrainBatch nat | DrainClear | DrainCheck | DrainAgain 'r

text \<open>\<open>drain_posts\<close> counts the drain callbacks posted and not run; \<open>overflow_posts\<close> are the results
  posted with a callback of their own. \<open>handled\<close> and \<open>overflow_handled\<close> are history. The four counters
  are the statistics.\<close>

record 'r channel =
  result_queue :: "'r mpsc_system"
  worker_result_drain_scheduled :: bool
  posters :: "nat \<Rightarrow> 'r post_pc"
  drain_posts :: nat
  overflow_posts :: "'r list"
  drainer :: "'r drain_pc"
  handled :: "'r list"
  overflow_handled :: "'r list"
  worker_results_enqueued :: u64
  worker_result_overflow_fallbacks :: u64
  worker_results_drained :: u64
  worker_result_drain_callbacks :: u64

definition new_channel :: "'r mpsc_queue \<Rightarrow> 'r channel" where
  "new_channel q = \<lparr>result_queue = mpsc_init q, worker_result_drain_scheduled = False,
     posters = (\<lambda>t. PostIdle), drain_posts = 0, overflow_posts = [], drainer = DrainIdle, handled = [],
     overflow_handled = [], worker_results_enqueued = 0, worker_result_overflow_fallbacks = 0,
     worker_results_drained = 0, worker_result_drain_callbacks = 0\<rparr>"

definition MAX_WORKER_RESULTS_PER_DRAIN :: nat where
  "MAX_WORKER_RESULTS_PER_DRAIN = 256"

definition set_poster :: "nat \<Rightarrow> 'r post_pc \<Rightarrow> 'r channel \<Rightarrow> 'r channel" where
  "set_poster t pc s = s\<lparr>posters := (posters s)(t := pc)\<rparr>"

definition start_pop :: "'r channel \<Rightarrow> 'r channel" where
  "start_pop s = s\<lparr>result_queue := (result_queue s)\<lparr>consumer := PopLoadEnqueue\<rparr>\<rparr>"

section \<open>Steps\<close>

definition PostWorkerResult :: "nat \<Rightarrow> 'r \<Rightarrow> 'r channel \<Rightarrow> 'r channel" where
  "PostWorkerResult t r s = set_poster t PostPushing
     (s\<lparr>result_queue := (result_queue s)\<lparr>producers := (producers (result_queue s))(t := PushLoadDequeue r)\<rparr>\<rparr>)"

text \<open>The position a producer is writing.\<close>

fun written_position :: "'r push_pc \<Rightarrow> nat option" where
  "written_position (PushConstruct v e) = Some (unat e)"
| "written_position (PushPublish v e) = Some (unat e)"
| "written_position _ = None"

definition poster_step :: "nat \<Rightarrow> bool \<Rightarrow> 'r channel \<Rightarrow> 'r channel" where
  "poster_step t weak s =
    (case posters s t of
       PostIdle \<Rightarrow> s
     | PostPushing \<Rightarrow>
         let q = result_queue s; s1 = s\<lparr>result_queue := producer_acts t weak q\<rparr>
         in (case snd (snd (TryPush_step weak (producers q t) (shared_queue q))) of
               Pushed \<Rightarrow> set_poster t (PostSchedule (the (written_position (producers q t))))
                 (s1\<lparr>worker_results_enqueued := worker_results_enqueued s + 1\<rparr>)
             | PushFull v \<Rightarrow> set_poster t (PostOverflow v)
                 (s1\<lparr>worker_result_overflow_fallbacks := worker_result_overflow_fallbacks s + 1\<rparr>)
             | _ \<Rightarrow> s1)
     | PostSchedule i \<Rightarrow>
         if worker_result_drain_scheduled s then set_poster t PostIdle s
         else set_poster t PostDrain (s\<lparr>worker_result_drain_scheduled := True\<rparr>)
     | PostDrain \<Rightarrow> set_poster t PostIdle (s\<lparr>drain_posts := drain_posts s + 1\<rparr>)
     | PostOverflow v \<Rightarrow> set_poster t PostIdle (s\<lparr>overflow_posts := overflow_posts s @ [v]\<rparr>))"

definition handle :: "'r \<Rightarrow> 'r channel \<Rightarrow> 'r channel" where
  "handle v s = s\<lparr>handled := handled s @ [v], worker_results_drained := worker_results_drained s + 1\<rparr>"

text \<open>One step of \<^verbatim>\<open>DrainWorkerResults\<close>; from \<open>DrainIdle\<close> the I/O context starts a posted callback.\<close>

definition drain_step :: "'r channel \<Rightarrow> 'r channel" where
  "drain_step s =
    (let q = result_queue s; s1 = s\<lparr>result_queue := consumer_acts q\<rparr>;
         ev = (case TryPop_step (consumer q) (shared_queue q) of None \<Rightarrow> NoPop | Some (_, _, ev) \<Rightarrow> ev)
     in case drainer s of
       DrainIdle \<Rightarrow>
         if drain_posts s = 0 then s
         else start_pop (s\<lparr>drain_posts := drain_posts s - 1, drainer := DrainBatch 0,
           worker_result_drain_callbacks := worker_result_drain_callbacks s + 1\<rparr>)
     | DrainBatch n \<Rightarrow>
         if \<not> n < MAX_WORKER_RESULTS_PER_DRAIN then
           s\<lparr>drainer := DrainIdle, drain_posts := drain_posts s + 1\<rparr>
         else (case ev of
             NoPop \<Rightarrow> s1
           | PopEmpty \<Rightarrow> s1\<lparr>drainer := DrainClear\<rparr>
           | Popped v \<Rightarrow>
               let s2 = handle v (s1\<lparr>drainer := DrainBatch (n + 1)\<rparr>)
               in if n + 1 < MAX_WORKER_RESULTS_PER_DRAIN then start_pop s2 else s2)
     | DrainClear \<Rightarrow> start_pop (s\<lparr>worker_result_drain_scheduled := False, drainer := DrainCheck\<rparr>)
     | DrainCheck \<Rightarrow>
         (case ev of
            NoPop \<Rightarrow> s1
          | PopEmpty \<Rightarrow> s1\<lparr>drainer := DrainIdle\<rparr>
          | Popped v \<Rightarrow> s1\<lparr>drainer := DrainAgain v\<rparr>)
     | DrainAgain v \<Rightarrow>
         start_pop (handle v (s\<lparr>worker_result_drain_scheduled := True, drainer := DrainBatch 0\<rparr>)))"

text \<open>Between drains the I/O thread runs the callback of an overflowing result.\<close>

definition overflow_step :: "'r channel \<Rightarrow> 'r channel" where
  "overflow_step s =
    (case overflow_posts s of
       [] \<Rightarrow> s
     | v # vs \<Rightarrow> s\<lparr>overflow_posts := vs, overflow_handled := overflow_handled s @ [v]\<rparr>)"

inductive channel_step :: "'r channel \<Rightarrow> 'r channel \<Rightarrow> bool" where
  result_posted: "posters s t = PostIdle \<Longrightarrow> channel_step s (PostWorkerResult t r s)"
| poster_moved: "channel_step s (poster_step t weak s)"
| drain_moved: "channel_step s (drain_step s)"
| overflow_moved: "drainer s = DrainIdle \<Longrightarrow> channel_step s (overflow_step s)"

inductive channel_reach :: "nat \<Rightarrow> 'r channel \<Rightarrow> bool" for cap where
  channel_new: "MpscQueue cap = Inr q \<Longrightarrow> channel_reach cap (new_channel q)"
| channel_next: "channel_reach cap s \<Longrightarrow> channel_step s s' \<Longrightarrow> channel_reach cap s'"

section \<open>The invariant\<close>

text \<open>The position a worker has reserved and not yet scheduled.\<close>

fun open_of :: "'r post_pc \<Rightarrow> 'r push_pc \<Rightarrow> nat option" where
  "open_of PostPushing pc = written_position pc"
| "open_of (PostSchedule i) pc = Some i"
| "open_of _ pc = None"

definition open_position :: "'r channel \<Rightarrow> nat \<Rightarrow> nat option" where
  "open_position s t = open_of (posters s t) (producers (result_queue s) t)"

abbreviation n_taken :: "'r channel \<Rightarrow> nat" where "n_taken s \<equiv> length (taken (result_queue s))"
abbreviation n_reserved :: "'r channel \<Rightarrow> nat" where "n_reserved s \<equiv> length (reserved (result_queue s))"

text \<open>A drain is under way or posted; the flag that says so was set by a worker that will post one.\<close>

definition flag_owned :: "'r channel \<Rightarrow> bool" where
  "flag_owned s \<longleftrightarrow> (worker_result_drain_scheduled s \<longrightarrow>
     drain_posts s > 0 \<or> (\<exists>n. drainer s = DrainBatch n) \<or> drainer s = DrainClear \<or> (\<exists>t. posters s t = PostDrain))"

definition covered :: "'r channel \<Rightarrow> bool" where
  "covered s \<longleftrightarrow> worker_result_drain_scheduled s \<or> drain_posts s > 0 \<or> drainer s \<noteq> DrainIdle"

definition wakeup_ok :: "'r channel \<Rightarrow> bool" where
  "wakeup_ok s \<longleftrightarrow> (n_taken s < n_reserved s \<longrightarrow>
     covered s \<or> (\<exists>t i. open_position s t = Some i \<and> n_taken s \<le> i \<and> i < n_reserved s))"

text \<open>Positions that the check after clearing the flag has missed are still open, or the flag is set.\<close>

definition check_ok :: "'r channel \<Rightarrow> bool" where
  "check_ok s \<longleftrightarrow> (\<forall>e. drainer s = DrainCheck \<longrightarrow> consumer (result_queue s) = PopLoadDequeue e \<longrightarrow>
     \<not> worker_result_drain_scheduled s \<longrightarrow> drain_posts s = 0 \<longrightarrow>
     (\<forall>i. unat e \<le> i \<longrightarrow> i < n_reserved s \<longrightarrow> (\<exists>t. open_position s t = Some i)))"

definition pcs_ok :: "'r channel \<Rightarrow> bool" where
  "pcs_ok s \<longleftrightarrow>
    (\<forall>t. posters s t = PostPushing \<longleftrightarrow> producers (result_queue s) t \<noteq> PushIdle) \<and>
    (case drainer s of
       DrainBatch n \<Rightarrow> n \<le> MAX_WORKER_RESULTS_PER_DRAIN \<and>
         (consumer (result_queue s) = PopIdle \<longleftrightarrow> n = MAX_WORKER_RESULTS_PER_DRAIN)
     | DrainCheck \<Rightarrow> consumer (result_queue s) \<noteq> PopIdle
     | _ \<Rightarrow> consumer (result_queue s) = PopIdle) \<and>
    (case drainer s of
       DrainAgain v \<Rightarrow> taken (result_queue s) = handled s @ [v]
     | _ \<Rightarrow> taken (result_queue s) = handled s)"

definition channel_inv :: "nat \<Rightarrow> 'r channel \<Rightarrow> bool" where
  "channel_inv cap s \<longleftrightarrow> mpsc_inv cap (result_queue s) \<and> pcs_ok s \<and> flag_owned s \<and> wakeup_ok s \<and> check_ok s"

lemmas channel_fields = set_poster_def start_pop_def PostWorkerResult_def handle_def

lemma pop_event_pc:
  "TryPop_step pc q = Some (q', pc', ev) \<Longrightarrow> pc \<noteq> PopIdle \<Longrightarrow> ev = NoPop \<longleftrightarrow> pc' \<noteq> PopIdle"
  by (cases pc) (auto simp: Let_def split: if_splits option.splits)

text \<open>What a step of the consumer does inside \<^verbatim>\<open>TryPop\<close>.\<close>

lemma consumer_acts_cases:
  assumes "mpsc_inv cap q" "consumer q \<noteq> PopIdle"
  obtains q' pc ev where "TryPop_step (consumer q) (shared_queue q) = Some (q', pc, ev)"
    "consumer (consumer_acts q) = pc" "producers (consumer_acts q) = producers q"
    "reserved (consumer_acts q) = reserved q"
    "taken (consumer_acts q) = taken q @ (case ev of Popped v \<Rightarrow> [v] | _ \<Rightarrow> [])"
    "ev = NoPop \<longleftrightarrow> pc \<noteq> PopIdle"
proof (cases "TryPop_step (consumer q) (shared_queue q)")
  case None
  then have "undefined_behaviour (consumer_acts q)" by (simp add: consumer_acts_def)
  then show ?thesis
    using mpsc_inv_consumer_acts[OF assms(1)] by (simp add: mpsc_inv_def counters_ok_def)
next
  case (Some a)
  obtain q' pc ev where a: "a = (q', pc, ev)" by (cases a)
  show ?thesis
  proof (rule that)
    show "TryPop_step (consumer q) (shared_queue q) = Some (q', pc, ev)" using Some a by simp
    then show "ev = NoPop \<longleftrightarrow> pc \<noteq> PopIdle" using pop_event_pc assms(2) by blast
    show "taken (consumer_acts q) = taken q @ (case ev of Popped v \<Rightarrow> [v] | _ \<Rightarrow> [])"
      using Some a by (simp add: consumer_acts_def split: pop_event.split)
  qed (use Some a in \<open>simp_all add: consumer_acts_def\<close>)
qed

lemma wakeup_covered: "covered s \<Longrightarrow> wakeup_ok s"
  by (simp add: wakeup_ok_def)

lemma check_other: "drainer s \<noteq> DrainCheck \<Longrightarrow> check_ok s"
  by (simp add: check_ok_def)

text \<open>Steps of a worker: what they must leave in place.\<close>

lemma wakeup_mono:
  assumes "wakeup_ok s" "n_taken s' = n_taken s" "n_taken s \<le> n_reserved s" "covered s \<Longrightarrow> covered s'"
    "\<And>t i. open_position s t = Some i \<Longrightarrow> open_position s' t = Some i \<or> covered s'"
    "n_reserved s' = n_reserved s \<or> n_reserved s' = Suc (n_reserved s) \<and> (\<exists>t. open_position s' t = Some (n_reserved s))"
  shows "wakeup_ok s'"
proof (cases "covered s' \<or> n_reserved s' = Suc (n_reserved s)")
  case True
  then show ?thesis using assms(2,3,6) unfolding wakeup_ok_def by (metis less_Suc_eq_le n_not_Suc_n order_refl)
next
  case False
  then show ?thesis using assms unfolding wakeup_ok_def by metis
qed

lemma check_mono:
  assumes "check_ok s" "drainer s' = drainer s" "consumer (result_queue s') = consumer (result_queue s)"
    "worker_result_drain_scheduled s \<Longrightarrow> worker_result_drain_scheduled s'" "drain_posts s \<le> drain_posts s'"
    "\<And>t i. open_position s t = Some i \<Longrightarrow> open_position s' t = Some i \<or> worker_result_drain_scheduled s'"
    "n_reserved s' = n_reserved s \<or> n_reserved s' = Suc (n_reserved s) \<and> (\<exists>t. open_position s' t = Some (n_reserved s))"
  shows "check_ok s'"
  using assms unfolding check_ok_def by (metis le_zero_eq less_Suc_eq)

lemma poster_pushing:
  "channel_inv cap s \<Longrightarrow> posters s t = PostPushing \<longleftrightarrow> producers (result_queue s) t \<noteq> PushIdle"
  by (simp add: channel_inv_def pcs_ok_def)

text \<open>A step inside \<^verbatim>\<open>TryPush\<close>.\<close>

lemma push_step_effect:
  assumes inv: "mpsc_inv cap q" and st: "TryPush_step weak (producers q t) (shared_queue q) = (q', pc, ev)"
    and pc: "producers q t \<noteq> PushIdle"
  shows "ev = Pushed \<Longrightarrow> pc = PushIdle \<and> written_position (producers q t) \<noteq> None"
    "ev = PushFull v \<Longrightarrow> pc = PushIdle \<and> written_position (producers q t) = None"
    "ev = Reserved v \<Longrightarrow> written_position pc = Some (length (reserved q)) \<and> written_position (producers q t) = None"
    "ev = NoPush \<Longrightarrow> pc \<noteq> PushIdle \<and> written_position pc = written_position (producers q t)"
    "ev = Reserved v \<Longrightarrow> pc \<noteq> PushIdle"
  using st pc inv
  by (cases "producers q t"; auto simp: Let_def mpsc_inv_def counters_ok_def unat64 split: if_splits)+

text \<open>The queue part of a step of a worker, and the other parts.\<close>

lemma worker_inv:
  assumes inv: "channel_inv cap s" and q: "mpsc_inv cap (result_queue s')"
    and same: "drainer s' = drainer s" "consumer (result_queue s') = consumer (result_queue s)"
      "taken (result_queue s') = taken (result_queue s)" "handled s' = handled s"
    and flag: "worker_result_drain_scheduled s \<Longrightarrow> worker_result_drain_scheduled s'" "drain_posts s \<le> drain_posts s'"
      "flag_owned s'"
    and op: "\<And>t i. open_position s t = Some i \<Longrightarrow> open_position s' t = Some i \<or> worker_result_drain_scheduled s'"
      "n_reserved s' = n_reserved s \<or> n_reserved s' = Suc (n_reserved s) \<and> (\<exists>t. open_position s' t = Some (n_reserved s))"
    and pushing: "\<And>t. posters s' t = PostPushing \<longleftrightarrow> producers (result_queue s') t \<noteq> PushIdle"
  shows "channel_inv cap s'"
proof -
  have le: "n_taken s \<le> n_reserved s" using inv by (simp add: channel_inv_def mpsc_inv_def counters_ok_def)
  have cov: "covered s \<Longrightarrow> covered s'" using same(1) flag(1,2) by (auto simp: covered_def)
  have "wakeup_ok s'"
  proof (rule wakeup_mono[OF _ _ le cov _ op(2)])
    show "wakeup_ok s" using inv by (simp add: channel_inv_def)
    show "n_taken s' = n_taken s" using same by simp
    show "open_position s' t = Some i \<or> covered s'" if "open_position s t = Some i" for t i
      using op(1)[OF that] by (auto simp: covered_def)
  qed
  moreover have "check_ok s'"
    by (rule check_mono[OF _ same(1,2) flag(1,2) op]) (use inv in \<open>simp add: channel_inv_def\<close>)
  moreover have "pcs_ok s'" using inv pushing same by (auto simp: channel_inv_def pcs_ok_def split: drain_pc.splits)
  ultimately show ?thesis using q flag(3) by (simp add: channel_inv_def)
qed

lemma flag_frame:
  assumes "flag_owned s" "posters s t \<noteq> PostDrain" "posters s' = (posters s)(t := pc)"
    "worker_result_drain_scheduled s' = worker_result_drain_scheduled s" "drain_posts s' = drain_posts s"
    "drainer s' = drainer s"
  shows "flag_owned s'"
proof -
  have "\<exists>t'. posters s' t' = PostDrain" if "posters s ta = PostDrain" for ta
    using that assms(2,3) by (intro exI[of _ ta]) auto
  then show ?thesis using assms unfolding flag_owned_def by metis
qed

lemma posted_inv:
  assumes "channel_inv cap s" "posters s t = PostIdle"
  shows "channel_inv cap (PostWorkerResult t r s)"
proof (rule worker_inv[OF assms(1)])
  let ?s = "PostWorkerResult t r s"
  have idle: "producers (result_queue s) t = PushIdle"
    using poster_pushing[OF assms(1), of t] assms(2) by simp
  show "mpsc_inv cap (result_queue ?s)"
    using mpsc_inv_producer_local[of cap "result_queue s" t "PushLoadDequeue r"] assms(1) idle
    by (simp add: channel_inv_def channel_fields)
  show "flag_owned ?s"
    by (rule flag_frame[of s t _ PostPushing]) (use assms in \<open>simp_all add: channel_inv_def channel_fields\<close>)
  show "open_position ?s t' = Some i \<or> worker_result_drain_scheduled ?s" if "open_position s t' = Some i" for t' i
    using that assms(2) by (auto simp: open_position_def channel_fields split: if_splits)
  show "posters ?s t' = PostPushing \<longleftrightarrow> producers (result_queue ?s) t' \<noteq> PushIdle" for t'
    using poster_pushing[OF assms(1), of t'] by (simp add: channel_fields)
qed (simp_all add: channel_fields)

lemma push_inv:
  assumes inv: "channel_inv cap s" and pc: "posters s t = PostPushing"
    and bound: "n_reserved (poster_step t weak s) < 2 ^ 64"
  shows "channel_inv cap (poster_step t weak s)"
proof -
  let ?q = "result_queue s" and ?s = "poster_step t weak s"
  obtain q' pc' ev where st: "TryPush_step weak (producers ?q t) (shared_queue ?q) = (q', pc', ev)"
    by (cases "TryPush_step weak (producers ?q t) (shared_queue ?q)")
  have m: "mpsc_inv cap ?q" using inv by (simp add: channel_inv_def)
  have np: "producers ?q t \<noteq> PushIdle" using poster_pushing[OF inv] pc by simp
  note eff = push_step_effect[OF m st np]
  have rq: "result_queue ?s = producer_acts t weak ?q"
    using pc st by (simp add: poster_step_def Let_def set_poster_def split: push_event.split)
  have acts: "producer_acts t weak ?q = ?q\<lparr>shared_queue := q', producers := (producers ?q)(t := pc'),
      reserved := (case ev of Reserved v \<Rightarrow> reserved ?q @ [(t, v)] | _ \<Rightarrow> reserved ?q)\<rparr>"
    using st by (simp add: producer_acts_def)
  have po: "posters ?s = (case ev of Pushed \<Rightarrow> (posters s)(t := PostSchedule (the (written_position (producers ?q t))))
      | PushFull v \<Rightarrow> (posters s)(t := PostOverflow v) | _ \<Rightarrow> posters s)"
    using pc st by (simp add: poster_step_def Let_def set_poster_def split: push_event.split)
  have rest: "drainer ?s = drainer s" "handled ?s = handled s" "drain_posts ?s = drain_posts s"
      "worker_result_drain_scheduled ?s = worker_result_drain_scheduled s"
    using pc st by (simp_all add: poster_step_def Let_def set_poster_def split: push_event.split)
  have others: "open_position ?s t' = open_position s t'" if "t' \<noteq> t" for t'
    using that po rq acts by (simp add: open_position_def split: push_event.split)
  have mine: "open_position s t = written_position (producers ?q t)" using pc by (simp add: open_position_def)
  have mine': "open_position ?s t = (case ev of Reserved v \<Rightarrow> Some (n_reserved s) | _ \<Rightarrow> open_position s t)"
    using eff mine pc po rq acts by (cases ev) (auto simp: open_position_def)
  show ?thesis
  proof (rule worker_inv[OF inv])
    show "mpsc_inv cap (result_queue ?s)" using mpsc_inv_producer_acts[OF m, of t weak] rq bound by simp
    have "posters ?s = (posters s)(t := posters ?s t)" using po by (cases ev) auto
    then show "flag_owned ?s"
      using flag_frame[of s t ?s "posters ?s t"] inv pc rest by (simp add: channel_inv_def)
    show "open_position ?s t' = Some i \<or> worker_result_drain_scheduled ?s" if "open_position s t' = Some i" for t' i
      using that others[of t'] mine' mine eff(3) by (cases "t' = t"; cases ev) auto
    show "n_reserved ?s = n_reserved s \<or>
        n_reserved ?s = Suc (n_reserved s) \<and> (\<exists>t. open_position ?s t = Some (n_reserved s))"
      using rq acts mine' by (cases ev) auto
    show "posters ?s t' = PostPushing \<longleftrightarrow> producers (result_queue ?s) t' \<noteq> PushIdle" for t'
      using poster_pushing[OF inv, of t'] rq acts po eff pc by (cases "t' = t"; cases ev) auto
  qed (use rq acts rest in simp_all)
qed

lemma poster_inv:
  assumes inv: "channel_inv cap s" and bound: "n_reserved (poster_step t weak s) < 2 ^ 64"
  shows "channel_inv cap (poster_step t weak s)"
proof -
  have pushing: "((posters s)(t := pc)) t' = PostPushing \<longleftrightarrow> producers (result_queue s) t' \<noteq> PushIdle"
    if "posters s t \<noteq> PostPushing" "pc \<noteq> PostPushing" for pc t'
    using poster_pushing[OF inv, of t'] that by auto
  have m: "mpsc_inv cap (result_queue s)" "flag_owned s" using inv by (simp_all add: channel_inv_def)
  show ?thesis
  proof (cases "posters s t")
    case PostIdle
    then show ?thesis using inv by (simp add: poster_step_def)
  next
    case PostPushing
    then show ?thesis by (rule push_inv[OF inv _ bound])
  next
    case (PostSchedule i)
    have "flag_owned (set_poster t PostIdle s)"
      by (rule flag_frame[OF m(2), of t _ PostIdle]) (use PostSchedule in \<open>simp_all add: set_poster_def\<close>)
    moreover have "flag_owned (set_poster t PostDrain (s\<lparr>worker_result_drain_scheduled := True\<rparr>))"
      by (auto simp: flag_owned_def set_poster_def)
    ultimately show ?thesis using PostSchedule m pushing
      by (intro worker_inv[OF inv]) (auto simp: poster_step_def set_poster_def open_position_def)
  next
    case PostDrain
    have "flag_owned (poster_step t weak s)" using PostDrain by (simp add: flag_owned_def poster_step_def set_poster_def)
    then show ?thesis using PostDrain m pushing
      by (intro worker_inv[OF inv]) (auto simp: poster_step_def set_poster_def open_position_def)
  next
    case (PostOverflow v)
    have "flag_owned (poster_step t weak s)"
      by (rule flag_frame[OF m(2), of t _ PostIdle]) (use PostOverflow in \<open>simp_all add: poster_step_def set_poster_def\<close>)
    then show ?thesis using PostOverflow m pushing
      by (intro worker_inv[OF inv]) (auto simp: poster_step_def set_poster_def open_position_def)
  qed
qed

text \<open>Starting a \<^verbatim>\<open>TryPop\<close>.\<close>

lemma start_pop_mpsc:
  "mpsc_inv cap (result_queue s) \<Longrightarrow> consumer (result_queue s) = PopIdle \<Longrightarrow>
     mpsc_inv cap (result_queue (start_pop s))"
  using mpsc_inv_consumer_local[of cap "result_queue s" PopLoadEnqueue] by (simp add: start_pop_def)

lemma start_pop_fields [simp]:
  "drainer (start_pop s) = drainer s" "posters (start_pop s) = posters s" "handled (start_pop s) = handled s"
  "drain_posts (start_pop s) = drain_posts s" "overflow_posts (start_pop s) = overflow_posts s"
  "worker_result_drain_scheduled (start_pop s) = worker_result_drain_scheduled s"
  "consumer (result_queue (start_pop s)) = PopLoadEnqueue"
  "producers (result_queue (start_pop s)) = producers (result_queue s)"
  "taken (result_queue (start_pop s)) = taken (result_queue s)"
  "reserved (result_queue (start_pop s)) = reserved (result_queue s)"
  by (simp_all add: start_pop_def)

lemma batch_inv:
  assumes inv: "channel_inv cap s" and pc: "drainer s = DrainBatch n"
  shows "channel_inv cap (drain_step s)"
proof (cases "n < MAX_WORKER_RESULTS_PER_DRAIN")
  case False
  then show ?thesis using inv pc
    by (auto simp: drain_step_def Let_def channel_inv_def pcs_ok_def flag_owned_def covered_def
        intro!: wakeup_covered check_other)
next
  case True
  let ?q = "result_queue s"
  have m: "mpsc_inv cap ?q" and c: "consumer ?q \<noteq> PopIdle" and p: "pcs_ok s"
    using inv pc True by (auto simp: channel_inv_def pcs_ok_def)
  obtain q' pc' ev where st: "TryPop_step (consumer ?q) (shared_queue ?q) = Some (q', pc', ev)"
    "consumer (consumer_acts ?q) = pc'" "producers (consumer_acts ?q) = producers ?q"
    "reserved (consumer_acts ?q) = reserved ?q"
    "taken (consumer_acts ?q) = taken ?q @ (case ev of Popped v \<Rightarrow> [v] | _ \<Rightarrow> [])" "ev = NoPop \<longleftrightarrow> pc' \<noteq> PopIdle"
    using consumer_acts_cases[OF m c] by blast
  have m': "mpsc_inv cap (consumer_acts ?q)" by (rule mpsc_inv_consumer_acts[OF m])
  show ?thesis
  proof (cases ev)
    case NoPop
    then show ?thesis using st pc True m' p
      by (auto simp: drain_step_def Let_def channel_inv_def pcs_ok_def flag_owned_def covered_def
          intro!: wakeup_covered check_other)
  next
    case PopEmpty
    then show ?thesis using st pc True m' p
      by (auto simp: drain_step_def Let_def channel_inv_def pcs_ok_def flag_owned_def covered_def
          intro!: wakeup_covered check_other)
  next
    case (Popped v)
    define s2 where "s2 = handle v (s\<lparr>result_queue := consumer_acts ?q, drainer := DrainBatch (n + 1)\<rparr>)"
    have s2: "mpsc_inv cap (result_queue s2)" "consumer (result_queue s2) = PopIdle" "drainer s2 = DrainBatch (n + 1)"
        "taken (result_queue s2) = handled s2"
        "\<And>t. posters s2 t = PostPushing \<longleftrightarrow> producers (result_queue s2) t \<noteq> PushIdle"
      using m' st Popped p pc by (auto simp: s2_def handle_def pcs_ok_def)
    have "drain_step s = (if n + 1 < MAX_WORKER_RESULTS_PER_DRAIN then start_pop s2 else s2)"
      using pc True st(1) Popped by (simp add: drain_step_def Let_def s2_def)
    then show ?thesis using s2 start_pop_mpsc[OF s2(1,2)] True
      by (auto simp: channel_inv_def pcs_ok_def flag_owned_def covered_def intro!: wakeup_covered check_other)
  qed
qed

text \<open>The check that ends empty has missed nothing that is not still open.\<close>

lemma check_empty:
  assumes inv: "channel_inv cap s" and pc: "drainer s = DrainCheck"
    and st: "TryPop_step (consumer (result_queue s)) (shared_queue (result_queue s)) = Some (q', pc', PopEmpty)"
    and idle: "\<not> worker_result_drain_scheduled s" "drain_posts s = 0" and some: "n_taken s < n_reserved s"
  shows "\<exists>t. open_position s t = Some (n_taken s)"
proof -
  let ?q = "result_queue s"
  have m: "mpsc_inv cap ?q" and ck: "check_ok s" using inv by (simp_all add: channel_inv_def)
  have b: "n_reserved s < 2 ^ 64" "dequeue_position (shared_queue ?q) = of_nat (n_taken s)"
    using m by (simp_all add: mpsc_inv_def counters_ok_def)
  show ?thesis
  proof (cases "consumer ?q")
    case (PopLoadDequeue e)
    then have "e = of_nat (n_taken s)" using st b(2) by (auto simp: Let_def split: if_splits)
    then have "unat e = n_taken s" using b(1) some by (simp add: unat64)
    then show ?thesis using ck pc PopLoadDequeue idle some by (auto simp: check_ok_def)
  next
    case (PopLoadReady d)
    have d: "d = of_nat (n_taken s)" using m PopLoadReady by (simp add: mpsc_inv_def)
    have "\<not> ready (slots (shared_queue ?q) ! slot_index (shared_queue ?q) d)"
      using st PopLoadReady by (auto split: if_splits)
    then have "\<not> published ?q (n_taken s)"
      using oldest_slot[OF m some] position_slot_oldest[OF some] PopLoadReady d by auto
    then obtain t v where t: "reserved ?q ! n_taken s = (t, v)"
        "producers ?q t = PushConstruct v (of_nat (n_taken s)) \<or> producers ?q t = PushPublish v (of_nat (n_taken s))"
      by (cases "reserved ?q ! n_taken s") (auto simp: published_def)
    then have "posters s t = PostPushing" using poster_pushing[OF inv, of t] by auto
    then have "open_position s t = Some (n_taken s)"
      using t(2) b(1) some by (auto simp: open_position_def unat64)
    then show ?thesis ..
  qed (use st in \<open>auto split: option.splits if_splits\<close>)
qed

lemma check_inv:
  assumes inv: "channel_inv cap s" and pc: "drainer s = DrainCheck"
  shows "channel_inv cap (drain_step s)"
proof -
  let ?q = "result_queue s"
  have m: "mpsc_inv cap ?q" and c: "consumer ?q \<noteq> PopIdle" and p: "pcs_ok s" and f: "flag_owned s" and ck: "check_ok s"
    using inv pc by (auto simp: channel_inv_def pcs_ok_def)
  obtain q' pc' ev where st: "TryPop_step (consumer ?q) (shared_queue ?q) = Some (q', pc', ev)"
    "consumer (consumer_acts ?q) = pc'" "producers (consumer_acts ?q) = producers ?q"
    "reserved (consumer_acts ?q) = reserved ?q"
    "taken (consumer_acts ?q) = taken ?q @ (case ev of Popped v \<Rightarrow> [v] | _ \<Rightarrow> [])" "ev = NoPop \<longleftrightarrow> pc' \<noteq> PopIdle"
    using consumer_acts_cases[OF m c] by blast
  have m': "mpsc_inv cap (consumer_acts ?q)" by (rule mpsc_inv_consumer_acts[OF m])
  show ?thesis
  proof (cases ev)
    case NoPop
    have "drain_step s = s\<lparr>result_queue := consumer_acts ?q\<rparr>" using pc st NoPop by (simp add: drain_step_def Let_def)
    moreover have "\<not> (unat e \<le> i \<and> i < n_reserved s)" if "pc' = PopLoadDequeue e" for e i
    proof -
      have "consumer ?q = PopLoadEnqueue" "e = enqueue_position (shared_queue ?q)"
        using st(1) that by (cases "consumer ?q"; auto simp: Let_def split: if_splits option.splits)+
      then show ?thesis using m by (auto simp: mpsc_inv_def counters_ok_def unat64)
    qed
    ultimately show ?thesis using NoPop st m' p f pc
      by (auto simp: channel_inv_def pcs_ok_def flag_owned_def covered_def check_ok_def intro!: wakeup_covered)
  next
    case PopEmpty
    let ?s = "s\<lparr>result_queue := consumer_acts ?q, drainer := DrainIdle\<rparr>"
    have eq: "drain_step s = ?s" using pc st PopEmpty by (simp add: drain_step_def Let_def)
    have op: "open_position ?s t = open_position s t" for t using st PopEmpty by (simp add: open_position_def)
    have "wakeup_ok ?s"
      using check_empty[OF inv pc st(1)[unfolded PopEmpty]] st(4,5) PopEmpty op
      by (cases "worker_result_drain_scheduled s \<or> drain_posts s > 0")
        (auto simp: wakeup_ok_def covered_def intro: exI)
    then show ?thesis unfolding eq using PopEmpty st m' p f pc
      by (auto simp: channel_inv_def pcs_ok_def flag_owned_def intro!: check_other)
  next
    case (Popped v)
    then show ?thesis using st m' p f pc
      by (auto simp: drain_step_def Let_def channel_inv_def pcs_ok_def flag_owned_def covered_def
          intro!: wakeup_covered check_other)
  qed
qed

lemma drain_inv:
  assumes inv: "channel_inv cap s"
  shows "channel_inv cap (drain_step s)"
proof (cases "drainer s")
  case DrainIdle
  then show ?thesis using inv start_pop_mpsc[of cap s]
    by (auto simp: drain_step_def Let_def channel_inv_def pcs_ok_def flag_owned_def covered_def start_pop_def
        MAX_WORKER_RESULTS_PER_DRAIN_def intro!: wakeup_covered check_other)
next
  case (DrainBatch n)
  then show ?thesis by (rule batch_inv[OF inv])
next
  case DrainClear
  then show ?thesis using inv start_pop_mpsc[of cap s]
    by (auto simp: drain_step_def Let_def channel_inv_def pcs_ok_def flag_owned_def covered_def start_pop_def
        check_ok_def intro!: wakeup_covered)
next
  case DrainCheck
  then show ?thesis by (rule check_inv[OF inv])
next
  case (DrainAgain v)
  then show ?thesis using inv start_pop_mpsc[of cap s]
    by (auto simp: drain_step_def Let_def channel_inv_def pcs_ok_def flag_owned_def covered_def start_pop_def
        handle_def MAX_WORKER_RESULTS_PER_DRAIN_def intro!: wakeup_covered check_other)
qed

lemma channel_reserved: "channel_step s s' \<Longrightarrow> n_reserved s \<le> n_reserved s'"
  by (induction rule: channel_step.induct)
    (auto simp: channel_fields poster_step_def drain_step_def overflow_step_def producer_acts_def consumer_acts_def Let_def
      split: post_pc.splits prod.splits push_event.splits drain_pc.splits option.splits pop_event.splits list.splits)

lemma overflow_inv: "channel_inv cap s \<Longrightarrow> channel_inv cap (overflow_step s)"
  by (auto simp: overflow_step_def channel_inv_def pcs_ok_def flag_owned_def wakeup_ok_def check_ok_def covered_def
      open_position_def split: list.splits drain_pc.splits)

theorem channel_invariant: "channel_reach cap s \<Longrightarrow> n_reserved s < 2 ^ 64 \<Longrightarrow> channel_inv cap s"
proof (induction rule: channel_reach.induct)
  case (channel_new q)
  then show ?case
    using mpsc_inv_init[OF channel_new(1)]
    by (simp add: channel_inv_def new_channel_def pcs_ok_def flag_owned_def wakeup_ok_def check_ok_def mpsc_init_def)
next
  case (channel_next s s')
  then have inv: "channel_inv cap s" using channel_reserved[OF channel_next.hyps(2)] by simp
  show ?case using channel_next.hyps(2)
  proof cases
    case (result_posted t r)
    then show ?thesis using posted_inv[OF inv] by simp
  next
    case (poster_moved t weak)
    then show ?thesis using poster_inv[OF inv] channel_next.prems by simp
  next
    case drain_moved
    then show ?thesis using drain_inv[OF inv] by simp
  next
    case overflow_moved
    then show ?thesis using overflow_inv[OF inv] by simp
  qed
qed

section \<open>The drain ends\<close>

fun pop_rank :: "'r pop_pc \<Rightarrow> nat" where
  "pop_rank PopIdle = 0"
| "pop_rank PopLoadEnqueue = 6"
| "pop_rank (PopLoadDequeue e) = 5"
| "pop_rank (PopLoadReady d) = 4"
| "pop_rank (PopTake d) = 3"
| "pop_rank (PopClear d v) = 2"
| "pop_rank (PopAdvance d v) = 1"

definition drain_rank :: "'r channel \<Rightarrow> nat" where
  "drain_rank s = (n_reserved s - n_taken s) * 100 + drain_posts s * 20 +
     (case drainer s of
        DrainIdle \<Rightarrow> 0
      | DrainBatch n \<Rightarrow> if n < MAX_WORKER_RESULTS_PER_DRAIN then 10 + pop_rank (consumer (result_queue s)) else 30
      | DrainClear \<Rightarrow> 9
      | DrainCheck \<Rightarrow> 1 + pop_rank (consumer (result_queue s))
      | DrainAgain v \<Rightarrow> 17)"

lemma pop_rank_step:
  "TryPop_step pc q = Some (q', pc', NoPop) \<Longrightarrow> pc \<noteq> PopIdle \<Longrightarrow> pop_rank pc' < pop_rank pc"
  by (cases pc) (auto simp: Let_def split: if_splits option.splits)

lemma pop_rank_le: "pop_rank pc \<le> 6"
  by (cases pc) auto

lemma popped_reserved: "mpsc_inv cap (consumer_acts q) \<Longrightarrow> length (taken (consumer_acts q)) \<le> length (reserved q)"
  by (auto simp: mpsc_inv_def counters_ok_def consumer_acts_def split: option.splits prod.splits)

lemma drain_rank_step:
  assumes inv: "channel_inv cap s" and busy: "drainer s \<noteq> DrainIdle \<or> drain_posts s \<noteq> 0"
  shows "drain_rank (drain_step s) < drain_rank s"
proof (cases "(\<exists>n. drainer s = DrainBatch n \<and> n < MAX_WORKER_RESULTS_PER_DRAIN) \<or> drainer s = DrainCheck")
  case False
  then consider "drainer s = DrainIdle" "drain_posts s > 0" | n where "drainer s = DrainBatch n" "\<not> n < MAX_WORKER_RESULTS_PER_DRAIN"
    | "drainer s = DrainClear" | v where "drainer s = DrainAgain v"
    using busy by (cases "drainer s") auto
  then show ?thesis
    by cases (auto simp: drain_step_def Let_def drain_rank_def handle_def MAX_WORKER_RESULTS_PER_DRAIN_def)
next
  case True
  let ?q = "result_queue s"
  have m: "mpsc_inv cap ?q" and c: "consumer ?q \<noteq> PopIdle"
    using inv True by (auto simp: channel_inv_def pcs_ok_def)
  obtain q' pc' ev where st: "TryPop_step (consumer ?q) (shared_queue ?q) = Some (q', pc', ev)"
    "consumer (consumer_acts ?q) = pc'" "producers (consumer_acts ?q) = producers ?q"
    "reserved (consumer_acts ?q) = reserved ?q"
    "taken (consumer_acts ?q) = taken ?q @ (case ev of Popped v \<Rightarrow> [v] | _ \<Rightarrow> [])" "ev = NoPop \<longleftrightarrow> pc' \<noteq> PopIdle"
    using consumer_acts_cases[OF m c] by blast
  have le: "length (taken (consumer_acts ?q)) \<le> n_reserved s"
    using popped_reserved[OF mpsc_inv_consumer_acts[OF m]] .
  show ?thesis
  proof (cases ev)
    case NoPop
    then show ?thesis using st True pop_rank_step[OF _ c] by (auto simp: drain_step_def Let_def drain_rank_def)
  next
    case PopEmpty
    then show ?thesis using st True pop_rank_le[of "consumer ?q"] by (auto simp: drain_step_def Let_def drain_rank_def)
  next
    case (Popped v)
    then have "n_reserved s - n_taken s = Suc (n_reserved s - Suc (n_taken s))" using st(5) le by simp
    then show ?thesis using st True Popped by (auto simp: drain_step_def Let_def drain_rank_def handle_def)
  qed
qed

lemma drain_step_others:
  "posters (drain_step s) = posters s" "reserved (result_queue (drain_step s)) = reserved (result_queue s)"
  by (auto simp: drain_step_def Let_def handle_def consumer_acts_def
      split: drain_pc.splits pop_event.splits option.splits prod.splits)

lemma drain_runs_out:
  assumes "channel_inv cap s"
  shows "\<exists>n. channel_inv cap ((drain_step ^^ n) s) \<and> drainer ((drain_step ^^ n) s) = DrainIdle \<and>
    drain_posts ((drain_step ^^ n) s) = 0 \<and> posters ((drain_step ^^ n) s) = posters s \<and>
    reserved (result_queue ((drain_step ^^ n) s)) = reserved (result_queue s)"
  using assms
proof (induction "drain_rank s" arbitrary: s rule: less_induct)
  case less
  show ?case
  proof (cases "drainer s = DrainIdle \<and> drain_posts s = 0")
    case True
    then show ?thesis using less.prems by (intro exI[of _ 0]) simp
  next
    case False
    then obtain n where "channel_inv cap ((drain_step ^^ n) (drain_step s)) \<and>
        drainer ((drain_step ^^ n) (drain_step s)) = DrainIdle \<and> drain_posts ((drain_step ^^ n) (drain_step s)) = 0 \<and>
        posters ((drain_step ^^ n) (drain_step s)) = posters (drain_step s) \<and>
        reserved (result_queue ((drain_step ^^ n) (drain_step s))) = reserved (result_queue (drain_step s))"
      using less.hyps[OF drain_rank_step[OF less.prems] drain_inv[OF less.prems]] by auto
    then show ?thesis by (intro exI[of _ "Suc n"]) (simp add: drain_step_others funpow_swap1)
  qed
qed

lemma idle_queue_empty:
  assumes "channel_inv cap s" "\<And>t. posters s t = PostIdle" "drainer s = DrainIdle" "drain_posts s = 0"
  shows "handled s = map snd (reserved (result_queue s))"
proof -
  have "\<not> n_taken s < n_reserved s"
    using assms by (auto simp: channel_inv_def wakeup_ok_def covered_def flag_owned_def open_position_def)
  then show ?thesis using assms by (auto simp: channel_inv_def pcs_ok_def mpsc_inv_def counters_ok_def)
qed


text \<open>A worker posts one result and has posted the drain callback.\<close>

definition demo_post :: "nat channel \<Rightarrow> nat channel" where
  "demo_post = poster_step 0 False"

definition demo_channel :: "nat channel" where
  "demo_channel = demo_post (demo_post (demo_post (demo_post (demo_post (demo_post (demo_post
     (PostWorkerResult 0 42 (new_channel \<lparr>enqueue_position = 0, capacity = 2,
        slots = [empty_slot, empty_slot], dequeue_position = 0\<rparr>))))))))"

lemma demo_channel_reach: "channel_reach 2 demo_channel"
proof -
  have step: "channel_reach 2 (demo_post s)" if "channel_reach 2 s" for s
    unfolding demo_post_def by (rule channel_next[OF that poster_moved])
  have "channel_reach 2 (new_channel \<lparr>enqueue_position = 0, capacity = 2,
      slots = [empty_slot, empty_slot], dequeue_position = 0\<rparr> :: nat channel)"
    by (rule channel_new) (simp add: MpscQueue_def numeral_2_eq_2)
  then show ?thesis unfolding demo_channel_def
    by (intro step channel_next[OF _ result_posted]) (auto simp: new_channel_def)
qed

lemmas demo_channel_defs = demo_channel_def demo_post_def new_channel_def channel_fields poster_step_def
  producer_acts_def mpsc_init_def set_slot_def slot_index_def empty_slot_def Let_def

lemma demo_channel_state:
  "posters demo_channel = (\<lambda>t. PostIdle)" "drain_posts demo_channel = 1" "handled demo_channel = []"
  "reserved (result_queue demo_channel) = [(0, 42)]"
  by (simp_all add: demo_channel_defs fun_eq_iff)


end
