(* ===== verification/Connection_Io_Loop.thy ===== *)
theory Connection_Io_Loop
  imports Server_Connection
begin

text \<open>
  \<^verbatim>\<open>src/server/connection_io_loop.cpp\<close>: one I/O loop with all its connections. The loop thread runs
  posted callbacks and completions one at a time; the owner (\<^verbatim>\<open>Start\<close>, \<^verbatim>\<open>BeginDrain\<close>, \<^verbatim>\<open>FinishDrain\<close>,
  \<^verbatim>\<open>StopImmediately\<close>, statistics), the accepting thread and the workers act concurrently with it.
  Every connection of the loop behaves as one of \<open>Server_Connection\<close>; the theory adds the table of
  connections, the shared accounts, the lifecycle and the order of the callbacks. How results travel
  from the workers to the loop thread is the subject of \<open>Result_Channel\<close>; here a result that was
  produced is handled at some later time.
\<close>

section \<open>What an operation of a connection does to the accounts of its loop\<close>

definition settles :: "connection \<Rightarrow> connection \<Rightarrow> bool" where
  "settles c c' \<longleftrightarrow>
    loop_pending_write_bytes (owner_loop c') + pending_write_bytes c =
      loop_pending_write_bytes (owner_loop c) + pending_write_bytes c' \<and>
    live_connections (owner_loop c') = live_connections (owner_loop c) - (closed_calls c' - closed_calls c) \<and>
    closed_calls c \<le> closed_calls c' \<and> conn_protocol c' = conn_protocol c \<and>
    (state c \<noteq> Active \<longrightarrow> state c' \<noteq> Active) \<and>
    (loop_pending_write_bytes (owner_loop c) \<le> loop_pending_write_bytes_peak (owner_loop c) \<longrightarrow>
       loop_pending_write_bytes (owner_loop c') \<le> loop_pending_write_bytes_peak (owner_loop c'))"

lemma settles_refl [simp]: "settles c c"
  by (simp add: settles_def)

lemma settles_trans [trans]: "settles a b \<Longrightarrow> settles b c \<Longrightarrow> settles a c"
  by (auto simp: settles_def)

lemma settles_frame [simp]:
  "settles c (c'\<lparr>write_loop := w\<rparr>) = settles c c'"
  "settles c (c'\<lparr>read_loop := r\<rparr>) = settles c c'"
  "settles c (c'\<lparr>inflight_requests := n\<rparr>) = settles c c'"
  "settles c (c'\<lparr>write_queue := ws\<rparr>) = settles c c'"
  "settles c (c'\<lparr>queued_bytes := bs\<rparr>) = settles c c'"
  "settles c (c'\<lparr>sent_bytes := bs\<rparr>) = settles c c'"
  "settles c (c'\<lparr>submitted := rs\<rparr>) = settles c c'"
  "settles c (c'\<lparr>write_queue_waiter := b\<rparr>) = settles c c'"
  by (simp_all add: settles_def)

lemma settles_from [simp]:
  "settles (c\<lparr>write_queue_waiter := b\<rparr>) c' = settles c c'"
  "settles (c\<lparr>write_queue := ws\<rparr>) c' = settles c c'"
  "settles (c\<lparr>queued_bytes := bs\<rparr>) c' = settles c c'"
  "settles (c\<lparr>sent_bytes := bs\<rparr>) c' = settles c c'"
  "settles (c\<lparr>inflight_requests := n\<rparr>) c' = settles c c'"
  "settles (c\<lparr>write_loop := w\<rparr>) c' = settles c c'"
  by (simp_all add: settles_def)

lemma Close_settles: "Close c = Some c' \<Longrightarrow> settles c c'"
  by (auto simp: Close_def settles_def RecordWriteBytesChange_def OnConnectionClosed_def wake_closed_def
      Let_def bind_eq_Some_conv split: if_splits)

lemma settles_drain: "settles (c\<lparr>state := Draining\<rparr>) c' \<Longrightarrow> settles c c'"
  by (auto simp: settles_def)

lemma TryFinishDrain_settles: "TryFinishDrain c = Some c' \<Longrightarrow> settles c c'"
  by (auto simp: TryFinishDrain_def Close_settles split: if_splits)

lemma Conn_BeginDrain_settles: "Conn_BeginDrain c = Some c' \<Longrightarrow> settles c c'"
  by (auto simp: Conn_BeginDrain_def split: if_splits dest!: TryFinishDrain_settles intro: settles_drain)

lemma TryReserveWriteBytes_settles: "TryReserveWriteBytes n c = Some (ok, c') \<Longrightarrow> settles c c'"
  by (auto simp: TryReserveWriteBytes_def RecordWriteBytesChange_def Let_def bind_eq_Some_conv
      Close_settles split: if_splits) (auto simp: settles_def)

lemma ReleaseWriteBytes_settles: "ReleaseWriteBytes n c = Some c' \<Longrightarrow> settles c c'"
  by (auto simp: ReleaseWriteBytes_def RecordWriteBytesChange_def Let_def bind_eq_Some_conv settles_def
      split: if_splits)

lemma TakeWriteBatch_settles: "TakeWriteBatch c = Some (batch, c') \<Longrightarrow> settles c c'"
  by (auto simp: TakeWriteBatch_def split: list.splits prod.splits)

lemma abandon_settles:
  "(do { c1 \<leftarrow> ReleaseWriteBytes n c; c2 \<leftarrow> Close c1; Some (c2\<lparr>write_loop := WriteDone\<rparr>) }) = Some c' \<Longrightarrow>
     settles c c'"
  by (auto simp: bind_eq_Some_conv dest!: ReleaseWriteBytes_settles Close_settles intro: settles_trans)

lemma WriteLoop_settles: "WriteLoop stopping c = Some c' \<Longrightarrow> settles c c'"
proof (induction stopping c rule: WriteLoop.induct)
  case (1 stopping c)
  show ?case
  proof (cases "state c = Closed \<or> write_queue c = []")
    case True
    then show ?thesis
      using "1.prems" by (subst (asm) WriteLoop.simps)
        (auto simp: bind_eq_Some_conv TryFinishDrain_settles split: if_splits)
  next
    case False
    then obtain batch c1 where b: "TakeWriteBatch c = Some (batch, c1)"
      using "1.prems" by (subst (asm) WriteLoop.simps) (auto split: option.splits)
    note s1 = TakeWriteBatch_settles[OF b]
    show ?thesis
    proof (cases "batch = []")
      case True
      then obtain c2 where c2: "ReleaseWriteBytes 0 c1 = Some c2" "WriteLoop stopping c2 = Some c'"
        using "1.prems" False b by (subst (asm) WriteLoop.simps) (auto split: option.splits)
      have "settles c2 c'" using "1.IH"[OF False b refl True c2(1)] c2(2) .
      then show ?thesis using s1 ReleaseWriteBytes_settles[OF c2(1)] by (blast intro: settles_trans)
    next
      case ne: False
      then show ?thesis
        using "1.prems" False b s1 abandon_settles[of "length batch" c1 c']
        by (subst (asm) WriteLoop.simps) (auto split: if_splits intro: settles_trans)
    qed
  qed
qed

lemma EnqueueWrite_settles: "EnqueueWrite stopping bs c = Some (ok, c') \<Longrightarrow> settles c c'"
  by (auto simp: EnqueueWrite_def WakeWriteLoop_def bind_eq_Some_conv split: if_splits prod.splits
      dest!: TryReserveWriteBytes_settles WriteLoop_settles intro: settles_trans)

lemma on_send_settles: "on_send stopping n c = Some c' \<Longrightarrow> settles c c'"
  by (auto simp: on_send_def Let_def bind_eq_Some_conv split: write_pc.splits if_splits
      dest!: ReleaseWriteBytes_settles Close_settles WriteLoop_settles intro: settles_trans)

lemma RejectForBackpressure_settles:
  "RejectForBackpressure env stopping msg r c = Some (ok, c') \<Longrightarrow> settles c c'"
  by (auto simp: RejectForBackpressure_def bind_eq_Some_conv split: status_or.splits
      dest!: Close_settles EnqueueWrite_settles)

lemma reject_all_settles:
  "all_of (reject_next env stopping msg) rs (Some c) = (ok, Some c') \<Longrightarrow> settles c c'"
proof (induction rs arbitrary: c)
  case (Cons r rs)
  then show ?case
    by (auto simp: reject_next_def split: option.splits prod.splits if_splits
        dest!: RejectForBackpressure_settles intro: settles_trans)
qed simp

lemma SubmitRequestBatch_settles:
  "SubmitRequestBatch env stopping outcome rs c = Some (ok, c') \<Longrightarrow> settles c c'"
  by (auto simp: SubmitRequestBatch_def bind_eq_Some_conv split: submit_outcome.splits if_splits bool.splits
      option.splits prod.splits dest!: Conn_BeginDrain_settles reject_all_settles)

lemma HandleFeedResult_settles:
  "HandleFeedResult env stopping outcome feed c = Some (ok, c') \<Longrightarrow> settles c c'"
  by (auto simp: HandleFeedResult_def ConsumeEach_all_of Let_def bind_eq_Some_conv
      split: if_splits option.splits prod.splits
      dest!: Close_settles reject_all_settles SubmitRequestBatch_settles)

lemma ReadLoop_next_settles: "ReadLoop_next stopping c = Some c' \<Longrightarrow> settles c c'"
  by (auto simp: ReadLoop_next_def bind_eq_Some_conv split: if_splits
      dest!: Close_settles TryFinishDrain_settles intro: settles_trans)

lemma FeedBytes_limits: "FeedBytes env cap bs fs = Some (fs', feed) \<Longrightarrow> fs_limits fs' = fs_limits fs"
  by (auto simp: FeedBytes_def DecodeAvailableRequests_def Let_def bind_eq_Some_conv
      split: option.splits prod.splits if_splits)

lemma settles_stream: "fs_limits fs = conn_protocol c \<Longrightarrow> settles (c\<lparr>conn_stream := fs\<rparr>) c' = settles c c'"
  by (simp add: settles_def)

lemma on_recv_settles: "on_recv env stopping outcome cap r c = Some c' \<Longrightarrow> settles c c'"
  by (auto simp: on_recv_def Let_def bind_eq_Some_conv settles_stream[OF FeedBytes_limits]
      split: if_splits recv_result.splits prod.splits
      dest!: TryFinishDrain_settles Close_settles HandleFeedResult_settles ReadLoop_next_settles
      intro: settles_trans settles_drain)

lemma handle_result_settles: "handle_result stopping oom r c = Some c' \<Longrightarrow> settles c c'"
  by (auto simp: handle_result_def OnResponseEncodeFailure_def OnResponsesEncoded_def
      ReleaseInflightRequests_def bind_eq_Some_conv split: if_splits prod.splits
      dest!: Close_settles TryReserveWriteBytes_settles EnqueueWrite_settles TryFinishDrain_settles
      intro: settles_trans)

lemma Conn_Start_settles: "Conn_Start stopping c = Some c' \<Longrightarrow> settles c c'"
  by (auto simp: Conn_Start_def WriteLoop_start_def bind_eq_Some_conv split: if_splits
      dest!: WriteLoop_settles ReadLoop_next_settles intro: settles_trans)

section \<open>The loop\<close>

datatype loop_state = LoopCreated | LoopRunning | LoopDraining | LoopStopped

text \<open>The callbacks that are posted to the context; \<^verbatim>\<open>StatsTask\<close> is the one of \<^verbatim>\<open>RequestStats\<close>.\<close>

datatype loop_task = StartTask | DrainTask | CloseTask | StatsTask bool

datatype thread_state = NoThread | ThreadRunning | ThreadFinished

text \<open>Where the owner is: between two calls, in \<^verbatim>\<open>FinishDrain\<close> waiting for the live connections or for
  the thread, or in \<^verbatim>\<open>StopImmediately\<close> waiting for the thread.\<close>

datatype owner_pc = OwnerIdle | AwaitingDrain | JoiningDrained | JoiningStopped

record loop_stats =
  stats_live_connections :: nat
  stats_pending_write_bytes :: nat
  stats_pending_write_bytes_peak :: nat

text \<open>\<open>connections\<close> is the table of connections in the order in which an iteration visits them. The
  accounts are stored once, in \<open>loop_accounts_of\<close>; a connection gets them when one of its operations
  runs. \<open>loop_jobs\<close> and \<open>loop_results\<close> are the batches with the workers and the results not handled
  yet, for all connections. \<open>loop_assert\<close> records a failed assertion, \<open>id_space_exhausted\<close> and
  \<open>duplicate_id\<close> the two aborts of the id allocation, \<open>live_destroyed\<close> that a connection was
  destroyed before its coroutines had returned.\<close>

record io_loop =
  loop_state :: loop_state
  loop_thread :: thread_state
  owner :: owner_pc
  accepted :: bool
  stop_requested :: bool
  posted_callbacks :: "loop_task list"
  connections :: "(u64 \<times> connection) list"
  loop_accounts_of :: loop_accounts
  next_connection_id :: u64
  loop_jobs :: "(u64 \<times> request_envelope list) list"
  loop_results :: "worker_result list"
  stats_delivered :: "loop_stats list"
  loop_assert :: bool
  id_space_exhausted :: bool
  duplicate_id :: bool
  live_destroyed :: bool

definition ConnectionIoLoop :: io_loop where
  "ConnectionIoLoop = \<lparr>loop_state = LoopCreated, loop_thread = NoThread, owner = OwnerIdle,
     accepted = False, stop_requested = False, posted_callbacks = [], connections = [],
     loop_accounts_of = \<lparr>loop_pending_write_bytes = 0, loop_pending_write_bytes_peak = 0,
       live_connections = 0\<rparr>,
     next_connection_id = 1, loop_jobs = [], loop_results = [], stats_delivered = [],
     loop_assert = False, id_space_exhausted = False, duplicate_id = False, live_destroyed = False\<rparr>"

text \<open>\<^verbatim>\<open>UringContext::Post\<close> and \<^verbatim>\<open>RequestStop\<close>, as far as the loop relies on them.\<close>

definition Post :: "loop_task \<Rightarrow> io_loop \<Rightarrow> io_loop" where
  "Post t s = (if stop_requested s then s else s\<lparr>posted_callbacks := posted_callbacks s @ [t]\<rparr>)"

definition RequestStop :: "io_loop \<Rightarrow> io_loop" where
  "RequestStop s = s\<lparr>stop_requested := True\<rparr>"

section \<open>Operations of the loop thread\<close>

definition update_connection :: "u64 \<Rightarrow> connection \<Rightarrow> (u64 \<times> connection) list \<Rightarrow> (u64 \<times> connection) list" where
  "update_connection i c cs = map (\<lambda>(j, x). if j = i then (j, c) else (j, x)) cs"

text \<open>One operation of a connection, with the batches it hands to the worker pool.\<close>

definition on_connection :: "u64 \<Rightarrow> (connection \<Rightarrow> connection option) \<Rightarrow> io_loop \<Rightarrow> io_loop" where
  "on_connection i f s =
    (case map_of (connections s) i of
       None \<Rightarrow> s
     | Some c \<Rightarrow>
         (case f (c\<lparr>owner_loop := loop_accounts_of s\<rparr>) of
            None \<Rightarrow> s\<lparr>loop_assert := True\<rparr>
          | Some c' \<Rightarrow> s\<lparr>connections := update_connection i (c'\<lparr>submitted := []\<rparr>) (connections s),
              loop_accounts_of := owner_loop c',
              loop_jobs := loop_jobs s @ map (Pair i) (submitted c')\<rparr>))"

fun each_connection :: "(connection \<Rightarrow> connection option) \<Rightarrow> u64 list \<Rightarrow> io_loop \<Rightarrow> io_loop" where
  "each_connection f [] s = s"
| "each_connection f (i # is) s = each_connection f is (on_connection i f s)"

definition CollectClosedConnections :: "io_loop \<Rightarrow> io_loop" where
  "CollectClosedConnections s = s\<lparr>connections := filter (\<lambda>(i, c). \<not> CanBeCollected c) (connections s)\<rparr>"

definition AllocateConnectionId :: "io_loop \<Rightarrow> (u64 \<times> io_loop) option" where
  "AllocateConnectionId s =
    (if next_connection_id s = 0 then None
     else Some (next_connection_id s, s\<lparr>next_connection_id := next_connection_id s + 1\<rparr>))"

definition StartConnectionOnContext ::
  "backpressure_limits \<Rightarrow> protocol_limits \<Rightarrow> io_loop \<Rightarrow> io_loop" where
  "StartConnectionOnContext lims plimits s =
    (if loop_state s \<noteq> LoopRunning then s
     else case AllocateConnectionId s of
       None \<Rightarrow> s\<lparr>id_space_exhausted := True\<rparr>
     | Some (i, s1) \<Rightarrow>
         if map_of (connections s1) i \<noteq> None then s1\<lparr>duplicate_id := True\<rparr>
         else on_connection i (Conn_Start (stop_requested s1))
           (s1\<lparr>connections :=
                 connections s1 @ [(i, ServerConnection lims plimits (loop_accounts_of s1))],
               loop_accounts_of := (loop_accounts_of s1)\<lparr>
                 live_connections := live_connections (loop_accounts_of s1) + 1\<rparr>\<rparr>))"

definition CloseConnectionsOnContext :: "io_loop \<Rightarrow> io_loop" where
  "CloseConnectionsOnContext s = CollectClosedConnections
    (each_connection (\<lambda>c. if state c \<noteq> Closed then Close c else Some c) (map fst (connections s)) s)"

definition BeginDrainOnContext :: "io_loop \<Rightarrow> io_loop" where
  "BeginDrainOnContext s = each_connection Conn_BeginDrain (map fst (connections s)) s"

definition stats_callback :: "bool \<Rightarrow> io_loop \<Rightarrow> io_loop" where
  "stats_callback start_window s =
    (let acc = loop_accounts_of s;
         acc' = (if start_window
           then acc\<lparr>loop_pending_write_bytes_peak := loop_pending_write_bytes acc\<rparr> else acc)
     in s\<lparr>loop_accounts_of := acc', stats_delivered := stats_delivered s @
          [\<lparr>stats_live_connections = live_connections acc',
            stats_pending_write_bytes = loop_pending_write_bytes acc',
            stats_pending_write_bytes_peak = loop_pending_write_bytes_peak acc'\<rparr>]\<rparr>)"

definition run_task :: "backpressure_limits \<Rightarrow> protocol_limits \<Rightarrow> loop_task \<Rightarrow> io_loop \<Rightarrow> io_loop" where
  "run_task lims plimits t s =
    (case t of
       StartTask \<Rightarrow> StartConnectionOnContext lims plimits (CollectClosedConnections s)
     | DrainTask \<Rightarrow> BeginDrainOnContext s
     | CloseTask \<Rightarrow> CloseConnectionsOnContext s
     | StatsTask start_window \<Rightarrow> stats_callback start_window s)"

definition HandleWorkerResult :: "bool \<Rightarrow> worker_result \<Rightarrow> io_loop \<Rightarrow> io_loop" where
  "HandleWorkerResult oom r s =
    on_connection (wr_connection_id r) (handle_result (stop_requested s) oom r) s"

section \<open>Operations of the owner\<close>

definition Loop_Start :: "io_loop \<Rightarrow> io_loop" where
  "Loop_Start s = (if loop_state s \<noteq> LoopCreated then s
     else s\<lparr>loop_thread := ThreadRunning, loop_state := LoopRunning\<rparr>)"

definition Loop_BeginDrain :: "io_loop \<Rightarrow> io_loop" where
  "Loop_BeginDrain s =
    (if loop_state s = LoopCreated then s\<lparr>loop_state := LoopStopped\<rparr>
     else if loop_state s \<noteq> LoopRunning then s
     else Post DrainTask (s\<lparr>loop_state := LoopDraining\<rparr>))"

text \<open>\<^verbatim>\<open>FinishDrain\<close> in three steps: up to the wait, from the wait to the join, and after the join.\<close>

definition FinishDrain_begin :: "io_loop \<Rightarrow> io_loop" where
  "FinishDrain_begin s =
    (let s1 = Loop_BeginDrain s
     in if loop_state s1 = LoopStopped then s1 else s1\<lparr>owner := AwaitingDrain\<rparr>)"

definition FinishDrain_stop :: "io_loop \<Rightarrow> io_loop" where
  "FinishDrain_stop s = RequestStop s\<lparr>owner := JoiningDrained\<rparr>"

text \<open>Destroying a connection whose coroutines have not returned is recorded.\<close>

definition destroy_connections :: "io_loop \<Rightarrow> io_loop" where
  "destroy_connections s = s\<lparr>connections := [],
     live_destroyed := live_destroyed s \<or> \<not> list_all (\<lambda>(i, c). CanBeCollected c) (connections s)\<rparr>"

definition FinishDrain_join :: "io_loop \<Rightarrow> io_loop" where
  "FinishDrain_join s = (destroy_connections s)\<lparr>loop_thread := NoThread, loop_state := LoopStopped,
     owner := OwnerIdle\<rparr>"

definition StopImmediately_begin :: "io_loop \<Rightarrow> io_loop" where
  "StopImmediately_begin s =
    (if loop_state s = LoopCreated \<or> loop_state s = LoopStopped then s\<lparr>loop_state := LoopStopped\<rparr>
     else if loop_thread s = NoThread then s\<lparr>loop_state := LoopStopped\<rparr>
     else (RequestStop (Post CloseTask s))\<lparr>owner := JoiningStopped\<rparr>)"

text \<open>After the join; the only caller is the destructor, which then destroys the table.\<close>

definition StopImmediately_join :: "io_loop \<Rightarrow> io_loop" where
  "StopImmediately_join s = (destroy_connections s)\<lparr>loop_thread := NoThread, loop_state := LoopStopped,
     owner := OwnerIdle\<rparr>"

text \<open>\<^verbatim>\<open>PostStartConnection\<close> runs on the accepting thread and posts after it has released the lock, so
  the state may change between its two steps; \<open>accepted\<close> is set between them.\<close>

definition PostStartConnection_check :: "io_loop \<Rightarrow> io_loop" where
  "PostStartConnection_check s = (if loop_state s \<noteq> LoopRunning then s else s\<lparr>accepted := True\<rparr>)"

definition PostStartConnection_post :: "io_loop \<Rightarrow> io_loop" where
  "PostStartConnection_post s = Post StartTask (s\<lparr>accepted := False\<rparr>)"

text \<open>\<open>None\<close> is the \<^verbatim>\<open>LifecycleException\<close>; the caller is not the loop thread.\<close>

definition RequestStats :: "bool \<Rightarrow> io_loop \<Rightarrow> io_loop option" where
  "RequestStats start_window s =
    (if loop_state s \<noteq> LoopRunning then None else Some (Post (StatsTask start_window) s))"

section \<open>Steps of the threads\<close>

text \<open>A connection with a receive or a send that the kernel has not completed.\<close>

definition pending_io :: "connection \<Rightarrow> bool" where
  "pending_io c \<longleftrightarrow> read_loop c = ReadReceiving \<or>
    (case write_loop c of WriteSending batch off \<Rightarrow> True | _ \<Rightarrow> False)"

text \<open>The loop thread returns from \<^verbatim>\<open>UringContext::Run\<close> when a stop is requested, the posted callbacks
  have run and no operation is outstanding. The owner makes one call at a time; the context accepts
  no callback between the \<^verbatim>\<open>Post\<close> and the \<^verbatim>\<open>RequestStop\<close> of \<^verbatim>\<open>StopImmediately\<close>, because the
  accepting thread has ended when a loop is destroyed.\<close>

inductive loop_step ::
  "codec_env \<Rightarrow> service_registry \<Rightarrow> backpressure_limits \<Rightarrow> protocol_limits \<Rightarrow> io_loop \<Rightarrow> io_loop \<Rightarrow> bool"
  for env registry lims plimits where
  callback_run: "loop_thread s = ThreadRunning \<Longrightarrow> posted_callbacks s = t # ts \<Longrightarrow>
    loop_step env registry lims plimits s (run_task lims plimits t (s\<lparr>posted_callbacks := ts\<rparr>))"
| recv_completed: "loop_thread s = ThreadRunning \<Longrightarrow> map_of (connections s) i = Some c \<Longrightarrow>
    read_loop c = ReadReceiving \<Longrightarrow>
    loop_step env registry lims plimits s
      (on_connection i (on_recv env (stop_requested s) outcome cap r) s)"
| send_completed: "loop_thread s = ThreadRunning \<Longrightarrow> map_of (connections s) i = Some c \<Longrightarrow>
    write_loop c = WriteSending batch off \<Longrightarrow> n \<le> int (length batch - off) \<Longrightarrow>
    loop_step env registry lims plimits s (on_connection i (on_send (stop_requested s) n) s)"
| result_taken: "loop_thread s = ThreadRunning \<Longrightarrow> k < length (loop_results s) \<Longrightarrow>
    loop_step env registry lims plimits s (HandleWorkerResult oom (loop_results s ! k)
      (s\<lparr>loop_results := take k (loop_results s) @ drop (Suc k) (loop_results s)\<rparr>))"
| collected: "loop_thread s = ThreadRunning \<Longrightarrow>
    loop_step env registry lims plimits s (CollectClosedConnections s)"
| thread_returned: "loop_thread s = ThreadRunning \<Longrightarrow> stop_requested s \<Longrightarrow> posted_callbacks s = [] \<Longrightarrow>
    list_all (\<lambda>(i, c). \<not> pending_io c) (connections s) \<Longrightarrow>
    loop_step env registry lims plimits s (s\<lparr>loop_thread := ThreadFinished\<rparr>)"
| worker_done: "k < length (loop_jobs s) \<Longrightarrow> loop_jobs s ! k = (i, requests) \<Longrightarrow>
    loop_step env registry lims plimits s
      (s\<lparr>loop_jobs := take k (loop_jobs s) @ drop (Suc k) (loop_jobs s),
         loop_results := loop_results s @ ExecuteRequestBatchOnWorker env registry plimits i requests\<rparr>)"
| accept_checks: "\<not> accepted s \<Longrightarrow> loop_step env registry lims plimits s (PostStartConnection_check s)"
| accept_posts: "accepted s \<Longrightarrow> loop_step env registry lims plimits s (PostStartConnection_post s)"
| owner_starts: "owner s = OwnerIdle \<Longrightarrow> loop_step env registry lims plimits s (Loop_Start s)"
| owner_drains: "owner s = OwnerIdle \<Longrightarrow> loop_step env registry lims plimits s (Loop_BeginDrain s)"
| owner_stats: "owner s = OwnerIdle \<Longrightarrow> RequestStats start_window s = Some s' \<Longrightarrow>
    loop_step env registry lims plimits s s'"
| drain_waits: "owner s = OwnerIdle \<Longrightarrow> loop_step env registry lims plimits s (FinishDrain_begin s)"
| drain_stops: "owner s = AwaitingDrain \<Longrightarrow> live_connections (loop_accounts_of s) = 0 \<Longrightarrow>
    loop_step env registry lims plimits s (FinishDrain_stop s)"
| drain_joins: "owner s = JoiningDrained \<Longrightarrow> loop_thread s = ThreadFinished \<Longrightarrow>
    loop_step env registry lims plimits s (FinishDrain_join s)"
| stop_begins: "owner s = OwnerIdle \<Longrightarrow> loop_step env registry lims plimits s (StopImmediately_begin s)"
| stop_joins: "owner s = JoiningStopped \<Longrightarrow> loop_thread s = ThreadFinished \<Longrightarrow>
    loop_step env registry lims plimits s (StopImmediately_join s)"

inductive loop_reach ::
  "codec_env \<Rightarrow> service_registry \<Rightarrow> backpressure_limits \<Rightarrow> protocol_limits \<Rightarrow> io_loop \<Rightarrow> bool"
  for env registry lims plimits where
  loop_created: "loop_reach env registry lims plimits ConnectionIoLoop"
| loop_next: "loop_reach env registry lims plimits s \<Longrightarrow> loop_step env registry lims plimits s s' \<Longrightarrow>
    loop_reach env registry lims plimits s'"

section \<open>The accounts and the connections of the loop\<close>

abbreviation conn_open :: "u64 \<times> connection \<Rightarrow> nat" where
  "conn_open x \<equiv> (if state (snd x) = Closed then 0 else 1)"

definition books :: "protocol_limits \<Rightarrow> io_loop \<Rightarrow> bool" where
  "books plimits s \<longleftrightarrow> \<not> loop_assert s \<and> distinct (map fst (connections s)) \<and>
    loop_pending_write_bytes (loop_accounts_of s) =
      list_total (\<lambda>x. pending_write_bytes (snd x)) (connections s) \<and>
    live_connections (loop_accounts_of s) = list_total conn_open (connections s) \<and>
    loop_pending_write_bytes (loop_accounts_of s) \<le> loop_pending_write_bytes_peak (loop_accounts_of s) \<and>
    (\<forall>(i, c)\<in>set (connections s). closed_calls c = (if state c = Closed then 1 else 0) \<and>
       conn_protocol c = plimits)"

text \<open>What a single connection sees of the loop.\<close>

definition view :: "io_loop \<Rightarrow> u64 \<Rightarrow> connection \<Rightarrow> conn_system" where
  "view s i c = \<lparr>conn = c\<lparr>owner_loop := loop_accounts_of s\<rparr>,
     conn_jobs = map snd (filter (\<lambda>x. fst x = i) (loop_jobs s)),
     conn_results = filter (\<lambda>r. wr_connection_id r = i) (loop_results s), assertion_failed = False\<rparr>"

definition simulates ::
  "codec_env \<Rightarrow> service_registry \<Rightarrow> backpressure_limits \<Rightarrow> protocol_limits \<Rightarrow> u64 set \<Rightarrow> io_loop \<Rightarrow> bool" where
  "simulates env registry lims plimits X s \<longleftrightarrow>
    (\<forall>(i, c)\<in>set (connections s). i \<notin> X \<longrightarrow> conn_reach env registry i lims plimits (view s i c))"

lemma update_connection_fst [simp]: "map fst (update_connection i c cs) = map fst cs"
  by (induction cs) (auto simp: update_connection_def)

lemma set_update_connection:
  assumes "map_of cs i = Some c0"
  shows "set (update_connection i c cs) = insert (i, c) {x \<in> set cs. fst x \<noteq> i}"
proof -
  have "(i, c) \<in> set (update_connection i c cs)"
    using map_of_SomeD[OF assms] by (force simp: update_connection_def image_iff)
  moreover have "x \<in> set (update_connection i c cs)" if "x \<in> set cs" "fst x \<noteq> i" for x
    using that by (auto simp: update_connection_def image_iff split: prod.splits intro!: bexI[of _ x])
  moreover have "x = (i, c) \<or> x \<in> set cs \<and> fst x \<noteq> i" if "x \<in> set (update_connection i c cs)" for x
    using that by (auto simp: update_connection_def split: if_splits)
  ultimately show ?thesis by blast
qed

lemma update_connection_absent: "i \<notin> fst ` set cs \<Longrightarrow> update_connection i c cs = cs"
  by (induction cs) (auto simp: update_connection_def)

lemma total_update_connection:
  assumes "distinct (map fst cs)" "map_of cs i = Some c"
  shows "list_total (\<lambda>x. g (snd x)) (update_connection i c' cs) + g c =
    list_total (\<lambda>x. g (snd x)) cs + (g c' :: nat)"
  using assms
proof (induction cs)
  case (Cons x cs)
  show ?case
  proof (cases "fst x = i")
    case True
    then have "update_connection i c' (x # cs) = (i, c') # cs"
      using Cons.prems update_connection_absent[of i cs c'] by (auto simp: update_connection_def split: prod.splits)
    then show ?thesis using Cons.prems True by (cases x) simp
  next
    case False
    then have "update_connection i c' (x # cs) = x # update_connection i c' cs"
      by (auto simp: update_connection_def split: prod.splits)
    then show ?thesis using Cons False by (cases x) simp
  qed
qed simp

lemma total_connection_member: "(i, c) \<in> set cs \<Longrightarrow> g c \<le> list_total (\<lambda>x. g (snd x) :: nat) cs"
  by (force intro: member_le_sum_list)

lemma conn_reach_fields:
  assumes "conn_reach env registry i lims plimits v"
  shows "closed_calls (conn v) = (if state (conn v) = Closed then 1 else 0)" "\<not> assertion_failed v"
    "conn_ok (conn v)"
  using conn_reach_ok[OF assms]
  by (auto simp: conn_sys_ok_def conn_ok_def writer_ok_def core_def split: write_pc.splits)

lemma view_other:
  assumes "simulates env registry lims plimits X s" "(j, x) \<in> set (connections s)" "j \<notin> X"
    "loop_jobs s' = loop_jobs s @ map (Pair i) rs" "loop_results s' = loop_results s" "j \<noteq> i"
    "pending_write_bytes x \<le> loop_pending_write_bytes (loop_accounts_of s')"
  shows "conn_reach env registry j lims plimits (view s' j x)"
proof -
  have "conn_reach env registry j lims plimits (view s j x)"
    using assms(1-3) by (auto simp: simulates_def)
  from conn_next[OF this others_write, of "loop_accounts_of s'"] show ?thesis
    using assms(4-) by (simp add: view_def filter_map comp_def)
qed

lemma on_connection_ok:
  assumes b: "books plimits s" and sim: "simulates env registry lims plimits {i} s"
    and c: "map_of (connections s) i = Some c"
    and f: "\<And>x c'. f x = Some c' \<Longrightarrow> settles x c'"
    and r: "conn_reach env registry i lims plimits (apply_op f (view s i c))"
  shows "books plimits (on_connection i f s) \<and> simulates env registry lims plimits {} (on_connection i f s)"
proof -
  let ?c = "c\<lparr>owner_loop := loop_accounts_of s\<rparr>"
  obtain c' where c': "f ?c = Some c'"
    using conn_reach_fields(2)[OF r] by (cases "f ?c") (auto simp: apply_op_def view_def)
  let ?s = "on_connection i f s" and ?c' = "c'\<lparr>submitted := []\<rparr>"
  have s: "?s = s\<lparr>connections := update_connection i ?c' (connections s), loop_accounts_of := owner_loop c',
      loop_jobs := loop_jobs s @ map (Pair i) (submitted c')\<rparr>"
    using c c' by (simp add: on_connection_def)
  have me: "apply_op f (view s i c) = view ?s i ?c'"
    using c' by (simp add: s apply_op_def view_def filter_map comp_def)
  have cs: "set (connections ?s) = insert (i, ?c') {x \<in> set (connections s). fst x \<noteq> i}"
    using set_update_connection[OF c] by (simp add: s)
  have dist: "distinct (map fst (connections s))" using b by (simp add: books_def)
  note total = total_update_connection[OF dist c, of _ ?c']
  have mem: "(i, c) \<in> set (connections s)" using c by (rule map_of_SomeD)
  have cl: "closed_calls c = (if state c = Closed then 1 else 0)" using b mem by (auto simp: books_def)
  have cl': "closed_calls c' = (if state c' = Closed then 1 else 0)"
    using conn_reach_fields(1)[OF r] unfolding me by (simp add: view_def)
  have set': "settles ?c c'" using f[OF c'] .
  have "loop_pending_write_bytes (owner_loop c') =
      list_total (\<lambda>x. pending_write_bytes (snd x)) (update_connection i ?c' (connections s))"
    using total[of pending_write_bytes] set' b by (simp add: settles_def books_def)
  moreover have "live_connections (owner_loop c') = list_total conn_open (update_connection i ?c' (connections s))"
    using total[of "\<lambda>c. if state c = Closed then 0 else 1"] set' b cl cl'
    by (auto simp: settles_def books_def split: if_splits)
  moreover have "conn_protocol c' = plimits" using set' b mem by (auto simp: settles_def books_def)
  ultimately have books': "books plimits ?s"
    using b set' cl' cs unfolding books_def by (auto simp: s settles_def)
  have "conn_reach env registry j lims plimits (view ?s j x)" if jx: "(j, x) \<in> set (connections ?s)" for j x
  proof (cases "j = i")
    case True
    then show ?thesis using jx r me cs by auto
  next
    case False
    then have "pending_write_bytes x \<le> loop_pending_write_bytes (loop_accounts_of ?s)"
      using total_connection_member[OF jx, of pending_write_bytes] books' by (simp add: books_def)
    then show ?thesis
      using view_other[OF sim, of j x ?s i "submitted c'"] jx False cs by (auto simp: s)
  qed
  then show ?thesis using books' by (auto simp: simulates_def)
qed

lemma on_connection_step:
  assumes "books plimits s" "simulates env registry lims plimits {} s"
    and f: "\<And>x c'. f x = Some c' \<Longrightarrow> settles x c'"
    and step: "\<And>c. map_of (connections s) i = Some c \<Longrightarrow>
      conn_step env registry i (view s i c) (apply_op f (view s i c))"
  shows "books plimits (on_connection i f s) \<and> simulates env registry lims plimits {} (on_connection i f s)"
proof (cases "map_of (connections s) i")
  case None
  then show ?thesis using assms by (simp add: on_connection_def)
next
  case (Some c)
  then have "conn_reach env registry i lims plimits (view s i c)"
    using assms(2) map_of_SomeD[OF Some] by (auto simp: simulates_def)
  from conn_next[OF this step[OF Some]]
  have r: "conn_reach env registry i lims plimits (apply_op f (view s i c))" .
  have "simulates env registry lims plimits {i} s" using assms(2) by (auto simp: simulates_def)
  then show ?thesis by (rule on_connection_ok[OF assms(1) _ Some f r])
qed

lemma on_connection_frame [simp]:
  "loop_state (on_connection i f s) = loop_state s" "loop_thread (on_connection i f s) = loop_thread s"
  "owner (on_connection i f s) = owner s" "stop_requested (on_connection i f s) = stop_requested s"
  "posted_callbacks (on_connection i f s) = posted_callbacks s"
  "next_connection_id (on_connection i f s) = next_connection_id s"
  "loop_results (on_connection i f s) = loop_results s" "duplicate_id (on_connection i f s) = duplicate_id s"
  "live_destroyed (on_connection i f s) = live_destroyed s" "accepted (on_connection i f s) = accepted s"
  "stats_delivered (on_connection i f s) = stats_delivered s"
  "id_space_exhausted (on_connection i f s) = id_space_exhausted s"
  "map fst (connections (on_connection i f s)) = map fst (connections s)"
  by (auto simp: on_connection_def split: option.splits)

lemma each_connection_frame [simp]:
  "loop_state (each_connection f is s) = loop_state s" "loop_thread (each_connection f is s) = loop_thread s"
  "owner (each_connection f is s) = owner s" "stop_requested (each_connection f is s) = stop_requested s"
  "posted_callbacks (each_connection f is s) = posted_callbacks s"
  "next_connection_id (each_connection f is s) = next_connection_id s"
  "loop_results (each_connection f is s) = loop_results s"
  "duplicate_id (each_connection f is s) = duplicate_id s"
  "live_destroyed (each_connection f is s) = live_destroyed s"
  "accepted (each_connection f is s) = accepted s" "stats_delivered (each_connection f is s) = stats_delivered s"
  "id_space_exhausted (each_connection f is s) = id_space_exhausted s"
  "map fst (connections (each_connection f is s)) = map fst (connections s)"
  by (induction "is" arbitrary: s) simp_all

text \<open>Connections only move from active over draining to closed, and no operation adds one.\<close>

definition ages :: "io_loop \<Rightarrow> io_loop \<Rightarrow> bool" where
  "ages s s' \<longleftrightarrow> (\<forall>(i, c')\<in>set (connections s'). \<exists>c. (i, c) \<in> set (connections s) \<and>
    (state c \<noteq> Active \<longrightarrow> state c' \<noteq> Active) \<and> (state c = Closed \<longrightarrow> state c' = Closed))"

lemma ages_refl: "set (connections s') \<subseteq> set (connections s) \<Longrightarrow> ages s s'"
  by (auto simp: ages_def)

lemma ages_trans: "ages a b \<Longrightarrow> ages b c \<Longrightarrow> ages a c"
  by (fastforce simp: ages_def)

lemma on_connection_ages:
  assumes f: "\<And>x c'. f x = Some c' \<Longrightarrow> settles x c'"
    and b: "books plimits s" "books plimits (on_connection i f s)"
  shows "ages s (on_connection i f s)"
proof (cases "map_of (connections s) i")
  case None
  then show ?thesis by (simp add: on_connection_def ages_refl)
next
  case (Some c)
  let ?c = "c\<lparr>owner_loop := loop_accounts_of s\<rparr>"
  show ?thesis
  proof (cases "f ?c")
    case None
    then show ?thesis using Some by (simp add: on_connection_def ages_refl)
  next
    case (Some c')
    note m = \<open>map_of (connections s) i = Some c\<close>
    have cs: "set (connections (on_connection i f s)) =
        insert (i, c'\<lparr>submitted := []\<rparr>) {x \<in> set (connections s). fst x \<noteq> i}"
      using m Some set_update_connection[OF m] by (simp add: on_connection_def)
    have "settles ?c c'" using f[OF Some] .
    moreover have "closed_calls c = (if state c = Closed then 1 else 0)"
      using b(1) map_of_SomeD[OF m] by (auto simp: books_def)
    moreover have "closed_calls c' = (if state c' = Closed then 1 else 0)"
      using b(2) cs by (auto simp: books_def)
    ultimately have "state c \<noteq> Active \<longrightarrow> state c' \<noteq> Active" "state c = Closed \<longrightarrow> state c' = Closed"
      by (auto simp: settles_def split: if_splits)
    then show ?thesis using map_of_SomeD[OF m] by (auto simp: ages_def cs)
  qed
qed

lemma each_connection_ok:
  assumes f: "\<And>x c'. f x = Some c' \<Longrightarrow> settles x c'" "\<And>i v. conn_step env registry i v (apply_op f v)"
  shows "books plimits s \<Longrightarrow> simulates env registry lims plimits {} s \<Longrightarrow>
    books plimits (each_connection f is s) \<and> simulates env registry lims plimits {} (each_connection f is s) \<and>
    ages s (each_connection f is s)"
proof (induction "is" arbitrary: s)
  case Nil
  then show ?case by (simp add: ages_refl)
next
  case (Cons i "is")
  have "books plimits (on_connection i f s) \<and> simulates env registry lims plimits {} (on_connection i f s)"
    by (rule on_connection_step[OF Cons.prems f])
  then have ok: "books plimits (on_connection i f s)" "simulates env registry lims plimits {} (on_connection i f s)"
    by auto
  from on_connection_ages[OF f(1) Cons.prems(1) ok(1)] Cons.IH[OF ok] show ?case
    by (auto intro: ages_trans)
qed

lemma on_connection_other:
  "(j, x) \<in> set (connections (on_connection i f s)) \<Longrightarrow> j \<noteq> i \<Longrightarrow> (j, x) \<in> set (connections s)"
  by (auto simp: on_connection_def update_connection_def split: option.splits if_splits)

lemma each_connection_all:
  assumes f: "\<And>x c'. f x = Some c' \<Longrightarrow> Q c'" and Q: "\<And>c. Q (c\<lparr>submitted := []\<rparr>) = Q c"
  shows "\<not> loop_assert (each_connection f is s) \<Longrightarrow> distinct is \<Longrightarrow>
    (i, c) \<in> set (connections (each_connection f is s)) \<Longrightarrow> i \<in> set is \<Longrightarrow> Q c"
proof (induction "is" arbitrary: s)
  case (Cons j "is")
  show ?case
  proof (cases "i \<in> set is")
    case True
    then show ?thesis using Cons by simp
  next
    case False
    have keep: "(i, c) \<in> set (connections s')" if "(i, c) \<in> set (connections (each_connection f is s'))" for s'
      using that False by (induction "is" arbitrary: s') (auto dest: on_connection_other)
    have na: "\<not> loop_assert (on_connection j f s)"
    proof
      assume "loop_assert (on_connection j f s)"
      moreover have "loop_assert s' \<Longrightarrow> loop_assert (each_connection f is s')" for s'
        by (induction "is" arbitrary: s') (auto simp: on_connection_def split: option.splits)
      ultimately show False using Cons.prems(1) by simp
    qed
    from keep[of "on_connection j f s"] False Cons.prems na show ?thesis
      by (force simp: on_connection_def update_connection_def map_of_eq_None_iff Q f
          split: option.splits if_splits)
  qed
qed simp

section \<open>Removing an element from a list that several connections share\<close>

lemma filter_remove_other:
  assumes "k < length xs" "\<not> P (xs ! k)"
  shows "filter P (take k xs @ drop (Suc k) xs) = filter P xs"
proof -
  have "filter P xs = filter P (take k xs @ xs ! k # drop (Suc k) xs)"
    using id_take_nth_drop[OF assms(1)] by simp
  then show ?thesis using assms(2) by simp
qed

lemma filter_remove_own:
  assumes "k < length xs" "P (xs ! k)"
  defines "k' \<equiv> length (filter P (take k xs))"
  shows "k' < length (filter P xs)" "filter P xs ! k' = xs ! k"
    "filter P (take k xs @ drop (Suc k) xs) = take k' (filter P xs) @ drop (Suc k') (filter P xs)"
proof -
  have "filter P xs = filter P (take k xs @ xs ! k # drop (Suc k) xs)"
    using id_take_nth_drop[OF assms(1)] by simp
  then have e: "filter P xs = filter P (take k xs) @ xs ! k # filter P (drop (Suc k) xs)"
    using assms(2) by simp
  show "k' < length (filter P xs)" "filter P xs ! k' = xs ! k"
    unfolding k'_def by (simp_all add: e nth_append)
  show "filter P (take k xs @ drop (Suc k) xs) = take k' (filter P xs) @ drop (Suc k') (filter P xs)"
    unfolding k'_def by (simp add: e)
qed

lemma set_remove: "set (take k xs @ drop (Suc k) xs) \<subseteq> set xs"
  using set_take_subset[of k xs] set_drop_subset[of "Suc k" xs] by auto

section \<open>Connection ids\<close>

definition used_ids :: "io_loop \<Rightarrow> u64 set" where
  "used_ids s = fst ` set (connections s) \<union> fst ` set (loop_jobs s) \<union> wr_connection_id ` set (loop_results s)"

definition ids_ok :: "io_loop \<Rightarrow> bool" where
  "ids_ok s \<longleftrightarrow> \<not> duplicate_id s \<and>
    (\<forall>i\<in>used_ids s. i \<noteq> 0 \<and> (next_connection_id s = 0 \<or> i < next_connection_id s))"

lemma ids_ok_subset:
  "ids_ok s \<Longrightarrow> used_ids s' \<subseteq> used_ids s \<Longrightarrow> next_connection_id s' = next_connection_id s \<Longrightarrow>
     duplicate_id s' = duplicate_id s \<Longrightarrow> ids_ok s'"
  by (auto simp: ids_ok_def)

lemma fst_update_connection [simp]: "fst ` set (update_connection i c cs) = fst ` set cs"
  using update_connection_fst[of i c cs] by (metis list.set_map)

lemma on_connection_used: "used_ids (on_connection i f s) \<subseteq> used_ids s"
  by (force simp: on_connection_def used_ids_def split: option.splits dest: map_of_SomeD)

lemma each_connection_used: "used_ids (each_connection f is s) \<subseteq> used_ids s"
  using on_connection_used by (induction "is" arbitrary: s) (simp, fastforce)

lemma ids_ok_allocate:
  assumes "ids_ok s" "next_connection_id s \<noteq> 0" "used_ids s' \<subseteq> insert (next_connection_id s) (used_ids s)"
    "next_connection_id s' = next_connection_id s + 1" "duplicate_id s' = duplicate_id s"
  shows "ids_ok s'"
  unfolding ids_ok_def
proof (intro conjI ballI)
  show "\<not> duplicate_id s'" using assms by (simp add: ids_ok_def)
  fix i assume "i \<in> used_ids s'"
  then have "i = next_connection_id s \<or> i \<in> used_ids s" using assms(3) by auto
  then have i: "i \<noteq> 0" "i \<le> next_connection_id s" using assms(1,2) by (auto simp: ids_ok_def)
  then show "i \<noteq> 0" by simp
  have "next_connection_id s + 1 \<noteq> 0 \<Longrightarrow> next_connection_id s < next_connection_id s + 1"
    by unat_arith
  then show "next_connection_id s' = 0 \<or> i < next_connection_id s'" using i assms(4) le_less_trans[OF i(2)] by metis
qed

definition conns_ok :: "codec_env \<Rightarrow> service_registry \<Rightarrow> backpressure_limits \<Rightarrow> protocol_limits \<Rightarrow> io_loop \<Rightarrow> bool"
  where "conns_ok env registry lims plimits s \<longleftrightarrow>
    books plimits s \<and> simulates env registry lims plimits {} s \<and> ids_ok s"

lemma conns_ok_frame:
  assumes "conns_ok env registry lims plimits s" "connections s' = connections s"
    "loop_accounts_of s' = loop_accounts_of s" "loop_jobs s' = loop_jobs s" "loop_results s' = loop_results s"
    "next_connection_id s' = next_connection_id s" "duplicate_id s' = duplicate_id s" "loop_assert s' = loop_assert s"
  shows "conns_ok env registry lims plimits s'"
  using assms by (auto simp: conns_ok_def books_def simulates_def view_def ids_ok_def used_ids_def)

lemma each_connection_conns_ok:
  assumes "conns_ok env registry lims plimits s"
    and f: "\<And>x c'. f x = Some c' \<Longrightarrow> settles x c'" "\<And>i v. conn_step env registry i v (apply_op f v)"
  shows "conns_ok env registry lims plimits (each_connection f is s) \<and> ages s (each_connection f is s)"
  using each_connection_ok[OF f, of plimits s lims "is"] assms(1)
    ids_ok_subset[OF _ each_connection_used[of f "is" s]]
  by (auto simp: conns_ok_def)

lemma on_connection_conns_ok:
  assumes "conns_ok env registry lims plimits s"
    and f: "\<And>x c'. f x = Some c' \<Longrightarrow> settles x c'"
    and step: "\<And>c. map_of (connections s) i = Some c \<Longrightarrow>
      conn_step env registry i (view s i c) (apply_op f (view s i c))"
  shows "conns_ok env registry lims plimits (on_connection i f s) \<and> ages s (on_connection i f s)"
proof -
  have b: "books plimits s" "simulates env registry lims plimits {} s" "ids_ok s"
    using assms(1) by (auto simp: conns_ok_def)
  have ok: "books plimits (on_connection i f s) \<and> simulates env registry lims plimits {} (on_connection i f s)"
    by (rule on_connection_step[OF b(1,2) f step])
  then have "ages s (on_connection i f s)" by (intro on_connection_ages[OF f b(1)]) auto
  then show ?thesis
    using ok ids_ok_subset[OF b(3) on_connection_used[of i f s]] by (auto simp: conns_ok_def)
qed

lemma simulates_conn_ok:
  assumes "simulates env registry lims plimits {} s" "(i, c) \<in> set (connections s)"
  shows "conn_ok (c\<lparr>owner_loop := loop_accounts_of s\<rparr>)" "state c = Closed \<Longrightarrow> pending_write_bytes c = 0"
proof -
  have "conn_reach env registry i lims plimits (view s i c)" using assms by (auto simp: simulates_def)
  from conn_reach_fields(3)[OF this] show ok: "conn_ok (c\<lparr>owner_loop := loop_accounts_of s\<rparr>)"
    by (simp add: view_def)
  show "state c = Closed \<Longrightarrow> pending_write_bytes c = 0"
    using ok by (auto simp: conn_ok_def writer_ok_def core_def split: write_pc.splits)
qed

lemma total_filter_zero:
  assumes "\<And>x. x \<in> set xs \<Longrightarrow> \<not> P x \<Longrightarrow> g x = (0 :: nat)"
  shows "list_total g (filter P xs) = list_total g xs"
  using assms by (induction xs) auto

lemma CollectClosedConnections_ok:
  assumes "conns_ok env registry lims plimits s"
  shows "conns_ok env registry lims plimits (CollectClosedConnections s) \<and> ages s (CollectClosedConnections s)"
proof -
  let ?P = "\<lambda>(i, c). \<not> CanBeCollected c"
  have sim: "simulates env registry lims plimits {} s" using assms by (simp add: conns_ok_def)
  have "list_total (\<lambda>x. pending_write_bytes (snd x)) (filter ?P (connections s)) =
      list_total (\<lambda>x. pending_write_bytes (snd x)) (connections s)"
    using simulates_conn_ok(2)[OF sim] by (intro total_filter_zero) (auto simp: CanBeCollected_def)
  moreover have "list_total conn_open (filter ?P (connections s)) = list_total conn_open (connections s)"
    by (intro total_filter_zero) (auto simp: CanBeCollected_def)
  moreover have "distinct (map fst (filter ?P (connections s)))"
    using assms by (auto simp: conns_ok_def books_def distinct_map_filter)
  ultimately have "books plimits (CollectClosedConnections s)"
    using assms by (auto simp: conns_ok_def books_def CollectClosedConnections_def)
  moreover have "simulates env registry lims plimits {} (CollectClosedConnections s)"
    using sim by (auto simp: simulates_def CollectClosedConnections_def view_def)
  moreover have "ids_ok (CollectClosedConnections s)"
    using assms ids_ok_subset[of s "CollectClosedConnections s"]
    by (auto simp: conns_ok_def CollectClosedConnections_def used_ids_def)
  ultimately show ?thesis by (auto simp: conns_ok_def CollectClosedConnections_def intro: ages_refl)
qed

lemma StartConnectionOnContext_ok:
  assumes ok: "conns_ok env registry lims plimits s"
  shows "conns_ok env registry lims plimits (StartConnectionOnContext lims plimits s)"
proof (cases "loop_state s = LoopRunning \<and> next_connection_id s \<noteq> 0")
  case False
  then show ?thesis
    using ok conns_ok_frame[OF ok, of "s\<lparr>id_space_exhausted := True\<rparr>"]
    by (auto simp: StartConnectionOnContext_def AllocateConnectionId_def)
next
  case True
  let ?i = "next_connection_id s" and ?acc = "(loop_accounts_of s)\<lparr>live_connections :=
    live_connections (loop_accounts_of s) + 1\<rparr>"
  let ?c = "ServerConnection lims plimits (loop_accounts_of s)"
  let ?s = "s\<lparr>next_connection_id := ?i + 1, connections := connections s @ [(?i, ?c)], loop_accounts_of := ?acc\<rparr>"
  have b: "books plimits s" "simulates env registry lims plimits {} s" "ids_ok s"
    using ok by (auto simp: conns_ok_def)
  have new: "?i \<notin> used_ids s" using b(3) True by (auto simp: ids_ok_def)
  then have fresh: "?i \<notin> fst ` set (connections s)" "filter (\<lambda>x. fst x = ?i) (loop_jobs s) = []"
      "filter (\<lambda>r. wr_connection_id r = ?i) (loop_results s) = []"
    by (auto simp: used_ids_def filter_empty_conv image_iff)
  then have none: "map_of (connections s) ?i = None" by (simp add: map_of_eq_None_iff)
  have eq: "StartConnectionOnContext lims plimits s = on_connection ?i (Conn_Start (stop_requested s)) ?s"
    using True none by (simp add: StartConnectionOnContext_def AllocateConnectionId_def)
  have books: "books plimits ?s" using b(1) fresh(1) by (auto simp: books_def ServerConnection_def)
  have "conn_reach env registry j lims plimits (view ?s j x)" if jx: "(j, x) \<in> set (connections s)" for j x
    using view_other[OF b(2) jx, of ?s ?i "[]"] fresh(1) jx b(1)
      total_connection_member[OF jx, of pending_write_bytes]
    by (force simp: books_def)
  then have sim: "simulates env registry lims plimits {?i} ?s" by (auto simp: simulates_def)
  have at: "map_of (connections ?s) ?i = Some ?c" using none by (simp add: map_add_def)
  have "view ?s ?i ?c = \<lparr>conn = ServerConnection lims plimits ?acc, conn_jobs = [], conn_results = [],
      assertion_failed = False\<rparr>"
    using fresh by (simp add: view_def ServerConnection_def)
  then have r: "conn_reach env registry ?i lims plimits
      (apply_op (Conn_Start (stop_requested s)) (view ?s ?i ?c))"
    by (simp add: conn_started)
  have "ids_ok (on_connection ?i (Conn_Start (stop_requested s)) ?s)"
    using on_connection_used[of ?i "Conn_Start (stop_requested s)" ?s] True
    by (intro ids_ok_allocate[OF b(3)]) (auto simp: used_ids_def)
  moreover have "books plimits (on_connection ?i (Conn_Start (stop_requested s)) ?s) \<and>
      simulates env registry lims plimits {} (on_connection ?i (Conn_Start (stop_requested s)) ?s)"
    by (rule on_connection_ok[OF books sim at _ r]) (rule Conn_Start_settles)
  ultimately show ?thesis unfolding eq conns_ok_def by blast
qed

lemma ExecuteRequestBatchOnWorker_id:
  "r \<in> set (ExecuteRequestBatchOnWorker env registry plimits i requests) \<Longrightarrow> wr_connection_id r = i"
  by (auto simp: ExecuteRequestBatchOnWorker_def split: prod.splits if_splits)

lemma worker_done_ok:
  assumes ok: "conns_ok env registry lims plimits s"
    and k: "k < length (loop_jobs s)" "loop_jobs s ! k = (i, requests)"
  defines "s' \<equiv> s\<lparr>loop_jobs := take k (loop_jobs s) @ drop (Suc k) (loop_jobs s),
    loop_results := loop_results s @ ExecuteRequestBatchOnWorker env registry plimits i requests\<rparr>"
  shows "conns_ok env registry lims plimits s'"
proof -
  let ?rs = "ExecuteRequestBatchOnWorker env registry plimits i requests"
  have b: "books plimits s" "simulates env registry lims plimits {} s" "ids_ok s"
    using ok by (auto simp: conns_ok_def)
  have "conn_reach env registry j lims plimits (view s' j c)" if jc: "(j, c) \<in> set (connections s)" for j c
  proof -
    have r: "conn_reach env registry j lims plimits (view s j c)" using b(2) jc by (auto simp: simulates_def)
    let ?P = "\<lambda>x :: u64 \<times> request_envelope list. fst x = j"
    show ?thesis
    proof (cases "j = i")
      case False
      then have "filter (\<lambda>r. wr_connection_id r = j) ?rs = []"
        by (auto simp: filter_empty_conv dest: ExecuteRequestBatchOnWorker_id)
      then have "view s' j c = view s j c"
        using False filter_remove_other[OF k(1), of ?P] k(2) by (simp add: view_def s'_def)
      then show ?thesis using r by simp
    next
      case True
      let ?k = "length (filter ?P (take k (loop_jobs s)))"
      have own: "?P (loop_jobs s ! k)" using True k(2) by simp
      note f = filter_remove_own[where P = ?P, OF k(1) own]
      have "filter (\<lambda>r. wr_connection_id r = j) ?rs = ?rs"
        using True by (auto simp: filter_id_conv dest: ExecuteRequestBatchOnWorker_id)
      moreover have "conn_protocol c = plimits" using b(1) jc by (auto simp: books_def)
      moreover have "conn_jobs (view s j c) ! ?k = requests" using f(1,2) k(2) by (simp add: view_def)
      ultimately have "view s' j c = (view s j c)\<lparr>
          conn_jobs := take ?k (conn_jobs (view s j c)) @ drop (Suc ?k) (conn_jobs (view s j c)),
          conn_results := conn_results (view s j c) @ ExecuteRequestBatchOnWorker env registry
            (conn_protocol (conn (view s j c))) j (conn_jobs (view s j c) ! ?k)\<rparr>"
        using f(3) True by (simp add: view_def s'_def take_map drop_map)
      then show ?thesis using conn_next[OF r job_done, of ?k] f(1) by (simp add: view_def)
    qed
  qed
  then have "simulates env registry lims plimits {} s'" by (auto simp: simulates_def s'_def)
  moreover have "fst ` set (loop_jobs s') \<subseteq> fst ` set (loop_jobs s)"
    unfolding s'_def using set_remove[of k "loop_jobs s"] by (simp add: image_mono)
  moreover have "i \<in> fst ` set (loop_jobs s)" using nth_mem[OF k(1)] k(2) by (metis fst_conv imageI)
  then have "wr_connection_id ` set ?rs \<subseteq> fst ` set (loop_jobs s)"
    using ExecuteRequestBatchOnWorker_id by blast
  ultimately have "simulates env registry lims plimits {} s'" "used_ids s' \<subseteq> used_ids s"
    by (auto simp: used_ids_def s'_def)
  moreover from this(2) have "ids_ok s'" by (rule ids_ok_subset[OF b(3)]) (simp_all add: s'_def)
  ultimately show ?thesis using b(1) by (simp add: conns_ok_def books_def s'_def)
qed

lemma HandleWorkerResult_ok:
  assumes ok: "conns_ok env registry lims plimits s" and k: "k < length (loop_results s)"
  defines "s0 \<equiv> s\<lparr>loop_results := take k (loop_results s) @ drop (Suc k) (loop_results s)\<rparr>"
  shows "conns_ok env registry lims plimits (HandleWorkerResult oom (loop_results s ! k) s0) \<and>
    ages s (HandleWorkerResult oom (loop_results s ! k) s0)"
proof -
  let ?r = "loop_results s ! k"
  let ?i = "wr_connection_id ?r" and ?f = "handle_result (stop_requested s) oom ?r"
  have b: "books plimits s" "simulates env registry lims plimits {} s" "ids_ok s"
    using ok by (auto simp: conns_ok_def)
  have b0: "books plimits s0" using b(1) by (simp add: books_def s0_def)
  have used: "used_ids s0 \<subseteq> used_ids s"
    using set_remove[of k "loop_results s"] by (auto simp: used_ids_def s0_def)
  have "view s0 j c = view s j c" if "j \<noteq> ?i" for j c
    using filter_remove_other[OF k, of "\<lambda>r. wr_connection_id r = j"] that by (simp add: view_def s0_def)
  then have sim: "simulates env registry lims plimits {?i} s0"
    using b(2) by (auto simp: simulates_def s0_def)
  have eq: "HandleWorkerResult oom ?r s0 = on_connection ?i ?f s0"
    by (simp add: HandleWorkerResult_def s0_def)
  have "books plimits (on_connection ?i ?f s0) \<and> simulates env registry lims plimits {} (on_connection ?i ?f s0)"
  proof (cases "map_of (connections s0) ?i")
    case None
    then have "simulates env registry lims plimits {} s0"
      using sim by (force simp: simulates_def map_of_eq_None_iff)
    then show ?thesis using None b0 by (simp add: on_connection_def)
  next
    case (Some c)
    let ?P = "\<lambda>r. wr_connection_id r = ?i"
    let ?k = "length (filter ?P (take k (loop_results s)))"
    note f = filter_remove_own[where P = ?P, OF k refl]
    have "conn_reach env registry ?i lims plimits (view s ?i c)"
      using b(2) map_of_SomeD[OF Some] by (auto simp: simulates_def s0_def)
    from conn_next[OF this result_handled, of ?k "stop_requested s" oom] f
    have r: "conn_reach env registry ?i lims plimits (apply_op ?f (view s0 ?i c))"
      by (simp add: view_def s0_def)
    show ?thesis by (rule on_connection_ok[OF b0 sim Some _ r]) (rule handle_result_settles)
  qed
  moreover from this have "ages s0 (on_connection ?i ?f s0)"
    by (intro on_connection_ages[OF handle_result_settles b0]) auto
  then have "ages s (on_connection ?i ?f s0)" by (simp add: ages_def s0_def)
  moreover have "ids_ok (on_connection ?i ?f s0)"
    using on_connection_used[of ?i ?f s0] used by (intro ids_ok_subset[OF b(3)]) (auto simp: s0_def)
  ultimately show ?thesis unfolding eq by (simp add: conns_ok_def)
qed

lemma each_connection_key:
  assumes "(i, c) \<in> set (connections (each_connection f is s))"
  shows "i \<in> set (map fst (connections s))"
proof -
  have "fst (i, c) \<in> set (map fst (connections (each_connection f is s)))"
    unfolding set_map using assms by (rule imageI)
  then show ?thesis by simp
qed

lemma Close_guarded: "(\<lambda>c. if state c \<noteq> Closed then Close c else Some c) = Close"
  by (auto simp: Close_def)

lemma CloseConnections_ok:
  assumes "conns_ok env registry lims plimits s"
  shows "conns_ok env registry lims plimits (CloseConnectionsOnContext s)"
    "\<forall>(i, c)\<in>set (connections (CloseConnectionsOnContext s)). state c = Closed"
proof -
  let ?s = "each_connection Close (map fst (connections s)) s"
  have ok: "conns_ok env registry lims plimits ?s"
    using each_connection_conns_ok[OF assms Close_settles closed_by_loop] by blast
  have "state c = Closed" if "(i, c) \<in> set (connections ?s)" for i c
  proof (rule each_connection_all[where f = Close and Q = "\<lambda>c. state c = Closed"])
    show "(i, c) \<in> set (connections ?s)" by (rule that)
    then show "i \<in> set (map fst (connections s))" by (rule each_connection_key)
  qed (use ok in \<open>auto simp: Close_def bind_eq_Some_conv Let_def wake_closed_def conns_ok_def books_def
      split: if_splits\<close>)
  then show "conns_ok env registry lims plimits (CloseConnectionsOnContext s)"
      "\<forall>(i, c)\<in>set (connections (CloseConnectionsOnContext s)). state c = Closed"
    using CollectClosedConnections_ok[OF ok]
    by (auto simp: CloseConnectionsOnContext_def Close_guarded CollectClosedConnections_def)
qed

lemma BeginDrain_ok:
  assumes "conns_ok env registry lims plimits s"
  shows "conns_ok env registry lims plimits (BeginDrainOnContext s)"
    "ages s (BeginDrainOnContext s)" "\<forall>(i, c)\<in>set (connections (BeginDrainOnContext s)). state c \<noteq> Active"
proof -
  have ok: "conns_ok env registry lims plimits (BeginDrainOnContext s) \<and> ages s (BeginDrainOnContext s)"
    unfolding BeginDrainOnContext_def
    by (rule each_connection_conns_ok[OF assms Conn_BeginDrain_settles drain_begun])
  have "state c \<noteq> Active" if "(i, c) \<in> set (connections (BeginDrainOnContext s))" for i c
  proof (rule each_connection_all[where f = Conn_BeginDrain and Q = "\<lambda>c. state c \<noteq> Active"])
    show "(i, c) \<in> set (connections (each_connection Conn_BeginDrain (map fst (connections s)) s))"
      using that by (simp add: BeginDrainOnContext_def)
    then show "i \<in> set (map fst (connections s))" by (rule each_connection_key)
    show "Conn_BeginDrain x = Some c' \<Longrightarrow> state c' \<noteq> Active" for x c'
      by (auto simp: Conn_BeginDrain_def split: if_splits dest: TryFinishDrain_settles simp: settles_def)
  qed (use ok assms in \<open>auto simp: BeginDrainOnContext_def conns_ok_def books_def\<close>)
  then show "conns_ok env registry lims plimits (BeginDrainOnContext s)" "ages s (BeginDrainOnContext s)"
      "\<forall>(i, c)\<in>set (connections (BeginDrainOnContext s)). state c \<noteq> Active" using ok by auto
qed

section \<open>The lifecycle\<close>

definition all_closed :: "io_loop \<Rightarrow> bool" where
  "all_closed s \<longleftrightarrow> (\<forall>(i, c)\<in>set (connections s). state c = Closed)"

definition no_active :: "io_loop \<Rightarrow> bool" where
  "no_active s \<longleftrightarrow> (\<forall>(i, c)\<in>set (connections s). state c \<noteq> Active)"

definition lifecycle :: "io_loop \<Rightarrow> bool" where
  "lifecycle s \<longleftrightarrow> \<not> live_destroyed s \<and>
    (loop_thread s = NoThread \<longleftrightarrow> loop_state s = LoopCreated \<or> loop_state s = LoopStopped) \<and>
    (loop_thread s = NoThread \<longrightarrow> connections s = [] \<and> owner s = OwnerIdle) \<and>
    (loop_thread s = ThreadFinished \<longrightarrow> stop_requested s \<and> posted_callbacks s = [] \<and>
       list_all (\<lambda>(i, c). \<not> pending_io c) (connections s)) \<and>
    (loop_state s = LoopCreated \<longrightarrow> \<not> stop_requested s) \<and>
    (loop_state s \<noteq> LoopStopped \<longrightarrow> stop_requested s = (owner s = JoiningDrained \<or> owner s = JoiningStopped)) \<and>
    (owner s = AwaitingDrain \<or> owner s = JoiningDrained \<longrightarrow> loop_state s = LoopDraining) \<and>
    (owner s = JoiningDrained \<longrightarrow> all_closed s) \<and>
    (owner s = JoiningStopped \<longrightarrow>
       (if posted_callbacks s = [] then all_closed s else last (posted_callbacks s) = CloseTask)) \<and>
    (loop_state s = LoopDraining \<longrightarrow> DrainTask \<in> set (posted_callbacks s) \<or> no_active s)"

lemma ages_states: "ages s s' \<Longrightarrow> all_closed s \<Longrightarrow> all_closed s'" "ages s s' \<Longrightarrow> no_active s \<Longrightarrow> no_active s'"
  by (fastforce simp: ages_def all_closed_def no_active_def)+

lemma closed_not_active: "all_closed s \<Longrightarrow> no_active s"
  by (auto simp: all_closed_def no_active_def)

lemma live_zero:
  assumes "books plimits s"
  shows "live_connections (loop_accounts_of s) = 0 \<longleftrightarrow> all_closed s"
proof -
  have "list_total conn_open cs = 0 \<longleftrightarrow> (\<forall>(i, c)\<in>set cs. state c = Closed)" for cs
    by (induction cs) auto
  then show ?thesis using assms by (simp add: books_def all_closed_def)
qed

text \<open>A step of the loop thread that runs no posted callback.\<close>

lemma lifecycle_ages:
  assumes "lifecycle s" "loop_thread s = ThreadRunning" "ages s s'" "loop_state s' = loop_state s"
    "loop_thread s' = loop_thread s" "owner s' = owner s" "stop_requested s' = stop_requested s"
    "posted_callbacks s' = posted_callbacks s" "live_destroyed s' = live_destroyed s"
  shows "lifecycle s'"
  using assms ages_states[OF assms(3)] unfolding lifecycle_def by (simp split: if_splits) blast

lemma CollectClosedConnections_frame [simp]:
  "loop_state (CollectClosedConnections s) = loop_state s" "loop_thread (CollectClosedConnections s) = loop_thread s"
  "owner (CollectClosedConnections s) = owner s"
  "stop_requested (CollectClosedConnections s) = stop_requested s"
  "posted_callbacks (CollectClosedConnections s) = posted_callbacks s"
  "live_destroyed (CollectClosedConnections s) = live_destroyed s"
  "stats_delivered (CollectClosedConnections s) = stats_delivered s"
  by (simp_all add: CollectClosedConnections_def)

lemmas task_defs = run_task_def StartConnectionOnContext_def AllocateConnectionId_def BeginDrainOnContext_def
  CloseConnectionsOnContext_def stats_callback_def Let_def

lemma run_task_frame [simp]:
  "loop_state (run_task lims plimits t s) = loop_state s" "loop_thread (run_task lims plimits t s) = loop_thread s"
  "owner (run_task lims plimits t s) = owner s" "stop_requested (run_task lims plimits t s) = stop_requested s"
  "posted_callbacks (run_task lims plimits t s) = posted_callbacks s"
  "live_destroyed (run_task lims plimits t s) = live_destroyed s"
  by (simp_all add: task_defs split: loop_task.split)

lemma stats_callback_ok:
  assumes "conns_ok env registry lims plimits s"
  shows "conns_ok env registry lims plimits (stats_callback start_window s)"
proof -
  let ?s = "stats_callback start_window s"
  have b: "books plimits s" "simulates env registry lims plimits {} s" "ids_ok s"
    using assms by (auto simp: conns_ok_def)
  have books: "books plimits ?s" using b(1) by (auto simp: books_def stats_callback_def Let_def)
  have "conn_reach env registry j lims plimits (view ?s j x)" if "(j, x) \<in> set (connections s)" for j x
    using view_other[OF b(2) that, of ?s "j + 1" "[]"] b(1) total_connection_member[OF that, of pending_write_bytes]
    by (auto simp: books_def stats_callback_def Let_def)
  then show ?thesis
    using books b(3)
    by (auto simp: conns_ok_def simulates_def ids_ok_def used_ids_def stats_callback_def Let_def)
qed

lemma run_task_conns_ok:
  assumes "conns_ok env registry lims plimits s"
  shows "conns_ok env registry lims plimits (run_task lims plimits t s)"
  using CollectClosedConnections_ok[OF assms] StartConnectionOnContext_ok BeginDrain_ok(1)[OF assms]
    CloseConnections_ok(1)[OF assms] stats_callback_ok[OF assms]
  by (cases t) (auto simp: run_task_def)

text \<open>What a callback does to the connections, by its kind and the state of the loop.\<close>

lemma run_task_states:
  assumes "conns_ok env registry lims plimits s"
  shows "t = DrainTask \<Longrightarrow> no_active (run_task lims plimits t s)"
    "t = CloseTask \<Longrightarrow> all_closed (run_task lims plimits t s)"
    "loop_state s \<noteq> LoopRunning \<or> t \<noteq> StartTask \<Longrightarrow> t \<noteq> CloseTask \<Longrightarrow> ages s (run_task lims plimits t s)"
  using CollectClosedConnections_ok[OF assms] BeginDrain_ok[OF assms] CloseConnections_ok[OF assms]
  by (auto simp: run_task_def no_active_def all_closed_def StartConnectionOnContext_def stats_callback_def
      Let_def split: loop_task.split intro: ages_refl)

lemma callback_lifecycle:
  assumes "lifecycle s" "conns_ok env registry lims plimits s" "loop_thread s = ThreadRunning"
    "posted_callbacks s = t # ts"
  shows "lifecycle (run_task lims plimits t (s\<lparr>posted_callbacks := ts\<rparr>))"
proof -
  let ?s = "s\<lparr>posted_callbacks := ts\<rparr>" and ?s' = "run_task lims plimits t (s\<lparr>posted_callbacks := ts\<rparr>)"
  have ok: "conns_ok env registry lims plimits ?s" using assms(2) by (rule conns_ok_frame) simp_all
  note st = run_task_states[OF ok, of t]
  have "all_closed ?s'" if "all_closed s" "loop_state s \<noteq> LoopRunning"
    using st(2,3) that ages_states(1)[of ?s ?s'] by (cases "t = CloseTask") (auto simp: all_closed_def)
  moreover have "DrainTask \<in> set ts \<or> no_active ?s'" if "loop_state s = LoopDraining"
  proof (cases "t = DrainTask \<or> t = CloseTask \<or> DrainTask \<in> set ts")
    case True
    then show ?thesis using st(1,2) closed_not_active by auto
  next
    case False
    then have "no_active s" using assms(1,4) that by (auto simp: lifecycle_def)
    then show ?thesis using st(3) False that ages_states(2)[of ?s ?s'] by (auto simp: no_active_def)
  qed
  moreover have "if ts = [] then all_closed ?s' else last ts = CloseTask" if "owner s = JoiningStopped"
    using assms(1,4) that st(2) by (auto simp: lifecycle_def split: if_splits)
  ultimately show ?thesis using assms(1,3) by (auto simp: lifecycle_def)
qed

section \<open>Reachable loops\<close>

lemma closed_collectable:
  assumes "conn_ok (c\<lparr>owner_loop := acc\<rparr>)" "state c = Closed" "\<not> pending_io c"
  shows "CanBeCollected c"
  using assms by (cases "read_loop c"; cases "write_loop c")
    (auto simp: conn_ok_def writer_ok_def core_def pending_io_def CanBeCollected_def)

lemma destroy_ok:
  assumes "conns_ok env registry lims plimits s" "all_closed s" "list_all (\<lambda>(i, c). \<not> pending_io c) (connections s)"
    "\<not> live_destroyed s"
  shows "conns_ok env registry lims plimits (destroy_connections s)" "\<not> live_destroyed (destroy_connections s)"
proof -
  have sim: "simulates env registry lims plimits {} s" using assms(1) by (simp add: conns_ok_def)
  have "list_total (\<lambda>x. pending_write_bytes (snd x)) (connections s) = 0"
    using simulates_conn_ok(2)[OF sim] assms(2) by (auto simp: all_closed_def)
  moreover have "live_connections (loop_accounts_of s) = 0"
    using live_zero[of plimits s] assms(1,2) by (simp add: conns_ok_def)
  ultimately show "conns_ok env registry lims plimits (destroy_connections s)"
    using assms(1) by (auto simp: conns_ok_def destroy_connections_def books_def simulates_def ids_ok_def used_ids_def)
  have "list_all (\<lambda>(i, c). CanBeCollected c) (connections s)"
    unfolding list_all_iff using closed_collectable[OF simulates_conn_ok(1)[OF sim]] assms(2,3)
    by (fastforce simp: all_closed_def list_all_iff)
  then show "\<not> live_destroyed (destroy_connections s)" using assms(4) by (simp add: destroy_connections_def)
qed

lemma Post_frame [simp]:
  "connections (Post t s) = connections s" "loop_accounts_of (Post t s) = loop_accounts_of s"
  "loop_jobs (Post t s) = loop_jobs s" "loop_results (Post t s) = loop_results s"
  "next_connection_id (Post t s) = next_connection_id s" "duplicate_id (Post t s) = duplicate_id s"
  "loop_assert (Post t s) = loop_assert s" "loop_state (Post t s) = loop_state s"
  "loop_thread (Post t s) = loop_thread s" "owner (Post t s) = owner s"
  "stop_requested (Post t s) = stop_requested s" "live_destroyed (Post t s) = live_destroyed s"
  "posted_callbacks (Post t s) = (if stop_requested s then posted_callbacks s else posted_callbacks s @ [t])"
  by (simp_all add: Post_def)

lemmas owner_defs = Loop_Start_def Loop_BeginDrain_def FinishDrain_begin_def FinishDrain_stop_def
  StopImmediately_begin_def PostStartConnection_check_def PostStartConnection_post_def RequestStop_def Let_def

lemma states_frame [simp]:
  "all_closed (s\<lparr>loop_state := x\<rparr>) = all_closed s" "no_active (s\<lparr>loop_state := x\<rparr>) = no_active s"
  "all_closed (s\<lparr>owner := y\<rparr>) = all_closed s" "no_active (s\<lparr>owner := y\<rparr>) = no_active s"
  "all_closed (s\<lparr>loop_thread := z\<rparr>) = all_closed s" "no_active (s\<lparr>loop_thread := z\<rparr>) = no_active s"
  "all_closed (s\<lparr>stop_requested := b\<rparr>) = all_closed s" "no_active (s\<lparr>stop_requested := b\<rparr>) = no_active s"
  "all_closed (s\<lparr>accepted := b\<rparr>) = all_closed s" "no_active (s\<lparr>accepted := b\<rparr>) = no_active s"
  "all_closed (Post t s) = all_closed s" "no_active (Post t s) = no_active s"
  by (simp_all add: all_closed_def no_active_def)

lemma Loop_BeginDrain_ok:
  assumes "owner s = OwnerIdle" "lifecycle s"
  shows "lifecycle (Loop_BeginDrain s)"
  using assms by (cases "loop_state s") (simp_all add: Loop_BeginDrain_def lifecycle_def, blast+)

lemma FinishDrain_begin_ok:
  assumes "owner s = OwnerIdle" "lifecycle s"
  shows "lifecycle (FinishDrain_begin s)"
proof -
  have "owner (Loop_BeginDrain s) = OwnerIdle" "loop_state (Loop_BeginDrain s) = LoopStopped \<or>
      loop_state (Loop_BeginDrain s) = LoopDraining"
    using assms by (cases "loop_state s"; simp add: Loop_BeginDrain_def lifecycle_def)+
  then show ?thesis
    using Loop_BeginDrain_ok[OF assms] by (auto simp: FinishDrain_begin_def Let_def lifecycle_def)
qed

lemma StopImmediately_begin_ok:
  assumes "owner s = OwnerIdle" "lifecycle s"
  shows "lifecycle (StopImmediately_begin s)"
  using assms
  by (cases "loop_state s") (simp_all add: StopImmediately_begin_def RequestStop_def lifecycle_def, blast+)

lemma owner_conns_ok:
  assumes "conns_ok env registry lims plimits s"
  shows "conns_ok env registry lims plimits (Loop_Start s)"
    "conns_ok env registry lims plimits (Loop_BeginDrain s)"
    "conns_ok env registry lims plimits (FinishDrain_begin s)"
    "conns_ok env registry lims plimits (StopImmediately_begin s)"
  by (rule conns_ok_frame[OF assms]; simp add: owner_defs)+

lemma Loop_Start_ok: "lifecycle s \<Longrightarrow> owner s = OwnerIdle \<Longrightarrow> lifecycle (Loop_Start s)"
  by (cases "loop_state s") (simp_all add: Loop_Start_def lifecycle_def, blast+)

lemma lifecycle_frame:
  assumes "lifecycle s" "connections s' = connections s" "loop_state s' = loop_state s"
    "loop_thread s' = loop_thread s" "owner s' = owner s" "stop_requested s' = stop_requested s"
    "posted_callbacks s' = posted_callbacks s" "live_destroyed s' = live_destroyed s"
  shows "lifecycle s'"
proof -
  have "lifecycle s' = lifecycle s" unfolding lifecycle_def all_closed_def no_active_def assms(2-) by (rule refl)
  then show ?thesis using assms(1) by simp
qed

lemma lifecycle_stopped:
  assumes "connections s = []" "loop_thread s = NoThread" "loop_state s = LoopStopped" "owner s = OwnerIdle"
    "\<not> live_destroyed s"
  shows "lifecycle s"
  using assms by (simp add: lifecycle_def)

lemma thread_returned_lifecycle:
  assumes "lifecycle s" "loop_thread s = ThreadRunning" "stop_requested s" "posted_callbacks s = []"
    "list_all (\<lambda>(i, c). \<not> pending_io c) (connections s)"
  shows "lifecycle (s\<lparr>loop_thread := ThreadFinished\<rparr>)"
proof -
  have "loop_state s \<noteq> LoopCreated" "loop_state s \<noteq> LoopStopped" using assms(1,2) unfolding lifecycle_def by auto
  then show ?thesis using assms by (cases "owner s"; cases "loop_state s") (simp_all add: lifecycle_def)
qed

lemma drain_stop_lifecycle:
  assumes "lifecycle s" "owner s = AwaitingDrain" "all_closed s"
  shows "lifecycle (FinishDrain_stop s)"
proof -
  have "loop_state s = LoopDraining" "loop_thread s \<noteq> NoThread" "loop_thread s \<noteq> ThreadFinished"
    using assms(1,2) unfolding lifecycle_def by auto
  then show ?thesis
    using assms closed_not_active[OF assms(3)]
    by (cases "loop_thread s") (simp_all add: lifecycle_def FinishDrain_stop_def RequestStop_def)
qed

lemma joining_facts:
  assumes "lifecycle s" "owner s = JoiningDrained \<or> owner s = JoiningStopped" "loop_thread s = ThreadFinished"
  shows "all_closed s" "list_all (\<lambda>(i, c). \<not> pending_io c) (connections s)" "\<not> live_destroyed s"
  using assms unfolding lifecycle_def by auto

lemma post_lifecycle:
  assumes "lifecycle s"
  shows "lifecycle (Post t s)"
proof (cases "stop_requested s")
  case True
  then show ?thesis using assms by (simp add: Post_def)
next
  case False
  then have "owner s \<noteq> JoiningStopped" "loop_thread s \<noteq> ThreadFinished"
    using assms unfolding lifecycle_def by fastforce+
  moreover from False have eqF: "stop_requested s = False" by simp
  ultimately show ?thesis using assms unfolding lifecycle_def Post_frame eqF states_frame if_False set_append
    by (elim conjE, intro conjI; blast)
qed

lemma accept_ok:
  assumes "conns_ok env registry lims plimits s" "lifecycle s"
  shows "conns_ok env registry lims plimits (PostStartConnection_check s)" "lifecycle (PostStartConnection_check s)"
    "conns_ok env registry lims plimits (PostStartConnection_post s)" "lifecycle (PostStartConnection_post s)"
    "RequestStats start_window s = Some s' \<Longrightarrow> conns_ok env registry lims plimits s' \<and> lifecycle s'"
proof -
  have "lifecycle (s\<lparr>accepted := b\<rparr>)" for b using assms(2) by (rule lifecycle_frame) simp_all
  then show "lifecycle (PostStartConnection_check s)" "lifecycle (PostStartConnection_post s)"
    using assms(2) post_lifecycle by (auto simp: PostStartConnection_check_def PostStartConnection_post_def)
  show "conns_ok env registry lims plimits (PostStartConnection_check s)"
    "conns_ok env registry lims plimits (PostStartConnection_post s)"
    by (rule conns_ok_frame[OF assms(1)]; simp add: owner_defs)+
  show "RequestStats start_window s = Some s' \<Longrightarrow> conns_ok env registry lims plimits s' \<and> lifecycle s'"
    using assms(2) post_lifecycle conns_ok_frame[OF assms(1), of s']
    by (auto simp: RequestStats_def split: if_splits)
qed

lemma loop_step_ok:
  assumes "loop_step env registry lims plimits s s'" and ok: "conns_ok env registry lims plimits s" "lifecycle s"
  shows "conns_ok env registry lims plimits s' \<and> lifecycle s'"
  using assms(1)
proof cases
  case (callback_run t ts)
  have "conns_ok env registry lims plimits (s\<lparr>posted_callbacks := ts\<rparr>)" using ok(1) by (rule conns_ok_frame) simp_all
  then show ?thesis
    unfolding callback_run(1) using run_task_conns_ok callback_lifecycle[OF ok(2,1) callback_run(2,3)] by blast
next
  case (recv_completed i c outcome cap r)
  have "conns_ok env registry lims plimits s' \<and> ages s s'"
    unfolding recv_completed(1) using recv_completed(3,4)
    by (intro on_connection_conns_ok[OF ok(1) on_recv_settles]) (auto simp: view_def intro!: recv_done)
  then show ?thesis using lifecycle_ages[OF ok(2) recv_completed(2)] by (simp add: recv_completed(1))
next
  case (send_completed i c batch off n)
  have "conns_ok env registry lims plimits s' \<and> ages s s'"
    unfolding send_completed(1) using send_completed(3-5)
    by (intro on_connection_conns_ok[OF ok(1) on_send_settles]) (auto simp: view_def intro!: send_done)
  then show ?thesis using lifecycle_ages[OF ok(2) send_completed(2)] by (simp add: send_completed(1))
next
  case (result_taken k oom)
  from HandleWorkerResult_ok[OF ok(1) result_taken(3), of oom] show ?thesis
    using lifecycle_ages[OF ok(2) result_taken(2)] by (simp add: result_taken(1) HandleWorkerResult_def)
next
  case collected
  from CollectClosedConnections_ok[OF ok(1)] show ?thesis
    using lifecycle_ages[OF ok(2) collected(2)] by (simp add: collected(1))
next
  case thread_returned
  have "conns_ok env registry lims plimits s'" using ok(1) by (rule conns_ok_frame) (simp_all add: thread_returned(1))
  then show ?thesis using thread_returned_lifecycle[OF ok(2) thread_returned(2-5)] thread_returned(1) by simp
next
  case (worker_done k i requests)
  have "lifecycle s'" using ok(2) by (rule lifecycle_frame) (simp_all add: worker_done(1))
  then show ?thesis using worker_done_ok[OF ok(1) worker_done(2,3)] unfolding worker_done(1) by simp
next
  case drain_stops
  have "all_closed s" using live_zero[of plimits s] ok(1) drain_stops(3) by (simp add: conns_ok_def)
  moreover have "conns_ok env registry lims plimits s'"
    using ok(1) by (rule conns_ok_frame) (simp_all add: drain_stops(1) owner_defs)
  ultimately show ?thesis using drain_stop_lifecycle[OF ok(2) drain_stops(2)] drain_stops(1) by simp
next
  case drain_joins
  note d = destroy_ok[OF ok(1) joining_facts[OF ok(2) disjI1[OF drain_joins(2)] drain_joins(3)]]
  have "conns_ok env registry lims plimits s'"
    using d(1) by (rule conns_ok_frame) (simp_all add: drain_joins(1) FinishDrain_join_def)
  moreover have "lifecycle s'"
    using d(2) by (intro lifecycle_stopped) (simp_all add: drain_joins(1) FinishDrain_join_def destroy_connections_def)
  ultimately show ?thesis ..
next
  case stop_joins
  note d = destroy_ok[OF ok(1) joining_facts[OF ok(2) disjI2[OF stop_joins(2)] stop_joins(3)]]
  have "conns_ok env registry lims plimits s'"
    using d(1) by (rule conns_ok_frame) (simp_all add: stop_joins(1) StopImmediately_join_def)
  moreover have "lifecycle s'"
    using d(2) by (intro lifecycle_stopped) (simp_all add: stop_joins(1) StopImmediately_join_def destroy_connections_def)
  ultimately show ?thesis ..
qed (use ok accept_ok[OF ok] owner_conns_ok[OF ok(1)] Loop_Start_ok Loop_BeginDrain_ok FinishDrain_begin_ok
    StopImmediately_begin_ok in \<open>simp_all\<close>)

lemma loop_invariant:
  assumes "loop_reach env registry lims plimits s"
  shows "conns_ok env registry lims plimits s \<and> lifecycle s"
  using assms
proof induction
  case loop_created
  show ?case
    by (simp add: ConnectionIoLoop_def conns_ok_def books_def simulates_def ids_ok_def used_ids_def lifecycle_def)
next
  case (loop_next s s')
  then show ?case using loop_step_ok by blast
qed

section \<open>A loop that accepts one connection and drains\<close>

abbreviation demo_conn_limits :: backpressure_limits where
  "demo_conn_limits \<equiv> \<lparr>max_inflight = 2, max_write_queue_bytes = 100\<rparr>"

abbreviation demo_loop_step :: "io_loop \<Rightarrow> io_loop \<Rightarrow> bool" where
  "demo_loop_step \<equiv> loop_step demo_env Map.empty demo_conn_limits demo_limits"

definition demo_running :: io_loop where
  "demo_running = PostStartConnection_post (PostStartConnection_check (Loop_Start ConnectionIoLoop))"

definition demo_serving :: io_loop where
  "demo_serving = run_task demo_conn_limits demo_limits StartTask (demo_running\<lparr>posted_callbacks := []\<rparr>)"

definition demo_draining :: io_loop where
  "demo_draining = FinishDrain_begin demo_serving"

definition demo_drained :: io_loop where
  "demo_drained = run_task demo_conn_limits demo_limits DrainTask (demo_draining\<lparr>posted_callbacks := []\<rparr>)"

definition demo_stopped :: io_loop where
  "demo_stopped = FinishDrain_join
     ((on_connection 1 (on_recv demo_env True Accepted 64 RecvError) (FinishDrain_stop demo_drained))
       \<lparr>loop_thread := ThreadFinished\<rparr>)"

lemmas demo_loop_defs = ConnectionIoLoop_def owner_defs Post_def task_defs on_connection_def
  update_connection_def CollectClosedConnections_def Conn_Start_def WriteLoop_start_def ReadLoop_next_def
  ServerConnection_def Conn_BeginDrain_def TryFinishDrain_def Close_def RecordWriteBytesChange_def
  OnConnectionClosed_def wake_closed_def on_recv_def

lemma demo_running_state:
  "posted_callbacks demo_running = [StartTask]" "loop_thread demo_running = ThreadRunning"
  by (simp_all add: demo_running_def demo_loop_defs)

lemma demo_serving_state:
  "posted_callbacks demo_serving = []" "loop_thread demo_serving = ThreadRunning"
  "owner demo_serving = OwnerIdle" "loop_state demo_serving = LoopRunning" "\<not> stop_requested demo_serving"
  "live_connections (loop_accounts_of demo_serving) = 1"
  by (simp_all add: demo_serving_def demo_running_def demo_loop_defs)

lemma demo_draining_state:
  "posted_callbacks demo_draining = [DrainTask]" "loop_thread demo_draining = ThreadRunning"
  "owner demo_draining = AwaitingDrain" "live_connections (loop_accounts_of demo_draining) = 1"
  using demo_serving_state by (simp_all add: demo_draining_def owner_defs)

lemma demo_drained_state:
  "posted_callbacks demo_drained = []" "loop_thread demo_drained = ThreadRunning"
  "owner demo_drained = AwaitingDrain" "live_connections (loop_accounts_of demo_drained) = 0"
  "\<exists>c. connections demo_drained = [(1, c)] \<and> state c = Closed \<and> read_loop c = ReadReceiving \<and> write_loop c = WriteDone"
  by (simp_all add: demo_drained_def demo_draining_def demo_serving_def demo_running_def demo_loop_defs)

lemma demo_loop_reach:
  "loop_reach demo_env Map.empty demo_conn_limits demo_limits demo_draining"
  "loop_reach demo_env Map.empty demo_conn_limits demo_limits demo_drained"
proof -
  let ?R = "loop_reach demo_env Map.empty demo_conn_limits demo_limits"
  have "?R (Loop_Start ConnectionIoLoop)"
    by (rule loop_next[OF loop_created owner_starts]) (simp add: ConnectionIoLoop_def)
  then have "?R (PostStartConnection_check (Loop_Start ConnectionIoLoop))"
    by (rule loop_next[OF _ accept_checks]) (simp add: ConnectionIoLoop_def owner_defs)
  then have "?R demo_running"
    unfolding demo_running_def by (rule loop_next[OF _ accept_posts]) (simp add: ConnectionIoLoop_def owner_defs)
  then have "?R demo_serving"
    unfolding demo_serving_def by (rule loop_next[OF _ callback_run[OF demo_running_state(2,1)]])
  then show "?R demo_draining"
    unfolding demo_draining_def by (rule loop_next[OF _ drain_waits[OF demo_serving_state(3)]])
  then show "?R demo_drained"
    unfolding demo_drained_def by (rule loop_next[OF _ callback_run[OF demo_draining_state(2,1)]])
qed

lemma demo_stopped_reach:
  "loop_reach demo_env Map.empty demo_conn_limits demo_limits demo_stopped" "loop_state demo_stopped = LoopStopped"
proof -
  let ?R = "loop_reach demo_env Map.empty demo_conn_limits demo_limits"
  let ?s = "FinishDrain_stop demo_drained"
  let ?s1 = "on_connection 1 (on_recv demo_env True Accepted 64 RecvError) ?s"
  obtain c where c: "connections demo_drained = [(1, c)]" "state c = Closed" "read_loop c = ReadReceiving"
      "write_loop c = WriteDone" using demo_drained_state(5) by blast
  have s: "connections ?s = [(1, c)]" "stop_requested ?s" "loop_thread ?s = ThreadRunning"
      "owner ?s = JoiningDrained" "posted_callbacks ?s = []"
    using c demo_drained_state by (simp_all add: FinishDrain_stop_def RequestStop_def)
  have "?R ?s" by (rule loop_next[OF demo_loop_reach(2) drain_stops[OF demo_drained_state(3,4)]])
  then have r1: "?R ?s1"
    using loop_next[OF _ recv_completed[of ?s 1 c demo_env Map.empty demo_conn_limits demo_limits Accepted 64 RecvError]]
      s c by simp
  have s1: "loop_thread ?s1 = ThreadRunning" "stop_requested ?s1" "posted_callbacks ?s1 = []"
      "list_all (\<lambda>(i, c). \<not> pending_io c) (connections ?s1)" "owner ?s1 = JoiningDrained"
    using s c by (simp_all add: on_connection_def on_recv_def TryFinishDrain_def update_connection_def pending_io_def)
  have "?R (?s1\<lparr>loop_thread := ThreadFinished\<rparr>)" by (rule loop_next[OF r1 thread_returned[OF s1(1-4)]])
  then show "?R demo_stopped"
    unfolding demo_stopped_def by (rule loop_next[OF _ drain_joins]) (simp_all add: s)
  show "loop_state demo_stopped = LoopStopped" by (simp add: demo_stopped_def FinishDrain_join_def)
qed

section \<open>Properties\<close>



text \<open>C13. A drain does not get stuck. While \<^verbatim>\<open>FinishDrain\<close> waits, the loop thread is running, and either
  no live connection is left (then all are closed and the wait ends), or a callback is still posted, or
  one of the connections has a batch with the workers, a result to be handled or a send in progress.\<close>

theorem drain_not_stuck:
  assumes "loop_reach env registry lims plimits s" "owner s = AwaitingDrain"
  shows "loop_thread s = ThreadRunning \<and> \<not> stop_requested s \<and>
    (live_connections (loop_accounts_of s) = 0 \<and> list_all (\<lambda>(i, c). state c = Closed) (connections s) \<or>
     posted_callbacks s \<noteq> [] \<or>
     (\<exists>i c. (i, c) \<in> set (connections s) \<and> state c = Draining \<and>
       (i \<in> fst ` set (loop_jobs s) \<or> i \<in> wr_connection_id ` set (loop_results s) \<or>
        (\<exists>batch off. write_loop c = WriteSending batch off \<and> off < length batch))))"
proof -
  have ok: "books plimits s" "simulates env registry lims plimits {} s" "lifecycle s"
    using loop_invariant[OF assms(1)] by (auto simp: conns_ok_def)
  have l: "loop_thread s = ThreadRunning" "\<not> stop_requested s" "DrainTask \<in> set (posted_callbacks s) \<or> no_active s"
    using ok(3) assms(2) unfolding lifecycle_def by (cases "loop_thread s"; auto)+
  consider "all_closed s" | "posted_callbacks s \<noteq> []" | "no_active s" "\<not> all_closed s" using l(3) by force
  then show ?thesis
  proof cases
    case 1
    then show ?thesis using l live_zero[OF ok(1)] by (simp add: all_closed_def list_all_iff)
  next
    case 3
    then obtain i c where c: "(i, c) \<in> set (connections s)" "state c = Draining"
      by (force simp: no_active_def all_closed_def intro: conn_state.exhaust)
    then have "conn_reach env registry i lims plimits (view s i c)" using ok(2) by (auto simp: simulates_def)
    from draining_work[OF conn_reach_ok[OF this]] c(2) show ?thesis
      using l c by (force simp: view_def filter_empty_conv)
  qed (use l in simp)
qed

theorem drain_not_stuck_witness:
  "owner demo_drained = AwaitingDrain \<and> loop_thread demo_drained = ThreadRunning \<and>
   list_all (\<lambda>(i, c). state c = Closed) (connections demo_drained) \<and>
   owner demo_draining = AwaitingDrain \<and> live_connections (loop_accounts_of demo_draining) = 1 \<and>
   posted_callbacks demo_draining \<noteq> []"
  using drain_not_stuck[OF demo_loop_reach(2) demo_drained_state(3)] demo_drained_state
    demo_draining_state by auto

end
