(* ===== verification/Uring_Buffer_Pool.thy ===== *)
theory Uring_Buffer_Pool
  imports Status "HOL-Library.Multiset"
begin

text \<open>
  \<^verbatim>\<open>src/io/uring/buffer_pool.cpp\<close>: the pool of receive buffers that is registered with an io_uring
  instance, and the move-only lease of one buffer. The pool, the leases held by C++ variables and
  the buffers held by the kernel are one state; everything happens on the context's thread except
  the kernel's own steps. \<open>None\<close> is a call of \<^verbatim>\<open>Abort\<close>.
\<close>

section \<open>Configuration\<close>

record buffer_pool_config =
  buffer_count :: u32
  buffer_size :: u32
  group_id :: u16

definition default_pool_config :: buffer_pool_config where
  "default_pool_config = \<lparr>buffer_count = 2048, buffer_size = 16 * 1024, group_id = 1\<rparr>"

definition MAX_BUFFER_COUNT :: u32 where
  "MAX_BUFFER_COUNT = push_bit 15 1"

definition ValidateConfig :: "buffer_pool_config \<Rightarrow> status" where
  "ValidateConfig config =
    (if buffer_count config = 0 \<or> buffer_count config AND (buffer_count config - 1) \<noteq> 0 then
       Status InvalidArgument ''provided buffer count must be a power of two''
     else if buffer_count config > MAX_BUFFER_COUNT then
       Status InvalidArgument ''provided buffer count must not exceed 32768''
     else if buffer_size config = 0 then
       Status InvalidArgument ''provided buffer size must be greater than zero''
     else if unat (buffer_count config) > SIZE_MAX div unat (buffer_size config) then
       Status InvalidArgument ''provided buffer storage size overflows size_t''
     else status_Ok)"

section \<open>The ring shared with the kernel\<close>

text \<open>
  liburing's buffer ring, from \<^verbatim>\<open>third_party/liburing/src/include/liburing.h\<close>: an insertion fills the
  slot at an offset from the tail, and advancing the 16-bit tail makes insertions visible. The kernel
  takes buffers at a head of its own.
\<close>

record ring_buffer =
  rb_address :: nat
  rb_length :: nat
  rb_id :: u16

record buf_ring =
  bufs :: "ring_buffer list"
  ring_tail :: u16

definition io_uring_buf_ring_mask :: "nat \<Rightarrow> nat" where
  "io_uring_buf_ring_mask entries = entries - 1"

definition io_uring_buf_ring_add :: "ring_buffer \<Rightarrow> nat \<Rightarrow> nat \<Rightarrow> buf_ring \<Rightarrow> buf_ring" where
  "io_uring_buf_ring_add b ring_mask offset r =
    r\<lparr>bufs := (bufs r)[(unat (ring_tail r) + offset) AND ring_mask := b]\<rparr>"

definition io_uring_buf_ring_advance :: "nat \<Rightarrow> buf_ring \<Rightarrow> buf_ring" where
  "io_uring_buf_ring_advance n r = r\<lparr>ring_tail := ring_tail r + of_nat n\<rparr>"

section \<open>The pool\<close>

text \<open>Addresses are offsets into \<^verbatim>\<open>storage_\<close>.\<close>

record buffer_pool =
  pool_config :: buffer_pool_config
  buffer_ring :: buf_ring
  storage_size :: nat
  leased :: "bool list"
  outstanding_leases :: nat
  outstanding_leases_peak :: nat

text \<open>A lease: \<^verbatim>\<open>pool_\<close> is set, the id, and the start and size of \<^verbatim>\<open>bytes_\<close>.\<close>

record uring_buffer =
  has_pool :: bool
  buffer_id :: u16
  span :: "nat \<times> nat"

definition empty_buffer :: uring_buffer where
  "empty_buffer = \<lparr>has_pool = False, buffer_id = 0, span = (0, 0)\<rparr>"

definition BufferSize :: "buffer_pool \<Rightarrow> u32" where
  "BufferSize pool = buffer_size (pool_config pool)"

definition GroupId :: "buffer_pool \<Rightarrow> u16" where
  "GroupId pool = group_id (pool_config pool)"

definition Provide :: "u16 \<Rightarrow> nat \<Rightarrow> buffer_pool \<Rightarrow> buffer_pool" where
  "Provide bid offset pool =
    (let ring_mask = io_uring_buf_ring_mask (unat (buffer_count (pool_config pool)));
         data = unat bid * unat (buffer_size (pool_config pool))
     in pool\<lparr>buffer_ring := io_uring_buf_ring_add
          \<lparr>rb_address = data, rb_length = unat (buffer_size (pool_config pool)), rb_id = bid\<rparr>
          ring_mask offset (buffer_ring pool)\<rparr>)"

fun provide_all :: "nat list \<Rightarrow> buffer_pool \<Rightarrow> buffer_pool" where
  "provide_all [] pool = pool"
| "provide_all (index # rest) pool = provide_all rest (Provide (of_nat index) index pool)"

text \<open>\<open>ring_error\<close> is the error of \<^verbatim>\<open>io_uring_setup_buf_ring\<close>, if it fails; \<open>message\<close> makes the
  text of a system error.\<close>

definition Pool_Register ::
  "(string \<Rightarrow> int \<Rightarrow> string) \<Rightarrow> int option \<Rightarrow> buffer_pool_config \<Rightarrow> buffer_pool status_or" where
  "Pool_Register message ring_error config =
    (if \<not> status_ok (ValidateConfig config) then Error (ValidateConfig config)
     else case ring_error of
       Some result \<Rightarrow> Error (Status Unavailable (message ''io_uring provided buffer registration''
         (if result < 0 then - result else result)))
     | None \<Rightarrow>
         let count = unat (buffer_count config);
             pool = \<lparr>pool_config = config,
               buffer_ring = \<lparr>bufs = replicate count \<lparr>rb_address = 0, rb_length = 0, rb_id = 0\<rparr>, ring_tail = 0\<rparr>,
               storage_size = count * unat (buffer_size config), leased = replicate count False,
               outstanding_leases = 0, outstanding_leases_peak = 0\<rparr>;
             pool' = provide_all [0..<count] pool
         in Value (pool'\<lparr>buffer_ring := io_uring_buf_ring_advance count (buffer_ring pool')\<rparr>))"

definition Acquire :: "u16 \<Rightarrow> nat \<Rightarrow> buffer_pool \<Rightarrow> (uring_buffer \<times> buffer_pool) option" where
  "Acquire bid received pool =
    (if unat bid \<ge> unat (buffer_count (pool_config pool)) then None
     else if received > unat (buffer_size (pool_config pool)) then None
     else if leased pool ! unat bid then None
     else let n = outstanding_leases pool + 1
       in Some (\<lparr>has_pool = True, buffer_id = bid,
                 span = (unat bid * unat (buffer_size (pool_config pool)), received)\<rparr>,
            pool\<lparr>leased := (leased pool)[unat bid := True], outstanding_leases := n,
              outstanding_leases_peak := max (outstanding_leases_peak pool) n\<rparr>))"

definition Release :: "u16 \<Rightarrow> buffer_pool \<Rightarrow> buffer_pool option" where
  "Release bid pool =
    (if unat bid \<ge> unat (buffer_count (pool_config pool)) \<or> \<not> leased pool ! unat bid \<or>
        outstanding_leases pool = 0 then None
     else let p = Provide bid 0 pool
       in Some (p\<lparr>buffer_ring := io_uring_buf_ring_advance 1 (buffer_ring p),
            leased := (leased p)[unat bid := False], outstanding_leases := outstanding_leases p - 1\<rparr>))"

record buffer_pool_stats =
  stats_capacity :: nat
  stats_buffer_size :: nat
  stats_outstanding_leases :: nat
  stats_outstanding_leases_peak :: nat

definition Pool_SnapshotStats :: "bool \<Rightarrow> buffer_pool \<Rightarrow> buffer_pool_stats \<times> buffer_pool" where
  "Pool_SnapshotStats start_window pool =
    (let p = (if start_window then pool\<lparr>outstanding_leases_peak := outstanding_leases pool\<rparr> else pool)
     in (\<lparr>stats_capacity = unat (buffer_count (pool_config p)),
          stats_buffer_size = unat (buffer_size (pool_config p)),
          stats_outstanding_leases = outstanding_leases p,
          stats_outstanding_leases_peak = outstanding_leases_peak p\<rparr>, p))"

text \<open>The destructor of the pool.\<close>

definition destroy_pool :: "buffer_pool \<Rightarrow> unit option" where
  "destroy_pool pool = (if outstanding_leases pool \<noteq> 0 then None else Some ())"

section \<open>Leases\<close>

definition Reset :: "uring_buffer \<Rightarrow> buffer_pool \<Rightarrow> (uring_buffer \<times> buffer_pool) option" where
  "Reset b pool =
    (if \<not> has_pool b then Some (b, pool)
     else case Release (buffer_id b) pool of
       None \<Rightarrow> None
     | Some pool' \<Rightarrow> Some (b\<lparr>has_pool := False, span := (0, 0)\<rparr>, pool'))"

text \<open>Moving construction and the state it leaves the source in.\<close>

definition move_buffer :: "uring_buffer \<Rightarrow> uring_buffer \<times> uring_buffer" where
  "move_buffer other = (other, other\<lparr>has_pool := False, span := (0, 0)\<rparr>)"

text \<open>Moving assignment between different objects: the assigned object, its source and the pool.
  Assigning an object to itself does nothing.\<close>

definition assign_buffer ::
  "uring_buffer \<Rightarrow> uring_buffer \<Rightarrow> buffer_pool \<Rightarrow> (uring_buffer \<times> uring_buffer \<times> buffer_pool) option" where
  "assign_buffer this other pool =
    (case Reset this pool of
       None \<Rightarrow> None
     | Some (_, pool') \<Rightarrow> (case move_buffer other of (this', other') \<Rightarrow> Some (this', other', pool')))"

definition Bytes :: "uring_buffer \<Rightarrow> nat \<times> nat" where
  "Bytes b = span b"

definition Empty :: "uring_buffer \<Rightarrow> bool" where
  "Empty b \<longleftrightarrow> snd (span b) = 0"

section \<open>The pool, the kernel and the variables that hold leases\<close>

text \<open>\<open>kernel_head\<close> and \<open>selected\<close> belong to the kernel: the buffers of receives whose completions
  have not been taken yet, with the number of bytes received. \<open>leases\<close> are the C++ objects of type
  \<^verbatim>\<open>UringBuffer\<close>. \<open>pool_aborted\<close> records a call of \<^verbatim>\<open>Abort\<close>.\<close>

record buffer_system =
  pool :: buffer_pool
  kernel_head :: u16
  selected :: "(u16 \<times> nat) list"
  leases :: "uring_buffer list"
  pool_aborted :: bool

definition buffer_total :: "buffer_system \<Rightarrow> nat" where
  "buffer_total s = unat (buffer_count (pool_config (pool s)))"

definition kernel_buffer :: "buffer_system \<Rightarrow> ring_buffer" where
  "kernel_buffer s = bufs (buffer_ring (pool s)) ! (unat (kernel_head s) mod buffer_total s)"

definition take_completion :: "nat \<Rightarrow> buffer_system \<Rightarrow> buffer_system" where
  "take_completion k s =
    (case Acquire (fst (selected s ! k)) (snd (selected s ! k)) (pool s) of
       None \<Rightarrow> s\<lparr>pool_aborted := True\<rparr>
     | Some (b, p) \<Rightarrow> s\<lparr>pool := p, selected := take k (selected s) @ drop (Suc k) (selected s),
         leases := leases s @ [b]\<rparr>)"

definition move_lease :: "nat \<Rightarrow> buffer_system \<Rightarrow> buffer_system" where
  "move_lease i s = (case move_buffer (leases s ! i) of
     (b, other) \<Rightarrow> s\<lparr>leases := (leases s)[i := other] @ [b]\<rparr>)"

definition assign_lease :: "nat \<Rightarrow> nat \<Rightarrow> buffer_system \<Rightarrow> buffer_system" where
  "assign_lease i j s =
    (if i = j then s
     else case assign_buffer (leases s ! i) (leases s ! j) (pool s) of
       None \<Rightarrow> s\<lparr>pool_aborted := True\<rparr>
     | Some (b, other, p) \<Rightarrow> s\<lparr>pool := p, leases := (leases s)[i := b, j := other]\<rparr>)"

definition reset_lease :: "nat \<Rightarrow> buffer_system \<Rightarrow> buffer_system" where
  "reset_lease i s =
    (case Reset (leases s ! i) (pool s) of
       None \<Rightarrow> s\<lparr>pool_aborted := True\<rparr>
     | Some (b, p) \<Rightarrow> s\<lparr>pool := p, leases := (leases s)[i := b]\<rparr>)"

text \<open>A destroyed object is left behind empty.\<close>

definition destroy_lease :: "nat \<Rightarrow> buffer_system \<Rightarrow> buffer_system" where
  "destroy_lease i s = reset_lease i s"

inductive buffer_step :: "buffer_system \<Rightarrow> buffer_system \<Rightarrow> bool" where
  kernel_selects: "kernel_head s \<noteq> ring_tail (buffer_ring (pool s)) \<Longrightarrow> n \<le> rb_length (kernel_buffer s) \<Longrightarrow>
    buffer_step s (s\<lparr>selected := selected s @ [(rb_id (kernel_buffer s), n)], kernel_head := kernel_head s + 1\<rparr>)"
| completion_taken: "k < length (selected s) \<Longrightarrow> buffer_step s (take_completion k s)"
| lease_moved: "i < length (leases s) \<Longrightarrow> buffer_step s (move_lease i s)"
| lease_assigned: "i < length (leases s) \<Longrightarrow> j < length (leases s) \<Longrightarrow> buffer_step s (assign_lease i j s)"
| lease_reset: "i < length (leases s) \<Longrightarrow> buffer_step s (reset_lease i s)"
| lease_destroyed: "i < length (leases s) \<Longrightarrow> buffer_step s (destroy_lease i s)"
| stats_taken: "buffer_step s (s\<lparr>pool := snd (Pool_SnapshotStats start_window (pool s))\<rparr>)"

inductive buffer_reach :: "buffer_pool_config \<Rightarrow> buffer_system \<Rightarrow> bool" for config where
  pool_registered: "Pool_Register message None config = Value p \<Longrightarrow>
    buffer_reach config \<lparr>pool = p, kernel_head = 0, selected = [], leases = [], pool_aborted = False\<rparr>"
| pool_next: "buffer_reach config s \<Longrightarrow> buffer_step s s' \<Longrightarrow> buffer_reach config s'"

section \<open>What a valid configuration means\<close>

lemma power_of_two_test:
  assumes "x \<noteq> (0 :: nat)"
  shows "x AND (x - 1) = 0 \<longleftrightarrow> (\<exists>k. x = 2 ^ k)"
proof
  assume z: "x AND (x - 1) = 0"
  obtain k where k: "2 ^ k \<le> x" "x < 2 ^ (k + 1)" using ex_power_ivl1[of 2 x] assms by auto
  show "\<exists>k. x = 2 ^ k"
  proof (rule ccontr)
    assume "\<not> (\<exists>k. x = 2 ^ k)"
    then have "2 ^ k \<noteq> x" by auto
    then have lt: "2 ^ k \<le> x - 1" using k(1) by linarith
    have bit_top: "bit y k" if "2 ^ k \<le> y" "y < 2 ^ (k + 1)" for y :: nat
    proof -
      have "y div 2 ^ k = 1" using that by (simp add: div_nat_eqI)
      then show ?thesis by (simp add: bit_iff_odd)
    qed
    have "bit (x AND (x - 1)) k" using bit_top[OF k] bit_top[OF lt] k(2) by (simp add: bit_and_iff)
    then show False using z by simp
  qed
next
  assume "\<exists>k. x = 2 ^ k"
  then obtain k where "x = 2 ^ k" by blast
  then have "x AND (x - 1) = take_bit k (2 ^ k)" by (simp add: take_bit_eq_mask mask_eq_exp_minus_1)
  then show "x AND (x - 1) = 0" by (simp add: take_bit_eq_mod)
qed

lemma unat_and_pred: "x \<noteq> (0 :: u32) \<Longrightarrow> unat (x AND (x - 1)) = unat x AND (unat x - 1)"
  by (simp add: unsigned_and_eq unat_minus_one)

lemma ValidateConfig_ok:
  "status_ok (ValidateConfig config) \<longleftrightarrow>
     buffer_size config \<noteq> 0 \<and> (\<exists>k\<le>15. unat (buffer_count config) = 2 ^ k)"
proof -
  let ?c = "buffer_count config" and ?s = "buffer_size config"
  have size: "unat ?c \<le> SIZE_MAX div unat ?s" if "?s \<noteq> 0"
  proof -
    have "unat w < 2 ^ LENGTH(32)" for w :: u32 by (rule unsigned_less)
    then have "unat w \<le> 2 ^ 32 - 1" for w :: u32 by (simp add: less_Suc_eq_le[symmetric])
    then have "unat ?c * unat ?s \<le> (2 ^ 32 - 1) * (2 ^ 32 - 1)" by (intro mult_le_mono)
    also have "\<dots> \<le> SIZE_MAX" by simp
    finally show ?thesis using that by (simp add: less_eq_div_iff_mult_less_eq unat_gt_0)
  qed
  have pow: "?c \<noteq> 0 \<and> ?c AND (?c - 1) = 0 \<longleftrightarrow> (\<exists>k. unat ?c = 2 ^ k)"
  proof (cases "?c = 0")
    case False
    then have nz: "unat ?c \<noteq> 0" by (simp add: unat_eq_0)
    have "?c AND (?c - 1) = 0 \<longleftrightarrow> unat (?c AND (?c - 1)) = 0" by (simp only: unat_eq_0)
    then show ?thesis using False power_of_two_test[OF nz] unat_and_pred[OF False] by simp
  qed simp
  have "?c \<le> MAX_BUFFER_COUNT \<longleftrightarrow> unat ?c \<le> 2 ^ 15"
    by (simp add: word_le_nat_alt MAX_BUFFER_COUNT_def)
  then have "?c \<noteq> 0 \<and> ?c AND (?c - 1) = 0 \<and> ?c \<le> MAX_BUFFER_COUNT \<longleftrightarrow> (\<exists>k\<le>15. unat ?c = 2 ^ k)"
    using pow power_increasing_iff[of "2 :: nat" _ 15] by (auto simp del: power_increasing_iff)
  then show ?thesis using size by (auto simp: ValidateConfig_def not_less)
qed

lemma mask_mod:
  assumes "c = 2 ^ k"
  shows "(n :: nat) AND io_uring_buf_ring_mask c = n mod c"
proof -
  have "n AND (2 ^ k - 1) = take_bit k n" by (simp add: take_bit_eq_mask mask_eq_exp_minus_1)
  then show ?thesis using assms by (simp add: io_uring_buf_ring_mask_def take_bit_eq_mod)
qed

lemma tail_mod:
  assumes "c = 2 ^ k" "k \<le> 15"
  shows "unat (w + of_nat n :: u16) mod c = (unat w + n) mod c"
proof -
  have "c dvd 2 ^ 16" unfolding assms(1) using assms(2) by (intro le_imp_power_dvd) simp
  then show ?thesis by (simp add: unat_word_ariths mod_mod_cancel unat_of_nat mod_simps)
qed

section \<open>The buffers the kernel can take\<close>

definition available :: "buffer_system \<Rightarrow> ring_buffer list" where
  "available s = map (\<lambda>i. bufs (buffer_ring (pool s)) ! ((unat (kernel_head s) + i) mod buffer_total s))
     [0..<unat (ring_tail (buffer_ring (pool s)) - kernel_head s)]"

definition valid_ring :: "buffer_system \<Rightarrow> bool" where
  "valid_ring s \<longleftrightarrow> (\<exists>k\<le>15. buffer_total s = 2 ^ k) \<and> length (bufs (buffer_ring (pool s))) = buffer_total s"

lemma buffer_total_pos: "valid_ring s \<Longrightarrow> 0 < buffer_total s"
  by (auto simp: valid_ring_def)

text \<open>One more buffer at the tail, while there is room.\<close>

lemma available_provide:
  assumes "valid_ring s" "length (available s) < buffer_total s" and p: "pool_config p = pool_config (pool s)"
    and r: "buffer_ring p = io_uring_buf_ring_advance 1
      (io_uring_buf_ring_add b (io_uring_buf_ring_mask (buffer_total s)) 0 (buffer_ring (pool s)))"
    and s': "pool s' = p" "kernel_head s' = kernel_head s"
  shows "available s' = available s @ [b]" "valid_ring s'"
proof -
  let ?h = "kernel_head s" and ?t = "ring_tail (buffer_ring (pool s))" and ?c = "buffer_total s"
  let ?n = "unat (?t - ?h)"
  obtain k where k: "?c = 2 ^ k" "k \<le> 15" using assms(1) by (auto simp: valid_ring_def)
  have c: "buffer_total s' = ?c" using p s' by (simp add: buffer_total_def)
  have n: "?n < ?c" using assms(2) by (simp add: available_def)
  have "?c \<le> 2 ^ 15" unfolding k(1) using k(2) by (intro power_increasing) simp_all
  then have "?n + 1 < 2 ^ 16" using n by simp
  then have "unat ((?t - ?h) + 1) = ?n + 1" by (simp add: unat_word_ariths)
  then have tail: "unat (?t + 1 - ?h) = ?n + 1" by (simp add: algebra_simps)
  have "unat (?h + of_nat ?n) mod ?c = (unat ?h + ?n) mod ?c" by (rule tail_mod[OF k])
  then have slot: "unat ?t mod ?c = (unat ?h + ?n) mod ?c" by simp
  have bufs: "bufs (buffer_ring p) = (bufs (buffer_ring (pool s)))[unat ?t mod ?c := b]"
    using r by (simp add: io_uring_buf_ring_advance_def io_uring_buf_ring_add_def mask_mod[OF k(1)])
  have other: "(unat ?h + i) mod ?c \<noteq> unat ?t mod ?c" if "i < ?n" for i
  proof
    assume "(unat ?h + i) mod ?c = unat ?t mod ?c"
    then have "(unat ?h + i) mod ?c = (unat ?h + ?n) mod ?c" using slot by simp
    then have "i mod ?c = ?n mod ?c" by (simp add: mod_eq_iff_dvd_symdiff_nat add_diff_cancel_left)
    then show False using that n by simp
  qed
  have len: "unat ?t mod ?c < length (bufs (buffer_ring (pool s)))"
    using assms(1) buffer_total_pos[OF assms(1)] by (simp add: valid_ring_def)
  have "ring_tail (buffer_ring p) = ?t + 1"
    using r by (simp add: io_uring_buf_ring_advance_def io_uring_buf_ring_add_def)
  then show "available s' = available s @ [b]"
    using tail slot bufs other[THEN not_sym] len s' c by (auto simp: available_def)
  show "valid_ring s'" using assms(1) bufs s' c by (simp add: valid_ring_def)
qed

text \<open>The kernel takes the first available buffer.\<close>

lemma available_take:
  assumes "valid_ring s" "kernel_head s \<noteq> ring_tail (buffer_ring (pool s))"
    "pool s' = pool s" "kernel_head s' = kernel_head s + 1"
  shows "available s = kernel_buffer s # available s'" "valid_ring s'"
proof -
  let ?h = "kernel_head s" and ?t = "ring_tail (buffer_ring (pool s))" and ?c = "buffer_total s"
  obtain k where k: "?c = 2 ^ k" "k \<le> 15" using assms(1) by (auto simp: valid_ring_def)
  have c: "buffer_total s' = ?c" using assms(3) by (simp add: buffer_total_def)
  have nz: "?t - ?h \<noteq> 0" using assms(2) by simp
  have e: "?t - (?h + 1) = (?t - ?h) - 1" by simp
  have "0 < unat (?t - ?h)" using nz by (simp add: unat_gt_0)
  then have n: "unat (?t - ?h) = Suc (unat (?t - (?h + 1)))" unfolding e unat_minus_one[OF nz] by simp
  have "(unat (?h + 1) + i) mod ?c = (unat ?h + Suc i) mod ?c" for i
    using tail_mod[OF k, of ?h 1] mod_add_cong[of "unat (?h + 1)" ?c "unat ?h + 1" i i] by simp
  then show "available s = kernel_buffer s # available s'"
    using assms(3,4) c by (simp add: available_def kernel_buffer_def n upt_conv_Cons flip: map_Suc_upt del: upt_Suc)
  show "valid_ring s'" using assms(1,3) c by (simp add: valid_ring_def)
qed

section \<open>The owner of every buffer\<close>

definition lease_bag :: "uring_buffer list \<Rightarrow> (u16 \<times> nat \<times> nat) multiset" where
  "lease_bag vs = list_total (\<lambda>v. if has_pool v then {#(buffer_id v, span v)#} else {#}) vs"

definition all_ids :: "buffer_system \<Rightarrow> u16 multiset" where
  "all_ids s = mset (map rb_id (available s)) + mset (map fst (selected s)) + image_mset fst (lease_bag (leases s))"

definition buffer_inv :: "buffer_pool_config \<Rightarrow> buffer_system \<Rightarrow> bool" where
  "buffer_inv config s \<longleftrightarrow> pool_config (pool s) = config \<and> valid_ring s \<and> \<not> pool_aborted s \<and>
    all_ids s = mset (map of_nat [0..<buffer_total s]) \<and>
    (\<forall>b\<in>set (available s). rb_length b = unat (buffer_size config) \<and>
       rb_address b = unat (rb_id b) * unat (buffer_size config)) \<and>
    (\<forall>(i, n)\<in>set (selected s). n \<le> unat (buffer_size config)) \<and>
    (\<forall>(i, start, n)\<in>#lease_bag (leases s). start = unat i * unat (buffer_size config) \<and>
       n \<le> unat (buffer_size config)) \<and>
    length (leased (pool s)) = buffer_total s \<and>
    (\<forall>i<buffer_total s. leased (pool s) ! i \<longleftrightarrow> of_nat i \<in># image_mset fst (lease_bag (leases s))) \<and>
    outstanding_leases (pool s) = size (lease_bag (leases s)) \<and>
    outstanding_leases (pool s) \<le> outstanding_leases_peak (pool s) \<and>
    storage_size (pool s) = buffer_total s * unat (buffer_size config)"

lemma buffer_total_le: "valid_ring s \<Longrightarrow> buffer_total s \<le> 2 ^ 15"
  using power_increasing[of _ 15 "2 :: nat"] by (fastforce simp: valid_ring_def)

lemma of_nat_id: "valid_ring s \<Longrightarrow> i < buffer_total s \<Longrightarrow> unat (of_nat i :: u16) = i"
  using buffer_total_le[of s] by (simp add: unat_of_nat)

lemma all_ids_facts:
  assumes "buffer_inv config s"
  shows "size (all_ids s) = buffer_total s" "x \<in># all_ids s \<Longrightarrow> unat x < buffer_total s" "count (all_ids s) x \<le> 1"
proof -
  have v: "valid_ring s" and a: "all_ids s = mset (map of_nat [0..<buffer_total s])"
    using assms by (auto simp: buffer_inv_def)
  show "size (all_ids s) = buffer_total s" by (simp add: a)
  show "x \<in># all_ids s \<Longrightarrow> unat x < buffer_total s" using of_nat_id[OF v] by (auto simp: a)
  have "distinct (map of_nat [0..<buffer_total s] :: u16 list)"
    using of_nat_id[OF v] by (auto simp: distinct_map inj_on_def) metis
  then show "count (all_ids s) x \<le> 1" by (simp add: a distinct_count_atmost_1)
qed

lemma one_owner:
  assumes "buffer_inv config s" "x \<in># A" "x \<in># B" "A + B \<subseteq># all_ids s"
  shows False
proof -
  have "0 < count A x" "0 < count B x" using assms(2,3) by simp_all
  moreover have "count (A + B) x \<le> count (all_ids s) x" using assms(4) by (rule mset_subset_eq_count)
  ultimately show False using all_ids_facts(3)[OF assms(1), of x] unfolding count_union by linarith
qed

lemma lease_bag_update:
  assumes "i < length vs"
  shows "lease_bag (vs[i := v]) + (if has_pool (vs ! i) then {#(buffer_id (vs ! i), span (vs ! i))#} else {#}) =
    lease_bag vs + (if has_pool v then {#(buffer_id v, span v)#} else {#})"
  unfolding lease_bag_def by (rule list_total_update[OF assms])

lemma lease_bag_append [simp]: "lease_bag (vs @ ws) = lease_bag vs + lease_bag ws"
  by (simp add: lease_bag_def)

lemma lease_bag_single [simp]: "lease_bag [v] = (if has_pool v then {#(buffer_id v, span v)#} else {#})"
  by (simp add: lease_bag_def)

text \<open>The invariant only looks at the leases through their bag.\<close>

lemma buffer_inv_bag:
  assumes "buffer_inv config s" "lease_bag vs = lease_bag (leases s)"
  shows "buffer_inv config (s\<lparr>leases := vs\<rparr>)"
proof -
  have "available (s\<lparr>leases := vs\<rparr>) = available s" "valid_ring (s\<lparr>leases := vs\<rparr>) = valid_ring s"
      "buffer_total (s\<lparr>leases := vs\<rparr>) = buffer_total s"
    by (simp_all add: available_def valid_ring_def buffer_total_def)
  then show ?thesis using assms by (simp add: buffer_inv_def all_ids_def)
qed

lemma Acquire_ok:
  assumes inv: "buffer_inv config s" and k: "k < length (selected s)"
  shows "buffer_inv config (take_completion k s)"
proof -
  obtain bid n where sel: "selected s ! k = (bid, n)" by fastforce
  have mem: "(bid, n) \<in> set (selected s)" using nth_mem[OF k] sel by simp
  note f = all_ids_facts[OF inv]
  have sel_id: "bid \<in># mset (map fst (selected s))" using mem by force
  then have lt: "unat bid < buffer_total s" using f(2) by (auto simp: all_ids_def)
  have "bid \<notin># image_mset fst (lease_bag (leases s))"
    by (rule notI, rule one_owner[OF inv sel_id], assumption) (simp add: all_ids_def)
  moreover have "leased (pool s) ! unat bid \<longleftrightarrow> of_nat (unat bid) \<in># image_mset fst (lease_bag (leases s))"
    using inv lt by (simp add: buffer_inv_def)
  ultimately have free: "\<not> leased (pool s) ! unat bid" by simp
  have n: "n \<le> unat (buffer_size config)" using inv mem by (auto simp: buffer_inv_def)
  let ?b = "\<lparr>has_pool = True, buffer_id = bid, span = (unat bid * unat (buffer_size config), n)\<rparr>"
  let ?o = "outstanding_leases (pool s) + 1"
  let ?p = "(pool s)\<lparr>leased := (leased (pool s))[unat bid := True], outstanding_leases := ?o,
    outstanding_leases_peak := max (outstanding_leases_peak (pool s)) ?o\<rparr>"
  let ?s = "s\<lparr>pool := ?p, selected := take k (selected s) @ drop (Suc k) (selected s), leases := leases s @ [?b]\<rparr>"
  have eq: "take_completion k s = ?s"
    using sel lt free n inv by (simp add: take_completion_def Acquire_def buffer_total_def buffer_inv_def Let_def)
  have av: "available ?s = available s" "valid_ring ?s = valid_ring s" "buffer_total ?s = buffer_total s"
    by (simp_all add: available_def valid_ring_def buffer_total_def)
  have "mset (map fst (selected s)) = mset (map fst (take k (selected s) @ selected s ! k # drop (Suc k) (selected s)))"
    using id_take_nth_drop[OF k] by simp
  then have ids: "all_ids ?s = all_ids s" unfolding all_ids_def av by (simp add: sel)
  have sub: "set (selected ?s) \<subseteq> set (selected s)"
    using set_take_subset[of k "selected s"] set_drop_subset[of "Suc k" "selected s"] by auto
  have flag: "leased ?p ! i \<longleftrightarrow> of_nat i \<in># image_mset fst (lease_bag (leases ?s))" if "i < buffer_total s" for i
    using inv that of_nat_id[of s i] lt by (cases "i = unat bid") (auto simp: buffer_inv_def)
  show ?thesis unfolding eq buffer_inv_def
    using inv ids av sub flag n by (auto simp: buffer_inv_def)
qed

lemma Release_ok:
  assumes inv: "buffer_inv config s" and i: "i < length (leases s)" "has_pool (leases s ! i)" and v: "\<not> has_pool v"
  shows "\<exists>p. Release (buffer_id (leases s ! i)) (pool s) = Some p \<and>
    buffer_inv config (s\<lparr>pool := p, leases := (leases s)[i := v]\<rparr>)"
proof -
  let ?l = "leases s ! i"
  let ?bid = "buffer_id ?l" and ?vs = "(leases s)[i := v]"
  note f = all_ids_facts[OF inv]
  have bag: "lease_bag (leases s) = add_mset (?bid, span ?l) (lease_bag ?vs)"
    using lease_bag_update[OF i(1), of v] i(2) v by simp
  then have held: "?bid \<in># image_mset fst (lease_bag (leases s))" by simp
  then have lt: "unat ?bid < buffer_total s" using f(2) by (auto simp: all_ids_def)
  have flag: "leased (pool s) ! unat ?bid" using inv lt held by (simp add: buffer_inv_def)
  let ?b = "\<lparr>rb_address = unat ?bid * unat (buffer_size config), rb_length = unat (buffer_size config), rb_id = ?bid\<rparr>"
  let ?p0 = "Provide ?bid 0 (pool s)"
  let ?p = "?p0\<lparr>buffer_ring := io_uring_buf_ring_advance 1 (buffer_ring ?p0),
    leased := (leased ?p0)[unat ?bid := False], outstanding_leases := outstanding_leases ?p0 - 1\<rparr>"
  let ?s = "s\<lparr>pool := ?p, leases := ?vs\<rparr>"
  have cfg: "pool_config (pool s) = config" and ring: "valid_ring s" using inv by (auto simp: buffer_inv_def)
  have out: "outstanding_leases (pool s) \<noteq> 0" using inv bag by (simp add: buffer_inv_def)
  have rel: "Release ?bid (pool s) = Some ?p"
    using lt flag out by (simp add: Release_def buffer_total_def Let_def)
  have "length (available s) < buffer_total s" using f(1) bag by (simp add: all_ids_def)
  note av = available_provide[OF ring this, of ?p ?b ?s]
  have avail: "available ?s = available s @ [?b]" "valid_ring ?s"
    using av by (simp_all add: Provide_def cfg buffer_total_def Let_def)
  have cnt: "buffer_total ?s = buffer_total s" by (simp add: buffer_total_def Provide_def Let_def)
  have ids: "all_ids ?s = all_ids s" unfolding all_ids_def avail(1) by (simp add: bag)
  have once: "?bid \<notin># image_mset fst (lease_bag ?vs)"
    by (rule notI, rule one_owner[OF inv, of ?bid "{#?bid#}"], simp, assumption) (simp add: all_ids_def bag)
  have flags: "leased ?p ! j \<longleftrightarrow> of_nat j \<in># image_mset fst (lease_bag ?vs)" if "j < buffer_total s" for j
  proof (cases "j = unat ?bid")
    case True
    then show ?thesis using once lt inv by (simp add: Provide_def Let_def buffer_inv_def)
  next
    case False
    then have "of_nat j \<noteq> ?bid" using of_nat_id[OF ring that] by auto
    then show ?thesis using inv that False bag by (auto simp: Provide_def Let_def buffer_inv_def)
  qed
  have "buffer_inv config ?s"
    unfolding buffer_inv_def
    using inv ids avail cnt flags bag by (auto simp: buffer_inv_def Provide_def Let_def)
  then show ?thesis using rel by blast
qed

lemma reset_ok:
  assumes inv: "buffer_inv config s" and i: "i < length (leases s)"
  shows "buffer_inv config (reset_lease i s)" "\<exists>b p. Reset (leases s ! i) (pool s) = Some (b, p) \<and> \<not> has_pool b"
proof -
  let ?v = "leases s ! i"
  have "\<exists>b p. Reset ?v (pool s) = Some (b, p) \<and> \<not> has_pool b \<and>
      buffer_inv config (s\<lparr>pool := p, leases := (leases s)[i := b]\<rparr>)"
  proof (cases "has_pool ?v")
    case True
    from Release_ok[OF inv i True, of "?v\<lparr>has_pool := False, span := (0, 0)\<rparr>"] True
    show ?thesis by (auto simp: Reset_def)
  next
    case False
    then show ?thesis using inv by (simp add: Reset_def)
  qed
  then show "buffer_inv config (reset_lease i s)" "\<exists>b p. Reset ?v (pool s) = Some (b, p) \<and> \<not> has_pool b"
    by (auto simp: reset_lease_def)
qed

lemma move_ok:
  assumes "buffer_inv config s" "i < length (leases s)"
  shows "buffer_inv config (move_lease i s)"
  using lease_bag_update[OF assms(2), of "(leases s ! i)\<lparr>has_pool := False, span := (0, 0)\<rparr>"]
  by (auto simp: move_lease_def move_buffer_def intro!: buffer_inv_bag[OF assms(1)] split: if_splits)

lemma assign_ok:
  assumes inv: "buffer_inv config s" and i: "i < length (leases s)" "j < length (leases s)"
  shows "buffer_inv config (assign_lease i j s)"
proof (cases "i = j")
  case True
  then show ?thesis using inv by (simp add: assign_lease_def)
next
  case False
  obtain b p where r: "Reset (leases s ! i) (pool s) = Some (b, p)" "\<not> has_pool b" using reset_ok(2)[OF inv i(1)] by blast
  let ?s = "s\<lparr>pool := p, leases := (leases s)[i := b]\<rparr>"
  have inv': "buffer_inv config ?s" using reset_ok(1)[OF inv i(1)] r(1) by (simp add: reset_lease_def)
  let ?src = "leases s ! j" let ?moved = "?src\<lparr>has_pool := False, span := (0, 0)\<rparr>"
  let ?vs = "(leases s)[i := b]"
  have at_j: "?vs[i := ?src] ! j = ?src" using False i by simp
  have "lease_bag (?vs[i := ?src]) = lease_bag ?vs + (if has_pool ?src then {#(buffer_id ?src, span ?src)#} else {#})"
    using lease_bag_update[of i ?vs ?src] i r(2) by simp
  moreover have "lease_bag (?vs[i := ?src, j := ?moved]) +
      (if has_pool ?src then {#(buffer_id ?src, span ?src)#} else {#}) = lease_bag (?vs[i := ?src])"
    using lease_bag_update[of j "?vs[i := ?src]" ?moved] i False unfolding at_j by simp
  ultimately have "lease_bag (?vs[i := ?src, j := ?moved]) = lease_bag ?vs" by simp
  from buffer_inv_bag[OF inv', of "?vs[i := ?src, j := ?moved]"] this show ?thesis
    using False r(1) by (simp add: assign_lease_def assign_buffer_def move_buffer_def)
qed

lemma select_ok:
  assumes inv: "buffer_inv config s" and h: "kernel_head s \<noteq> ring_tail (buffer_ring (pool s))"
    and n: "n \<le> rb_length (kernel_buffer s)"
  shows "buffer_inv config (s\<lparr>selected := selected s @ [(rb_id (kernel_buffer s), n)], kernel_head := kernel_head s + 1\<rparr>)"
proof -
  let ?s = "s\<lparr>selected := selected s @ [(rb_id (kernel_buffer s), n)], kernel_head := kernel_head s + 1\<rparr>"
  have ring: "valid_ring s" using inv by (simp add: buffer_inv_def)
  have av: "available s = kernel_buffer s # available ?s" "valid_ring ?s"
    using available_take[OF ring h, of ?s] by simp_all
  have cnt: "buffer_total ?s = buffer_total s" by (simp add: buffer_total_def)
  have "all_ids ?s = all_ids s" unfolding all_ids_def av(1) by simp
  moreover have "n \<le> unat (buffer_size config)" "set (available ?s) \<subseteq> set (available s)"
    using inv n av(1) by (auto simp: buffer_inv_def)
  ultimately show ?thesis using inv av(2) cnt unfolding buffer_inv_def by auto
qed

lemma buffer_step_ok:
  assumes "buffer_step s s'" "buffer_inv config s"
  shows "buffer_inv config s'"
  using assms(1)
proof cases
  case (stats_taken start_window)
  have "available s' = available s" "valid_ring s' = valid_ring s" "buffer_total s' = buffer_total s"
    by (simp_all add: stats_taken available_def valid_ring_def buffer_total_def Pool_SnapshotStats_def Let_def)
  then show ?thesis
    using assms(2) by (auto simp: buffer_inv_def all_ids_def stats_taken Pool_SnapshotStats_def Let_def)
qed (use assms(2) in \<open>simp_all add: select_ok Acquire_ok move_ok assign_ok reset_ok destroy_lease_def\<close>)

section \<open>Registration\<close>

definition registered_buffer :: "buffer_pool_config \<Rightarrow> nat \<Rightarrow> ring_buffer" where
  "registered_buffer config i = \<lparr>rb_address = unat (of_nat i :: u16) * unat (buffer_size config),
     rb_length = unat (buffer_size config), rb_id = of_nat i\<rparr>"

lemma provide_all_append: "provide_all (xs @ ys) p = provide_all ys (provide_all xs p)"
  by (induction xs arbitrary: p) simp_all

lemma provide_all_bufs:
  assumes "unat (buffer_count (pool_config p)) = 2 ^ k" "n \<le> 2 ^ k"
    "length (bufs (buffer_ring p)) = 2 ^ k" "ring_tail (buffer_ring p) = 0"
  shows "provide_all [0..<n] p = p\<lparr>buffer_ring := (buffer_ring p)\<lparr>bufs :=
    map (registered_buffer (pool_config p)) [0..<n] @ drop n (bufs (buffer_ring p))\<rparr>\<rparr>"
  using assms(2)
proof (induction n)
  case (Suc n)
  let ?bs = "map (registered_buffer (pool_config p)) [0..<n] @ drop n (bufs (buffer_ring p))"
  have ih: "provide_all [0..<n] p = p\<lparr>buffer_ring := (buffer_ring p)\<lparr>bufs := ?bs\<rparr>\<rparr>" using Suc by simp
  have "n AND io_uring_buf_ring_mask (2 ^ k) = n" using mask_mod[OF refl, of n k] Suc.prems by simp
  moreover have "?bs[n := x] = map (registered_buffer (pool_config p)) [0..<n] @ [x] @ drop (Suc n) (bufs (buffer_ring p))" for x
    using Suc.prems assms(3) by (simp add: list_update_append Cons_nth_drop_Suc[symmetric])
  ultimately show ?case
    using assms(1,4)
    by (simp add: provide_all_append ih Provide_def io_uring_buf_ring_add_def registered_buffer_def Let_def)
qed simp

lemma Pool_Register_ok:
  assumes "Pool_Register message None config = Value p"
  shows "buffer_inv config \<lparr>pool = p, kernel_head = 0, selected = [], leases = [], pool_aborted = False\<rparr>"
proof -
  let ?s = "\<lparr>pool = p, kernel_head = 0, selected = [], leases = [], pool_aborted = False\<rparr>"
  define c where "c = unat (buffer_count config)"
  have "status_ok (ValidateConfig config)" using assms by (auto simp: Pool_Register_def split: if_splits)
  then obtain k where k: "k \<le> 15" "c = 2 ^ k" by (auto simp: ValidateConfig_ok c_def)
  have p: "pool_config p = config" "bufs (buffer_ring p) = map (registered_buffer config) [0..<c]"
      "ring_tail (buffer_ring p) = of_nat c" "leased p = replicate c False" "outstanding_leases p = 0"
      "storage_size p = c * unat (buffer_size config)"
    using assms k by (auto simp: Pool_Register_def c_def[symmetric] provide_all_bufs[where k = k] io_uring_buf_ring_advance_def Let_def
        split: if_splits)
  have cnt: "buffer_total ?s = c" by (simp add: buffer_total_def p c_def)
  have ring: "valid_ring ?s" using k by (auto simp: valid_ring_def cnt p)
  have "unat (of_nat c :: u16) = c" using buffer_total_le[OF ring] cnt by (simp add: unat_of_nat)
  then have av: "available ?s = map (registered_buffer config) [0..<c]"
    unfolding available_def cnt by (simp add: p)
  have "all_ids ?s = mset (map of_nat [0..<c])"
    unfolding all_ids_def av by (simp add: lease_bag_def registered_buffer_def comp_def)
  then show ?thesis
    unfolding buffer_inv_def av cnt using ring
    by (auto simp: p registered_buffer_def lease_bag_def)
qed

theorem buffer_invariant: "buffer_reach config s \<Longrightarrow> buffer_inv config s"
  by (induction rule: buffer_reach.induct) (auto intro: Pool_Register_ok buffer_step_ok)

section \<open>Properties\<close>

lemma lease_bag_filter:
  "image_mset fst (lease_bag vs) = mset (map buffer_id (filter has_pool vs))"
  "size (lease_bag vs) = length (filter has_pool vs)"
  "v \<in> set (filter has_pool vs) \<Longrightarrow> (buffer_id v, span v) \<in># lease_bag vs"
  by (induction vs) (auto simp: lease_bag_def)

lemma lease_distinct:
  assumes "buffer_inv config s" "i < length (leases s)" "j < length (leases s)" "i \<noteq> j"
    "has_pool (leases s ! i)" "has_pool (leases s ! j)"
  shows "buffer_id (leases s ! i) \<noteq> buffer_id (leases s ! j)"
proof
  let ?v = "leases s ! i" let ?vs = "(leases s)[i := ?v\<lparr>has_pool := False\<rparr>]"
  assume eq: "buffer_id ?v = buffer_id (leases s ! j)"
  have bag: "lease_bag (leases s) = add_mset (buffer_id ?v, span ?v) (lease_bag ?vs)"
    using lease_bag_update[OF assms(2), of "?v\<lparr>has_pool := False\<rparr>"] assms(5) by simp
  have "leases s ! j = ?vs ! j" using assms(3,4) by simp
  then have "leases s ! j \<in> set (filter has_pool ?vs)" using assms(3,6) nth_mem[of j ?vs] by simp
  from lease_bag_filter(3)[OF this] have "buffer_id ?v \<in># image_mset fst (lease_bag ?vs)" using eq by force
  from one_owner[OF assms(1) _ this, of "{#buffer_id ?v#}"] show False by (simp add: all_ids_def bag)
qed

lemma lease_span:
  assumes inv: "buffer_inv config s" and v: "v \<in> set (filter has_pool (leases s))"
  shows "fst (span v) = unat (buffer_id v) * unat (buffer_size config)" "snd (span v) \<le> unat (buffer_size config)"
    "unat (buffer_id v) < buffer_total s"
proof -
  have mem: "(buffer_id v, span v) \<in># lease_bag (leases s)" by (rule lease_bag_filter(3)[OF v])
  have "\<forall>(i, start, n)\<in>#lease_bag (leases s). start = unat i * unat (buffer_size config) \<and>
      n \<le> unat (buffer_size config)" using inv unfolding buffer_inv_def by blast
  from bspec[OF this mem] show "fst (span v) = unat (buffer_id v) * unat (buffer_size config)"
    "snd (span v) \<le> unat (buffer_size config)" by (cases "span v", simp)+
  have "buffer_id v \<in># image_mset fst (lease_bag (leases s))" using imageI[OF mem, of fst] by simp
  then show "unat (buffer_id v) < buffer_total s" by (intro all_ids_facts(2)[OF inv]) (simp add: all_ids_def)
qed

text \<open>C16. In every reachable state of a registered pool (the kernel filling any available buffer, completions
  taken in any order, leases moved, assigned, reset and destroyed in any order) every buffer has exactly
  one owner: the ring, a completion that has not been taken, or one lease. No call aborts, the count of
  outstanding leases is exact, every lease lies inside the storage, and two leases never overlap.\<close>

theorem provided_buffers_partitioned:
  assumes "buffer_reach config s"
  shows "\<not> pool_aborted s \<and>
    mset (map rb_id (available s)) + mset (map fst (selected s)) +
      mset (map buffer_id (filter has_pool (leases s))) = mset (map of_nat [0..<unat (buffer_count config)]) \<and>
    outstanding_leases (pool s) = length (filter has_pool (leases s)) \<and>
    outstanding_leases (pool s) \<le> outstanding_leases_peak (pool s) \<and>
    (\<forall>v\<in>set (filter has_pool (leases s)). fst (Bytes v) + snd (Bytes v) \<le> storage_size (pool s)) \<and>
    (\<forall>i<length (leases s). \<forall>j<length (leases s). i \<noteq> j \<and> has_pool (leases s ! i) \<and> has_pool (leases s ! j) \<longrightarrow>
       fst (Bytes (leases s ! i)) + snd (Bytes (leases s ! i)) \<le> fst (Bytes (leases s ! j)) \<or>
       fst (Bytes (leases s ! j)) + snd (Bytes (leases s ! j)) \<le> fst (Bytes (leases s ! i)))"
proof -
  note inv = buffer_invariant[OF assms]
  let ?z = "unat (buffer_size config)"
  have sp: "fst (span v) = unat (buffer_id v) * ?z" "snd (span v) \<le> ?z" "unat (buffer_id v) < buffer_total s"
    if "v \<in> set (filter has_pool (leases s))" for v
    using lease_span[OF inv that] by auto
  have slot: "fst (span v) + snd (span v) \<le> m * ?z"
    if "v \<in> set (filter has_pool (leases s))" "unat (buffer_id v) < m" for v m
  proof -
    have "fst (span v) + snd (span v) \<le> (unat (buffer_id v) + 1) * ?z" using sp(1,2)[OF that(1)] by simp
    also have "\<dots> \<le> m * ?z" using that(2) by (intro mult_le_mono1) simp
    finally show ?thesis .
  qed
  have apart: "fst (span v) + snd (span v) \<le> fst (span w) \<or> fst (span w) + snd (span w) \<le> fst (span v)"
    if "v \<in> set (filter has_pool (leases s))" "w \<in> set (filter has_pool (leases s))" "buffer_id v \<noteq> buffer_id w" for v w
  proof -
    have "unat (buffer_id v) \<noteq> unat (buffer_id w)" using that(3) by (simp add: word_unat_eq_iff)
    then consider "unat (buffer_id v) < unat (buffer_id w)" | "unat (buffer_id w) < unat (buffer_id v)" by linarith
    then show ?thesis
    proof cases
      case 1
      from slot[OF that(1) this] show ?thesis unfolding sp(1)[OF that(2)] by blast
    next
      case 2
      from slot[OF that(2) this] show ?thesis unfolding sp(1)[OF that(1)] by blast
    qed
  qed
  have cnt: "buffer_total s = unat (buffer_count config)" using inv by (simp add: buffer_inv_def buffer_total_def)
  have base: "\<not> pool_aborted s" "all_ids s = mset (map of_nat [0..<buffer_total s])"
      "outstanding_leases (pool s) = size (lease_bag (leases s))"
      "outstanding_leases (pool s) \<le> outstanding_leases_peak (pool s)" "storage_size (pool s) = buffer_total s * ?z"
    using inv unfolding buffer_inv_def by blast+
  have "fst (Bytes v) + snd (Bytes v) \<le> storage_size (pool s)" if "v \<in> set (filter has_pool (leases s))" for v
    using slot[OF that sp(3)[OF that]] base(5) by (simp add: Bytes_def)
  moreover have "fst (Bytes (leases s ! i)) + snd (Bytes (leases s ! i)) \<le> fst (Bytes (leases s ! j)) \<or>
      fst (Bytes (leases s ! j)) + snd (Bytes (leases s ! j)) \<le> fst (Bytes (leases s ! i))"
    if "i < length (leases s)" "j < length (leases s)" "i \<noteq> j" "has_pool (leases s ! i)" "has_pool (leases s ! j)" for i j
    unfolding Bytes_def using that by (intro apart lease_distinct[OF inv]) simp_all
  ultimately show ?thesis
    using base unfolding all_ids_def lease_bag_filter cnt by blast
qed

text \<open>A pool of two buffers: both are filled by the kernel, both completions are taken, one lease is moved
  and the other is given back.\<close>

definition demo_buffer_config :: buffer_pool_config where
  "demo_buffer_config = \<lparr>buffer_count = 2, buffer_size = 4, group_id = 1\<rparr>"

definition demo_buffers :: buffer_system where
  "demo_buffers = \<lparr>pool = the_value (Pool_Register (\<lambda>_ _. []) None demo_buffer_config), kernel_head = 0, selected = [],
     leases = [], pool_aborted = False\<rparr>"

definition demo_select :: "nat \<Rightarrow> buffer_system \<Rightarrow> buffer_system" where
  "demo_select n s = s\<lparr>selected := selected s @ [(rb_id (kernel_buffer s), n)], kernel_head := kernel_head s + 1\<rparr>"

definition demo_leased :: buffer_system where
  "demo_leased = reset_lease 0 (move_lease 1 (take_completion 0 (take_completion 1 (demo_select 4 (demo_select 3 demo_buffers)))))"

lemma demo_buffer_config_simps [simp]:
  "buffer_count demo_buffer_config = 2" "buffer_size demo_buffer_config = 4"
  by (simp_all add: demo_buffer_config_def)

lemmas pool_defs = Provide_def io_uring_buf_ring_add_def io_uring_buf_ring_advance_def
  io_uring_buf_ring_mask_def kernel_buffer_def buffer_total_def
  take_completion_def Acquire_def move_lease_def move_buffer_def reset_lease_def Reset_def Release_def Let_def

lemma demo_buffers_state:
  "Pool_Register m None demo_buffer_config = Value \<lparr>pool_config = demo_buffer_config,
     buffer_ring = \<lparr>bufs = [\<lparr>rb_address = 0, rb_length = 4, rb_id = 0\<rparr>, \<lparr>rb_address = 4, rb_length = 4, rb_id = 1\<rparr>],
       ring_tail = 2\<rparr>, storage_size = 8, leased = [False, False], outstanding_leases = 0,
     outstanding_leases_peak = 0\<rparr>"
proof -
  have "[0..<2] = [0, 1 :: nat]" "replicate 2 x = [x, x]" "replicate 2 b = [b, b]" for x :: ring_buffer and b :: bool by (simp_all add: upt_rec numeral_2_eq_2)
  then show ?thesis by (simp add: Pool_Register_def ValidateConfig_def MAX_BUFFER_COUNT_def pool_defs)
qed

lemma demo_selected_state:
  "demo_select 3 demo_buffers = demo_buffers\<lparr>selected := [(0, 3)], kernel_head := 1\<rparr>"
  "demo_select 4 (demo_buffers\<lparr>selected := [(0, 3)], kernel_head := 1\<rparr>) =
     demo_buffers\<lparr>selected := [(0, 3), (1, 4)], kernel_head := 2\<rparr>"
  "kernel_head demo_buffers \<noteq> ring_tail (buffer_ring (pool demo_buffers))" "3 \<le> rb_length (kernel_buffer demo_buffers)"
  "4 \<le> rb_length (kernel_buffer (demo_buffers\<lparr>selected := [(0, 3)], kernel_head := 1\<rparr>))"
  "ring_tail (buffer_ring (pool demo_buffers)) = 2"
  by (simp_all add: demo_select_def demo_buffers_def demo_buffers_state kernel_buffer_def buffer_total_def)

lemma demo_leased_state:
  "leases demo_leased =
     [\<lparr>has_pool = False, buffer_id = 1, span = (0, 0)\<rparr>, \<lparr>has_pool = False, buffer_id = 0, span = (0, 0)\<rparr>,
      \<lparr>has_pool = True, buffer_id = 0, span = (0, 3)\<rparr>]"
  "selected demo_leased = []" "outstanding_leases (pool demo_leased) = 1"
proof -
  let ?s = "demo_buffers\<lparr>selected := [(0, 3), (1, 4)], kernel_head := 2\<rparr>"
  have *: "demo_leased = reset_lease 0 (move_lease 1 (take_completion 0 (take_completion 1 ?s)))"
    unfolding demo_leased_def demo_selected_state(1,2) ..
  show "leases demo_leased =
     [\<lparr>has_pool = False, buffer_id = 1, span = (0, 0)\<rparr>, \<lparr>has_pool = False, buffer_id = 0, span = (0, 0)\<rparr>,
      \<lparr>has_pool = True, buffer_id = 0, span = (0, 3)\<rparr>]"
    "selected demo_leased = []" "outstanding_leases (pool demo_leased) = 1"
    unfolding * by (simp_all add: demo_buffers_def demo_buffers_state pool_defs)
qed

lemma demo_leased_reach: "buffer_reach demo_buffer_config demo_leased"
proof -
  let ?s1 = "demo_buffers\<lparr>selected := [(0, 3)], kernel_head := 1\<rparr>"
  let ?s2 = "demo_buffers\<lparr>selected := [(0, 3), (1, 4)], kernel_head := 2\<rparr>"
  have "buffer_reach demo_buffer_config demo_buffers"
    unfolding demo_buffers_def demo_buffers_state by (simp add: pool_registered[OF demo_buffers_state])
  from pool_next[OF this kernel_selects[OF demo_selected_state(3,4)]]
  have r1: "buffer_reach demo_buffer_config ?s1" using demo_selected_state(1) by (simp add: demo_select_def)
  have "kernel_head ?s1 \<noteq> ring_tail (buffer_ring (pool ?s1))" by (simp add: demo_selected_state(6))
  from pool_next[OF r1 kernel_selects[OF this demo_selected_state(5)]]
  have r2: "buffer_reach demo_buffer_config ?s2" using demo_selected_state(2) by (simp add: demo_select_def)
  have r3: "buffer_reach demo_buffer_config (take_completion 1 ?s2)"
    by (rule pool_next[OF r2 completion_taken]) simp
  have r4: "buffer_reach demo_buffer_config (take_completion 0 (take_completion 1 ?s2))"
    by (rule pool_next[OF r3 completion_taken]) (simp add: demo_buffers_def demo_buffers_state pool_defs)
  have r5: "buffer_reach demo_buffer_config (move_lease 1 (take_completion 0 (take_completion 1 ?s2)))"
    by (rule pool_next[OF r4 lease_moved]) (simp add: demo_buffers_def demo_buffers_state pool_defs)
  show ?thesis
    unfolding demo_leased_def demo_selected_state(1,2)
    by (rule pool_next[OF r5 lease_reset]) (simp add: demo_buffers_def demo_buffers_state pool_defs)
qed

theorem provided_buffers_partitioned_witness:
  "\<not> pool_aborted demo_leased \<and> mset (map rb_id (available demo_leased)) + {#0#} = {#0, 1#} \<and>
   outstanding_leases (pool demo_leased) = 1"
proof -
  have "mset (map of_nat [0..<unat (buffer_count demo_buffer_config)]) = {#0, 1 :: u16#}"
    by (simp add: upt_rec)
  then show ?thesis
    using provided_buffers_partitioned[OF demo_leased_reach] demo_leased_state by simp
qed

end
