(* ===== verification/Uring_Context.thy ===== *)
theory Uring_Context
  imports Uring_Buffer_Pool Socket
begin

text \<open>
  \<^verbatim>\<open>src/io/uring/context.cpp\<close>: the io_uring event loop. The thread in \<^verbatim>\<open>Run\<close> is cut where other
  threads or the kernel can act between two accesses to what they share: the callback queue with its
  two flags, the eventfd, the stop flag and the completion queue. Everything else belongs to that
  thread. A coroutine that is resumed, and a posted callback, is the list of calls it makes into the
  context until it suspends or returns.

  The kernel's side is the documented behaviour of io_uring: a submission queue of \<open>sq_entries\<close>
  entries, the requests it works on, and a completion queue; a request gets one completion, or
  several if it is a multishot request, all but the last of which carry \<^verbatim>\<open>IORING_CQE_F_MORE\<close>. The
  answers of \<^verbatim>\<open>io_uring_submit\<close> and the errors of the eventfd calls are scripts; once a script is
  used up the calls succeed.
\<close>

section \<open>Outcomes\<close>

text \<open>A call returns, throws, or ends the process.\<close>

datatype 'a outcome = Done 'a | Thrown cxx_exception | Aborted string

fun and_then :: "'a outcome \<Rightarrow> ('a \<Rightarrow> 'b outcome) \<Rightarrow> 'b outcome" where
  "and_then (Done x) f = f x"
| "and_then (Thrown e) f = Thrown e"
| "and_then (Aborted m) f = Aborted m"

lemma and_then_Done: "and_then r f = Done y \<longleftrightarrow> (\<exists>x. r = Done x \<and> f x = Done y)"
  by (cases r) auto

lemma and_then_Aborted: "and_then r f = Aborted m \<longleftrightarrow> r = Aborted m \<or> (\<exists>x. r = Done x \<and> f x = Aborted m)"
  by (cases r) auto

section \<open>Operations, results and awaitables\<close>

datatype operation_type = OpUnknown | OpAccept | OpRecv | OpRecvProvided | OpSend

datatype completion_category = CatAwaitable | CatCancel | CatWakeup

record operation =
  owner_index :: nat
  op_type :: operation_type
  category :: completion_category
  op_fd :: int
  op_buffer :: nat
  op_length :: nat
  op_awaitable :: "nat option"
  multishot :: bool

definition new_operation :: operation where
  "new_operation = \<lparr>owner_index = 0, op_type = OpUnknown, category = CatAwaitable, op_fd = -1, op_buffer = 0,
     op_length = 0, op_awaitable = None, multishot = False\<rparr>"

record io_result =
  io_type :: operation_type
  io_fd :: int
  io_result_code :: int
  io_error_code :: int
  bytes_transferred :: nat
  is_final :: bool
  buffer_group :: u16
  io_buffer :: uring_buffer

definition new_result :: io_result where
  "new_result = \<lparr>io_type = OpUnknown, io_fd = -1, io_result_code = 0, io_error_code = 0, bytes_transferred = 0,
     is_final = True, buffer_group = 0, io_buffer = empty_buffer\<rparr>"

text \<open>Operations and awaitables are objects with addresses. An operation that has not been started
  belongs to its awaitable and is not referred to from anywhere else.\<close>

record awaitable =
  owned_operation :: "operation option"
  handed_off_operation :: "nat option"
  continuation :: "nat option"
  aw_result :: io_result
  result_ready :: bool

definition UringAwaitable :: "operation \<Rightarrow> bool \<Rightarrow> awaitable" where
  "UringAwaitable op multi = \<lparr>owned_operation = Some (op\<lparr>multishot := multi\<rparr>), handed_off_operation = None,
     continuation = None, aw_result = new_result, result_ready = False\<rparr>"

datatype io_request =
    ReqAccept int | ReqAcceptMultishot int | ReqRecv int nat nat | ReqRecvProvided int | ReqSend int nat nat

text \<open>What a coroutine or a callback does: construct an awaitable, await it as a coroutine, fetch its
  result, destroy it, cancel the requests of a descriptor, post a callback, request a stop, give back
  a receive buffer, take statistics.\<close>

datatype action =
    Construct nat io_request
  | Await nat nat
  | FetchResult nat
  | Destroy nat
  | Cancel int
  | CallPost "action list"
  | CallStop
  | GiveBack u16
  | TakeStats bool

section \<open>The context\<close>

record cqe =
  cqe_data :: "nat option"
  cqe_res :: int
  cqe_more :: bool
  cqe_buffer :: "u16 option"

text \<open>Where the thread in \<^verbatim>\<open>Run\<close> is. The number counts the completions of the current turn; the flag
  is \<^verbatim>\<open>has_more\<close> of the wakeup completion being processed.\<close>

datatype run_pc =
    NotRun
  | RunLoop
  | RunProcess nat
  | RunSwap bool nat
  | RunCallbacks "action list list" bool nat
  | RunNext nat
  | RunReturned

text \<open>After the environment come the eight fields of the kernel, \<open>heap\<close> and \<open>awaitables\<close> the objects by address.
  \<open>signals_due\<close> counts the threads that have left the lock in \<^verbatim>\<open>Post\<close> or \<^verbatim>\<open>RequestStop\<close> and are about
  to call \<^verbatim>\<open>SignalWakeup\<close>; \<open>ran\<close> and \<open>fetched\<close> are histories, of the callbacks that were called and
  of the results that coroutines received.\<close>

record uring_context =
  ctx_net :: net_env
  sq_entries :: nat
  prepared :: "nat list"
  in_kernel :: "nat list"
  completions :: "cqe list"
  submit_answers :: "int list"
  eventfd_count :: nat
  eventfd_errors :: "int list"
  poll_due :: bool
  heap :: "nat \<Rightarrow> operation option"
  awaitables :: "nat \<Rightarrow> awaitable option"
  ctx_pool :: "buffer_pool option"
  wakeup_fd :: int
  run_thread_id :: int
  context_stop :: bool
  operations :: "nat list"
  operations_capacity :: nat
  staged_sqe_count :: nat
  wakeup_poll_cancel_submitted :: bool
  enobufs :: u64
  stats_window_id :: u64
  accepting_posts :: bool
  posted :: "action list list"
  signals_due :: nat
  run_pc :: run_pc
  ran :: "action list list"
  fetched :: "(nat \<times> io_result) list"

text \<open>The constructor. \<open>ring\<close> is the result of \<^verbatim>\<open>io_uring_queue_init\<close>: an error, or the number of
  entries of the submission queue; \<open>efd\<close> the result of \<^verbatim>\<open>eventfd\<close>; \<open>ring_error\<close> the error of registering
  the buffers. The scripts are arguments too.\<close>

definition UringContext ::
  "net_env \<Rightarrow> int + nat \<Rightarrow> int + int \<Rightarrow> int option \<Rightarrow> int list \<Rightarrow> int list \<Rightarrow> nat \<Rightarrow>
     buffer_pool_config option \<Rightarrow> uring_context outcome" where
  "UringContext net ring efd ring_error answers errors entries config =
    (case ring of
       Inl e \<Rightarrow> Thrown (InternalException (MakeSystemErrorMessage net ''io_uring_queue_init'' e))
     | Inr slots \<Rightarrow>
         (case efd of
            Inl e \<Rightarrow> Thrown (InternalException (MakeSystemErrorMessage net ''eventfd'' e))
          | Inr fd \<Rightarrow>
              and_then
                (case config of
                   None \<Rightarrow> Done None
                 | Some cfg \<Rightarrow>
                     (case Pool_Register (MakeSystemErrorMessage net) ring_error cfg of
                        Error st \<Rightarrow> Thrown (InternalException (st_message st))
                      | Value p \<Rightarrow> Done (Some p)))
                (\<lambda>p. Done \<lparr>ctx_net = net, sq_entries = slots, prepared = [], in_kernel = [], completions = [],
                   submit_answers = answers, eventfd_count = 0, eventfd_errors = errors, poll_due = False,
                   heap = Map.empty, awaitables = Map.empty, ctx_pool = p, wakeup_fd = fd, run_thread_id = 0,
                   context_stop = False, operations = [], operations_capacity = entries,
                   staged_sqe_count = 0, wakeup_poll_cancel_submitted = False, enobufs = 0,
                   stats_window_id = 0, accepting_posts = True, posted = [], signals_due = 0,
                   run_pc = NotRun, ran = [], fetched = []\<rparr>)))"

definition destroy_context :: "uring_context \<Rightarrow> unit outcome" where
  "destroy_context c =
    (if operations c \<noteq> [] then Aborted ''UringContext destroyed before its operations were drained'' else Done ())"

section \<open>Ownership of the thread\<close>

definition FINISHED_RUN_THREAD_ID :: int where
  "FINISHED_RUN_THREAD_ID = -1"

definition AcquireRunOwnership :: "int \<Rightarrow> uring_context \<Rightarrow> uring_context outcome" where
  "AcquireRunOwnership t c =
    (if run_thread_id c = 0 then Done (c\<lparr>run_thread_id := t\<rparr>)
     else if run_thread_id c = FINISHED_RUN_THREAD_ID then Aborted ''UringContext::Run called more than once''
     else Aborted ''UringContext::Run called while another Run thread owns the context'')"

definition ReleaseRunOwnership :: "uring_context \<Rightarrow> uring_context" where
  "ReleaseRunOwnership c = c\<lparr>run_thread_id := FINISHED_RUN_THREAD_ID\<rparr>"

definition AssertRunThread :: "int \<Rightarrow> string \<Rightarrow> uring_context \<Rightarrow> unit outcome" where
  "AssertRunThread t action c = (if run_thread_id c \<noteq> t then Aborted action else Done ())"

definition IsRunning :: "uring_context \<Rightarrow> bool" where
  "IsRunning c \<longleftrightarrow> run_thread_id c > 0"

section \<open>Deferred requests\<close>

definition Ctx_Accept :: "int \<Rightarrow> awaitable" where
  "Ctx_Accept listen_fd = UringAwaitable (new_operation\<lparr>op_type := OpAccept, op_fd := listen_fd\<rparr>) False"

definition AcceptMultishot :: "int \<Rightarrow> awaitable" where
  "AcceptMultishot listen_fd = UringAwaitable (new_operation\<lparr>op_type := OpAccept, op_fd := listen_fd\<rparr>) True"

definition Ctx_Recv :: "int \<Rightarrow> nat \<Rightarrow> nat \<Rightarrow> awaitable" where
  "Ctx_Recv fd buf len = UringAwaitable
     (new_operation\<lparr>op_type := OpRecv, op_fd := fd, op_buffer := buf, op_length := len\<rparr>) False"

definition RecvProvided :: "int \<Rightarrow> uring_context \<Rightarrow> awaitable outcome" where
  "RecvProvided fd c =
    (if ctx_pool c = None then
       Thrown (LifecycleException ''UringContext::RecvProvided requires a registered provided-buffer pool'')
     else Done (UringAwaitable (new_operation\<lparr>op_type := OpRecvProvided, op_fd := fd\<rparr>) False))"

definition Ctx_Send :: "int \<Rightarrow> nat \<Rightarrow> nat \<Rightarrow> awaitable" where
  "Ctx_Send fd buf len = UringAwaitable
     (new_operation\<lparr>op_type := OpSend, op_fd := fd, op_buffer := buf, op_length := len\<rparr>) False"

fun make_awaitable :: "io_request \<Rightarrow> uring_context \<Rightarrow> awaitable outcome" where
  "make_awaitable (ReqAccept fd) c = Done (Ctx_Accept fd)"
| "make_awaitable (ReqAcceptMultishot fd) c = Done (AcceptMultishot fd)"
| "make_awaitable (ReqRecv fd buf len) c = Done (Ctx_Recv fd buf len)"
| "make_awaitable (ReqRecvProvided fd) c = RecvProvided fd c"
| "make_awaitable (ReqSend fd buf len) c = Done (Ctx_Send fd buf len)"

definition ECANCELED :: int where "ECANCELED = 125"
definition ENOENT :: int where "ENOENT = 2"
definition ENOBUFS :: int where "ENOBUFS = 105"
definition POLLIN :: int where "POLLIN = 1"

definition MakeCancelledResult :: "operation \<Rightarrow> io_result" where
  "MakeCancelledResult op = new_result\<lparr>io_type := op_type op, io_fd := op_fd op,
     io_result_code := - ECANCELED, io_error_code := ECANCELED\<rparr>"

definition destroy_awaitable :: "awaitable \<Rightarrow> unit outcome" where
  "destroy_awaitable a =
    (if handed_off_operation a \<noteq> None
     then Aborted ''UringAwaitable destroyed while an I/O operation is pending'' else Done ())"

section \<open>Submission\<close>

text \<open>\<^verbatim>\<open>io_uring_submit\<close> hands the first \<open>n\<close> prepared entries to the kernel. A poll that is armed fires if
  its descriptor is readable already.\<close>

definition is_wakeup :: "uring_context \<Rightarrow> nat \<Rightarrow> bool" where
  "is_wakeup c a \<longleftrightarrow> (case heap c a of None \<Rightarrow> False | Some op \<Rightarrow> category op = CatWakeup)"

definition kernel_takes :: "nat \<Rightarrow> uring_context \<Rightarrow> uring_context" where
  "kernel_takes n c =
    (let batch = take n (prepared c)
     in c\<lparr>prepared := drop n (prepared c), in_kernel := in_kernel c @ batch,
          poll_due := (if list_ex (is_wakeup c) batch then eventfd_count c > 0 else poll_due c)\<rparr>)"

fun submit_loop :: "int list \<Rightarrow> uring_context \<Rightarrow> uring_context outcome" where
  "submit_loop [] c =
    (if staged_sqe_count c = 0 then Done (c\<lparr>submit_answers := []\<rparr>)
     else if length (prepared c) < staged_sqe_count c then
       Aborted ''io_uring_submit returned zero while operations remain staged''
     else if length (prepared c) > staged_sqe_count c then
       Aborted ''io_uring_submit reported more operations than were staged''
     else Done ((kernel_takes (length (prepared c)) c)\<lparr>submit_answers := [], staged_sqe_count := 0\<rparr>))"
| "submit_loop (r # rs) c =
    (if staged_sqe_count c = 0 then Done (c\<lparr>submit_answers := r # rs\<rparr>)
     else if r = - EINTR then submit_loop rs c
     else if r < 0 then Thrown (InternalException (MakeSystemErrorMessage (ctx_net c) ''io_uring_submit'' (- r)))
     else if r = 0 then Aborted ''io_uring_submit returned zero while operations remain staged''
     else if nat r > staged_sqe_count c then
       Aborted ''io_uring_submit reported more operations than were staged''
     else submit_loop rs ((kernel_takes (nat r) c)\<lparr>staged_sqe_count := staged_sqe_count c - nat r\<rparr>))"

definition SubmitStagedSqes :: "uring_context \<Rightarrow> uring_context outcome" where
  "SubmitStagedSqes c = submit_loop (submit_answers c) c"

definition AcquireSqe :: "uring_context \<Rightarrow> uring_context outcome" where
  "AcquireSqe c =
    (let c = (if length (operations c) = operations_capacity c
              then c\<lparr>operations_capacity := operations_capacity c * 2\<rparr> else c)
     in and_then
          (if length (prepared c) \<ge> sq_entries c \<and> staged_sqe_count c \<noteq> 0 then SubmitStagedSqes c else Done c)
          (\<lambda>c. if length (prepared c) \<ge> sq_entries c
               then Thrown (InternalException ''io_uring_get_sqe failed'') else Done c))"

text \<open>An operation that is handed over gets the first free address. The entry acquired before carries
  that address as its user data.\<close>

definition fresh_address :: "uring_context \<Rightarrow> nat" where
  "fresh_address c = the (find (\<lambda>a. heap c a = None) [0 ..< Suc (length (operations c))])"

definition StageOperation :: "operation \<Rightarrow> uring_context \<Rightarrow> (nat \<times> uring_context) outcome" where
  "StageOperation op c =
    (if length (operations c) < operations_capacity c then
       (let a = fresh_address c
        in Done (a, c\<lparr>prepared := prepared c @ [a],
                      heap := (heap c)(a \<mapsto> op\<lparr>owner_index := length (operations c)\<rparr>),
                      operations := operations c @ [a], staged_sqe_count := staged_sqe_count c + 1\<rparr>))
     else Aborted ''operations_.size() < operations_.capacity()'')"

definition TakeOperation :: "nat \<Rightarrow> operation \<Rightarrow> uring_context \<Rightarrow> uring_context" where
  "TakeOperation a op c =
    (let index = owner_index op;
         ops = operations c;
         c = c\<lparr>heap := (heap c)(a := None)\<rparr>
     in if index \<noteq> length ops - 1 then
          c\<lparr>operations := butlast (ops[index := last ops]),
            heap := (heap c)(last ops := map_option (\<lambda>o'. o'\<lparr>owner_index := index\<rparr>) (heap c (last ops)))\<rparr>
        else c\<lparr>operations := butlast ops\<rparr>)"

definition TryStartOperation ::
  "int \<Rightarrow> operation option \<Rightarrow> uring_context \<Rightarrow> (nat option \<times> uring_context) outcome" where
  "TryStartOperation t slot c =
    and_then (AssertRunThread t ''io_uring submission attempted outside the owning Run thread'' c) (\<lambda>_.
      case slot of
        None \<Rightarrow> Aborted ''UringContext attempted to start an empty operation''
      | Some op \<Rightarrow>
          if context_stop c then Done (None, c)
          else and_then (AcquireSqe c) (\<lambda>c.
            if op_type op = OpRecvProvided \<and> ctx_pool c = None then
              Aborted ''UringContext attempted a provided-buffer receive without a registered pool''
            else if op_type op = OpUnknown then Aborted ''UringContext prepared an operation with unknown type''
            else and_then (StageOperation op c) (\<lambda>(a, c). Done (Some a, c))))"

definition await_suspend :: "int \<Rightarrow> nat \<Rightarrow> nat \<Rightarrow> awaitable \<Rightarrow> uring_context \<Rightarrow> uring_context outcome" where
  "await_suspend t w co aw c =
    (case handed_off_operation aw of
       Some a \<Rightarrow>
         if \<not> multishot (the (heap c a)) then
           Aborted ''one-shot UringAwaitable awaited again while its operation is pending''
         else if continuation aw \<noteq> None then
           Aborted ''multishot UringAwaitable already has a waiting coroutine''
         else Done (c\<lparr>awaitables := (awaitables c)(w \<mapsto> aw\<lparr>continuation := Some co\<rparr>)\<rparr>)
     | None \<Rightarrow>
         (case owned_operation aw of
            None \<Rightarrow> Aborted ''UringAwaitable awaited after its operation was consumed''
          | Some op \<Rightarrow>
              and_then (TryStartOperation t (Some (op\<lparr>op_awaitable := Some w\<rparr>)) c) (\<lambda>(started, c).
                Done (c\<lparr>awaitables := (awaitables c)(w \<mapsto>
                  (case started of
                     None \<Rightarrow> aw\<lparr>owned_operation := None, aw_result := MakeCancelledResult op, result_ready := True\<rparr>
                   | Some a \<Rightarrow> aw\<lparr>owned_operation := None, handed_off_operation := Some a,
                                 continuation := Some co\<rparr>))\<rparr>))))"

definition await_resume :: "nat \<Rightarrow> awaitable \<Rightarrow> uring_context \<Rightarrow> uring_context outcome" where
  "await_resume w aw c =
    (if \<not> result_ready aw then Aborted ''UringAwaitable resumed without an operation result''
     else Done (c\<lparr>awaitables := (awaitables c)(w \<mapsto> aw\<lparr>result_ready := False, aw_result := new_result\<rparr>),
                  fetched := fetched c @ [(w, aw_result aw)]\<rparr>))"

section \<open>Wakeup and control\<close>

text \<open>A write adds one to the counter of the eventfd and makes the poll fire; it fails with \<^verbatim>\<open>EAGAIN\<close> on
  a counter at its maximum, a read on a counter at zero.\<close>

definition EVENTFD_MAX :: nat where
  "EVENTFD_MAX = 2 ^ 64 - 2"

fun signal_loop :: "int list \<Rightarrow> uring_context \<Rightarrow> uring_context outcome" where
  "signal_loop [] c =
    (if eventfd_count c < EVENTFD_MAX
     then Done (c\<lparr>eventfd_errors := [], eventfd_count := eventfd_count c + 1, poll_due := True\<rparr>)
     else Done (c\<lparr>eventfd_errors := []\<rparr>))"
| "signal_loop (e # es) c =
    (if e = EINTR then signal_loop es c
     else Thrown (InternalException (MakeSystemErrorMessage (ctx_net c) ''eventfd write'' e)))"

definition SignalWakeup :: "uring_context \<Rightarrow> uring_context outcome" where
  "SignalWakeup c = signal_loop (eventfd_errors c) c"

fun consume_loop :: "int list \<Rightarrow> uring_context \<Rightarrow> uring_context outcome" where
  "consume_loop [] c = Done (c\<lparr>eventfd_errors := [], eventfd_count := 0\<rparr>)"
| "consume_loop (e # es) c =
    (if e = EINTR then consume_loop es c
     else Thrown (InternalException (MakeSystemErrorMessage (ctx_net c) ''eventfd read'' e)))"

definition ConsumeWakeupSignal :: "uring_context \<Rightarrow> uring_context outcome" where
  "ConsumeWakeupSignal c = consume_loop (eventfd_errors c) c"

definition CancelFd :: "int \<Rightarrow> int \<Rightarrow> uring_context \<Rightarrow> uring_context outcome" where
  "CancelFd t fd c =
    (if fd < 0 \<or> \<not> IsRunning c then Done c
     else and_then (AssertRunThread t ''UringContext::CancelFd called outside the owning Run thread'' c) (\<lambda>_.
       and_then (AcquireSqe c) (\<lambda>c.
       and_then (StageOperation (new_operation\<lparr>category := CatCancel, op_fd := fd\<rparr>) c) (\<lambda>(a, c).
       SubmitStagedSqes c))))"

definition StageWakeupPoll :: "int \<Rightarrow> uring_context \<Rightarrow> uring_context outcome" where
  "StageWakeupPoll t c =
    and_then (AssertRunThread t ''wakeup poll staging attempted outside the owning Run thread'' c) (\<lambda>_.
    and_then (AcquireSqe c) (\<lambda>c.
    and_then (StageOperation (new_operation\<lparr>category := CatWakeup, op_fd := wakeup_fd c, multishot := True\<rparr>) c)
      (\<lambda>(a, c). Done c)))"

text \<open>The parts of \<^verbatim>\<open>Post\<close> and \<^verbatim>\<open>RequestStop\<close> under the lock; the result says whether
  \<^verbatim>\<open>SignalWakeup\<close> follows.\<close>

definition post_locked :: "action list \<Rightarrow> uring_context \<Rightarrow> bool \<times> uring_context" where
  "post_locked f c =
    (if \<not> accepting_posts c then (False, c)
     else (posted c = [], c\<lparr>posted := posted c @ [f]\<rparr>))"

definition stop_locked :: "uring_context \<Rightarrow> bool \<times> uring_context" where
  "stop_locked c =
    (if \<not> accepting_posts c then (False, c)
     else (True, c\<lparr>accepting_posts := False, context_stop := True\<rparr>))"

definition Context_Post :: "action list \<Rightarrow> uring_context \<Rightarrow> uring_context outcome" where
  "Context_Post f c = (case post_locked f c of (should_wake, c) \<Rightarrow> if should_wake then SignalWakeup c else Done c)"

definition Context_RequestStop :: "uring_context \<Rightarrow> uring_context outcome" where
  "Context_RequestStop c = (case stop_locked c of (signal, c) \<Rightarrow> if signal then SignalWakeup c else Done c)"

record uring_stats =
  stats_counters :: u64
  stats_window :: u64
  stats_buffer_pool :: "buffer_pool_stats option"

definition Context_SnapshotStats :: "int \<Rightarrow> bool \<Rightarrow> uring_context \<Rightarrow> (uring_stats \<times> uring_context) outcome" where
  "Context_SnapshotStats t start_window c =
    and_then (AssertRunThread t ''UringContext::SnapshotStats called outside the owning Run thread'' c) (\<lambda>_.
      let c = (if start_window then c\<lparr>stats_window_id := stats_window_id c + 1\<rparr> else c);
          snap = map_option (Pool_SnapshotStats start_window) (ctx_pool c)
      in Done (\<lparr>stats_counters = enobufs c, stats_window = stats_window_id c,
                 stats_buffer_pool = map_option fst snap\<rparr>, c\<lparr>ctx_pool := map_option snd snap\<rparr>))"

section \<open>Coroutines and callbacks\<close>

text \<open>Giving back a lease, as the destructor of the buffer does.\<close>

definition drop_buffer :: "uring_buffer \<Rightarrow> uring_context \<Rightarrow> uring_context outcome" where
  "drop_buffer b c =
    (if \<not> has_pool b then Done c
     else case ctx_pool c of
       None \<Rightarrow> Aborted ''buffer without a pool''
     | Some p \<Rightarrow>
         (case Reset b p of
            None \<Rightarrow> Aborted ''attempted to release a provided buffer that is not leased''
          | Some (_, p') \<Rightarrow> Done (c\<lparr>ctx_pool := Some p'\<rparr>)))"

text \<open>A call on an address that holds no awaitable, and a construction on one that holds one, is not a
  program: the model ends there.\<close>

fun run_action :: "int \<Rightarrow> action \<Rightarrow> uring_context \<Rightarrow> uring_context outcome" where
  "run_action t (Construct w req) c =
    (if awaitables c w \<noteq> None then Aborted ''address in use''
     else and_then (make_awaitable req c) (\<lambda>aw. Done (c\<lparr>awaitables := (awaitables c)(w \<mapsto> aw)\<rparr>)))"
| "run_action t (Await w co) c =
    (case awaitables c w of None \<Rightarrow> Aborted ''no awaitable'' | Some aw \<Rightarrow> await_suspend t w co aw c)"
| "run_action t (FetchResult w) c =
    (case awaitables c w of None \<Rightarrow> Aborted ''no awaitable'' | Some aw \<Rightarrow> await_resume w aw c)"
| "run_action t (Destroy w) c =
    (case awaitables c w of
       None \<Rightarrow> Aborted ''no awaitable''
     | Some aw \<Rightarrow> and_then (destroy_awaitable aw) (\<lambda>_.
         drop_buffer (io_buffer (aw_result aw)) (c\<lparr>awaitables := (awaitables c)(w := None)\<rparr>)))"
| "run_action t (Cancel fd) c = CancelFd t fd c"
| "run_action t (CallPost f) c = Context_Post f c"
| "run_action t CallStop c = Context_RequestStop c"
| "run_action t (GiveBack bid) c = drop_buffer \<lparr>has_pool = True, buffer_id = bid, span = (0, 0)\<rparr> c"
| "run_action t (TakeStats start_window) c = and_then (Context_SnapshotStats t start_window c) (\<lambda>(_, c). Done c)"

fun run_actions :: "int \<Rightarrow> action list \<Rightarrow> uring_context \<Rightarrow> uring_context outcome" where
  "run_actions t [] c = Done c"
| "run_actions t (x # xs) c = and_then (run_action t x c) (run_actions t xs)"

section \<open>Completion\<close>

definition store_buffer :: "cqe \<Rightarrow> io_result \<Rightarrow> uring_context \<Rightarrow> (io_result \<times> uring_context) outcome" where
  "store_buffer q res c =
    (case ctx_pool c of
       None \<Rightarrow> Aborted ''no pool''
     | Some p \<Rightarrow>
         let res = res\<lparr>buffer_group := GroupId p\<rparr>
         in case cqe_buffer q of
              None \<Rightarrow> Done (res, c)
            | Some bid \<Rightarrow>
                (case Acquire bid (bytes_transferred res) p of
                   None \<Rightarrow> Aborted ''io_uring selected a provided buffer that the pool cannot lease''
                 | Some (b, p') \<Rightarrow>
                     (case assign_buffer (io_buffer res) b p' of
                        None \<Rightarrow> Aborted ''attempted to release a provided buffer that is not leased''
                      | Some (b', _, p'') \<Rightarrow> Done (res\<lparr>io_buffer := b'\<rparr>, c\<lparr>ctx_pool := Some p''\<rparr>))))"

text \<open>\<open>xs\<close> is what the resumed coroutine does.\<close>

definition ProcessAwaitableCqe ::
  "int \<Rightarrow> action list \<Rightarrow> operation \<Rightarrow> cqe \<Rightarrow> bool \<Rightarrow> uring_context \<Rightarrow> uring_context outcome" where
  "ProcessAwaitableCqe t xs op q final c =
    (case op_awaitable op of
       None \<Rightarrow> Aborted ''UringContext completed an operation without an awaitable''
     | Some w \<Rightarrow>
     (case awaitables c w of
       None \<Rightarrow> Aborted ''dangling awaitable''
     | Some aw \<Rightarrow>
         let c = (if op_type op = OpRecvProvided \<and> cqe_res q = - ENOBUFS
                  then c\<lparr>enobufs := enobufs c + 1\<rparr> else c);
             res = (aw_result aw)\<lparr>io_type := op_type op, io_fd := op_fd op, io_result_code := cqe_res q,
                      io_error_code := (if cqe_res q < 0 then - cqe_res q else 0), is_final := final\<rparr>;
             res = (if op_type op \<in> {OpRecv, OpRecvProvided, OpSend}
                    then res\<lparr>bytes_transferred := (if cqe_res q > 0 then nat (cqe_res q) else 0)\<rparr> else res)
         in and_then (if op_type op = OpRecvProvided then store_buffer q res c else Done (res, c)) (\<lambda>(res, c).
              let aw = aw\<lparr>aw_result := res, result_ready := True,
                          handed_off_operation := (if final then None else handed_off_operation aw)\<rparr>
              in if continuation aw = None then
                   Aborted ''UringContext completed an awaitable operation without a continuation''
                 else and_then
                   (run_actions t xs (c\<lparr>awaitables := (awaitables c)(w \<mapsto> aw\<lparr>continuation := None\<rparr>)\<rparr>)) (\<lambda>c.
                     if final then Done c
                     else case awaitables c w of
                       None \<Rightarrow> Aborted ''dangling awaitable''
                     | Some aw' \<Rightarrow>
                         if continuation aw' = None then
                           Aborted ''multishot consumer must await the operation again before yielding''
                         else Done c))))"

definition ProcessCancelCqe :: "cqe \<Rightarrow> uring_context \<Rightarrow> uring_context outcome" where
  "ProcessCancelCqe q c =
    (let error_code = (if cqe_res q < 0 then - cqe_res q else 0)
     in if cqe_res q < 0 \<and> error_code \<notin> {ENOENT, EALREADY, ECANCELED}
        then Thrown (InternalException (MakeSystemErrorMessage (ctx_net c) ''io_uring cancel'' error_code))
        else Done c)"

text \<open>\<^verbatim>\<open>ProcessWakeupCqe\<close> up to \<^verbatim>\<open>RunPostedCallbacks\<close>, the swap in it, a callback of the batch, and the
  rest.\<close>

definition wakeup_begin :: "cqe \<Rightarrow> nat \<Rightarrow> uring_context \<Rightarrow> uring_context outcome" where
  "wakeup_begin q n c =
    (let error_code = (if cqe_res q < 0 then - cqe_res q else 0)
     in if cqe_res q < 0 then
          if context_stop c \<and> error_code = ECANCELED \<and> \<not> cqe_more q
          then Done (c\<lparr>wakeup_poll_cancel_submitted := False, run_pc := RunNext (n + 1)\<rparr>)
          else Thrown (InternalException (MakeSystemErrorMessage (ctx_net c) ''eventfd poll'' error_code))
        else if even (cqe_res q div POLLIN) then
          Thrown (InternalException ''eventfd poll completed without POLLIN'')
        else and_then (ConsumeWakeupSignal c) (\<lambda>c. Done (c\<lparr>run_pc := RunSwap (cqe_more q) n\<rparr>)))"

definition wakeup_swap :: "bool \<Rightarrow> nat \<Rightarrow> uring_context \<Rightarrow> uring_context" where
  "wakeup_swap has_more n c = c\<lparr>posted := [], run_pc := RunCallbacks (posted c) has_more n\<rparr>"

definition wakeup_callback ::
  "int \<Rightarrow> action list \<Rightarrow> action list list \<Rightarrow> bool \<Rightarrow> nat \<Rightarrow> uring_context \<Rightarrow> uring_context outcome" where
  "wakeup_callback t f fs has_more n c =
    and_then (run_actions t f c) (\<lambda>c. Done (c\<lparr>ran := ran c @ [f], run_pc := RunCallbacks fs has_more n\<rparr>))"

definition wakeup_end :: "int \<Rightarrow> bool \<Rightarrow> nat \<Rightarrow> uring_context \<Rightarrow> uring_context outcome" where
  "wakeup_end t has_more n c =
    and_then
      (if context_stop c then
         if has_more \<and> \<not> wakeup_poll_cancel_submitted c
         then CancelFd t (wakeup_fd c) (c\<lparr>wakeup_poll_cancel_submitted := True\<rparr>) else Done c
       else if \<not> has_more then StageWakeupPoll t c else Done c)
      (\<lambda>c. Done (c\<lparr>run_pc := RunNext (n + 1)\<rparr>))"

text \<open>A final completion takes its operation out of the table first. The code frees it when the handler
  returns, the model at once: its address may be given out again a little earlier.\<close>

definition ProcessCqe :: "int \<Rightarrow> action list \<Rightarrow> nat \<Rightarrow> uring_context \<Rightarrow> uring_context outcome" where
  "ProcessCqe t xs n c =
    (case completions c of
       [] \<Rightarrow> Aborted ''no completion''
     | q # qs \<Rightarrow>
         let c = c\<lparr>completions := qs\<rparr>
         in case cqe_data q of
              None \<Rightarrow> Aborted ''UringContext received a CQE without operation data''
            | Some a \<Rightarrow>
            (case heap c a of
              None \<Rightarrow> Aborted ''dangling operation''
            | Some op \<Rightarrow>
                let final = (\<not> multishot op \<or> \<not> cqe_more q)
                in if owner_index op \<ge> length (operations c) \<or> operations c ! owner_index op \<noteq> a then
                     Aborted ''UringContext received a CQE for an untracked operation''
                   else let c = (if final then TakeOperation a op c else c)
                     in case category op of
                          CatAwaitable \<Rightarrow> and_then (ProcessAwaitableCqe t xs op q final c)
                                            (\<lambda>c. Done (c\<lparr>run_pc := RunNext (n + 1)\<rparr>))
                        | CatCancel \<Rightarrow> and_then (ProcessCancelCqe q c) (\<lambda>c. Done (c\<lparr>run_pc := RunNext (n + 1)\<rparr>))
                        | CatWakeup \<Rightarrow> wakeup_begin q n c))"

section \<open>The event loop\<close>

text \<open>\<^verbatim>\<open>Run\<close> catches every exception and ends the process with its text: an outcome \<open>Thrown\<close> of one of
  its steps ends the process like an outcome \<open>Aborted\<close>.\<close>

definition Run_begin :: "int \<Rightarrow> uring_context \<Rightarrow> uring_context outcome" where
  "Run_begin t c =
    and_then (AcquireRunOwnership t c) (\<lambda>c.
    and_then (StageWakeupPoll t c) (\<lambda>c.
    and_then (SubmitStagedSqes c) (\<lambda>c. Done (c\<lparr>run_pc := RunLoop\<rparr>))))"

definition run_may_return :: "uring_context \<Rightarrow> bool" where
  "run_may_return c \<longleftrightarrow> context_stop c \<and> operations c = []"

text \<open>The head of the loop. \<^verbatim>\<open>io_uring_wait_cqe\<close> with the result \<open>w\<close> returns zero only when there is a
  completion.\<close>

definition Run_loop :: "int \<Rightarrow> uring_context \<Rightarrow> uring_context outcome" where
  "Run_loop w c =
    (if run_may_return c then Done ((ReleaseRunOwnership c)\<lparr>run_pc := RunReturned\<rparr>)
     else if staged_sqe_count c \<noteq> 0 then Aborted ''UringContext attempted to wait with staged SQEs''
     else if w < 0 then
       if w = - EINTR then Done c
       else Thrown (InternalException (MakeSystemErrorMessage (ctx_net c) ''io_uring_wait_cqe'' (- w)))
     else Done (c\<lparr>run_pc := RunProcess 0\<rparr>))"

definition Run_next :: "nat \<Rightarrow> uring_context \<Rightarrow> uring_context outcome" where
  "Run_next n c =
    (if n < sq_entries c \<and> completions c \<noteq> [] then Done (c\<lparr>run_pc := RunProcess n\<rparr>)
     else and_then (SubmitStagedSqes c) (\<lambda>c. Done (c\<lparr>run_pc := RunLoop\<rparr>)))"

text \<open>One step of the thread \<open>t\<close> in \<^verbatim>\<open>Run\<close>; \<open>xs\<close> is what a coroutine resumed in it does, \<open>w\<close> the result of
  the wait. Before \<^verbatim>\<open>Run\<close> is called and after it has returned there is none.\<close>

definition run_step :: "int \<Rightarrow> action list \<Rightarrow> int \<Rightarrow> uring_context \<Rightarrow> uring_context outcome option" where
  "run_step t xs w c =
    (case run_pc c of
       NotRun \<Rightarrow> None
     | RunLoop \<Rightarrow>
         if w = 0 \<and> completions c = [] \<and> \<not> run_may_return c \<or> w > 0 then None else Some (Run_loop w c)
     | RunProcess n \<Rightarrow> Some (ProcessCqe t xs n c)
     | RunSwap has_more n \<Rightarrow> Some (Done (wakeup_swap has_more n c))
     | RunCallbacks fs has_more n \<Rightarrow>
         (case fs of
            [] \<Rightarrow> Some (wakeup_end t has_more n c)
          | f # fs \<Rightarrow> Some (wakeup_callback t f fs has_more n c))
     | RunNext n \<Rightarrow> Some (Run_next n c)
     | RunReturned \<Rightarrow> None)"

text \<open>What the kernel does: complete a request, finally or, if it is multishot, once more; fire the
  poll of the eventfd; end that poll after a cancellation was asked for. What other threads do: the
  two halves of \<^verbatim>\<open>Post\<close> and \<^verbatim>\<open>RequestStop\<close>.\<close>

definition kernel_completes :: "nat \<Rightarrow> int \<Rightarrow> bool \<Rightarrow> u16 option \<Rightarrow> uring_context \<Rightarrow> uring_context" where
  "kernel_completes a r again buf c =
    c\<lparr>completions := completions c @ [\<lparr>cqe_data = Some a, cqe_res = r, cqe_more = again, cqe_buffer = buf\<rparr>],
      in_kernel := (if again then in_kernel c else remove1 a (in_kernel c))\<rparr>"

inductive context_step :: "int \<Rightarrow> uring_context \<Rightarrow> uring_context \<Rightarrow> bool" for t where
  run_begins: "run_pc c = NotRun \<Longrightarrow> Run_begin t c = Done c' \<Longrightarrow> context_step t c c'"
| run_steps: "run_step t xs w c = Some (Done c') \<Longrightarrow> context_step t c c'"
| request_completes:
    "a \<in> set (in_kernel c) \<Longrightarrow> heap c a = Some op \<Longrightarrow> category op \<noteq> CatWakeup \<Longrightarrow> (again \<Longrightarrow> multishot op) \<Longrightarrow>
     context_step t c (kernel_completes a r again buf c)"
| poll_fires:
    "a \<in> set (in_kernel c) \<Longrightarrow> heap c a = Some op \<Longrightarrow> category op = CatWakeup \<Longrightarrow> (again \<Longrightarrow> multishot op) \<Longrightarrow>
     poll_due c \<Longrightarrow> context_step t c ((kernel_completes a POLLIN again None c)\<lparr>poll_due := False\<rparr>)"
| poll_cancelled:
    "a \<in> set (in_kernel c) \<Longrightarrow> heap c a = Some op \<Longrightarrow> category op = CatWakeup \<Longrightarrow> wakeup_poll_cancel_submitted c \<Longrightarrow>
     context_step t c (kernel_completes a (- ECANCELED) False None c)"
| other_posts:
    "post_locked f c = (signal, c') \<Longrightarrow>
     context_step t c (c'\<lparr>signals_due := signals_due c' + (if signal then 1 else 0)\<rparr>)"
| other_stops:
    "stop_locked c = (signal, c') \<Longrightarrow>
     context_step t c (c'\<lparr>signals_due := signals_due c' + (if signal then 1 else 0)\<rparr>)"
| other_signals:
    "signals_due c > 0 \<Longrightarrow> SignalWakeup c = Done c' \<Longrightarrow> context_step t c (c'\<lparr>signals_due := signals_due c' - 1\<rparr>)"

text \<open>A context with at least one entry, whose one call of \<^verbatim>\<open>Run\<close> is by thread \<open>t\<close>.\<close>

inductive context_reach :: "int \<Rightarrow> uring_context \<Rightarrow> bool" for t where
  constructed: "UringContext net (Inr slots) (Inr fd) ring_error answers errors entries config = Done c \<Longrightarrow>
     slots > 0 \<Longrightarrow> entries > 0 \<Longrightarrow> fd \<ge> 0 \<Longrightarrow> t > 0 \<Longrightarrow> context_reach t c"
| stepped: "context_reach t c \<Longrightarrow> context_step t c c' \<Longrightarrow> context_reach t c'"

section \<open>Submission hands everything over\<close>

definition all_taken :: "int list \<Rightarrow> uring_context \<Rightarrow> uring_context" where
  "all_taken answers c = c\<lparr>submit_answers := answers, prepared := [], in_kernel := in_kernel c @ prepared c,
     staged_sqe_count := 0,
     poll_due := (if list_ex (is_wakeup c) (prepared c) then eventfd_count c > 0 else poll_due c)\<rparr>"

lemma is_wakeup_cong: "heap c' = heap c \<Longrightarrow> is_wakeup c' = is_wakeup c"
  by (simp add: is_wakeup_def fun_eq_iff)

lemma all_taken_after:
  assumes "staged_sqe_count c = length (prepared c)"
  shows "all_taken answers ((kernel_takes n c)\<lparr>staged_sqe_count := k\<rparr>) = all_taken answers c"
proof -
  have ex: "list_ex P xs \<longleftrightarrow> list_ex P (take n xs) \<or> list_ex P (drop n xs)" for P and xs :: "nat list"
    by (metis append_take_drop_id list_ex_append)
  have w: "is_wakeup ((kernel_takes n c)\<lparr>staged_sqe_count := k\<rparr>) = is_wakeup c"
    by (rule is_wakeup_cong) (simp add: kernel_takes_def Let_def)
  show ?thesis
    unfolding all_taken_def w
    using ex [of "is_wakeup c" "prepared c"] by (simp add: kernel_takes_def Let_def)
qed

lemma all_taken_none:
  "prepared c = [] \<Longrightarrow> staged_sqe_count c = 0 \<Longrightarrow> all_taken answers c = c\<lparr>submit_answers := answers\<rparr>"
  by (cases c) (simp add: all_taken_def)

lemma all_taken_all:
  "all_taken answers c = (kernel_takes (length (prepared c)) c)\<lparr>submit_answers := answers, staged_sqe_count := 0\<rparr>"
  by (cases c) (simp add: all_taken_def kernel_takes_def Let_def)

lemma submit_loop_Done:
  assumes "submit_loop rs c = Done c'" "staged_sqe_count c = length (prepared c)"
  shows "\<exists>answers. c' = all_taken answers c"
  using assms
proof (induction rs c rule: submit_loop.induct)
  case (1 c)
  show ?case
  proof (cases "staged_sqe_count c = 0")
    case True
    then have "c' = all_taken [] c" using 1 by (simp add: all_taken_none)
    then show ?thesis by blast
  next
    case False
    then have "c' = all_taken [] c" using 1 by (simp add: all_taken_all)
    then show ?thesis by blast
  qed
next
  case (2 r rs c)
  show ?case
  proof (cases "staged_sqe_count c = 0")
    case True
    then have "c' = all_taken (r # rs) c" using 2(3,4) by (simp add: all_taken_none)
    then show ?thesis by blast
  next
    case nz: False
    show ?thesis
    proof (cases "r = - EINTR")
      case True
      with nz 2 show ?thesis by simp
    next
      case False
      let ?d = "(kernel_takes (nat r) c)\<lparr>staged_sqe_count := staged_sqe_count c - nat r\<rparr>"
      have g: "\<not> r < 0" "r \<noteq> 0" "\<not> nat r > staged_sqe_count c" "submit_loop rs ?d = Done c'"
        using 2(3) nz False by (simp_all split: if_splits)
      have "staged_sqe_count ?d = length (prepared ?d)" using 2(4) by (simp add: kernel_takes_def Let_def)
      from 2(2) [OF nz False g(1,2,3,4) this] obtain answers where "c' = all_taken answers ?d" ..
      then show ?thesis using all_taken_after [OF 2(4)] by metis
    qed
  qed
qed

lemma SubmitStagedSqes_Done:
  "SubmitStagedSqes c = Done c' \<Longrightarrow> staged_sqe_count c = length (prepared c) \<Longrightarrow> \<exists>answers. c' = all_taken answers c"
  unfolding SubmitStagedSqes_def by (rule submit_loop_Done)

text \<open>Only the kernel's answers can make a submission fail.\<close>

definition submission_faults :: "string list" where
  "submission_faults =
    [''io_uring_submit returned zero while operations remain staged'',
     ''io_uring_submit reported more operations than were staged'']"

lemma submit_loop_Aborted: "submit_loop rs c = Aborted m \<Longrightarrow> m \<in> set submission_faults"
  by (induction rs c rule: submit_loop.induct) (auto simp: submission_faults_def split: if_splits)

lemma SubmitStagedSqes_Aborted: "SubmitStagedSqes c = Aborted m \<Longrightarrow> m \<in> set submission_faults"
  unfolding SubmitStagedSqes_def by (rule submit_loop_Aborted)

lemma AcquireSqe_Aborted: "AcquireSqe c = Aborted m \<Longrightarrow> m \<in> set submission_faults"
  by (auto simp: AcquireSqe_def Let_def and_then_Aborted split: if_splits dest: SubmitStagedSqes_Aborted)

section \<open>The table of operations\<close>

text \<open>The table holds each live operation once, at the index the operation records.\<close>

definition table :: "(nat \<Rightarrow> operation option) \<Rightarrow> nat list \<Rightarrow> bool" where
  "table h ops \<longleftrightarrow> distinct ops \<and> dom h = set ops \<and>
     (\<forall>i < length ops. \<forall>op. h (ops ! i) = Some op \<longrightarrow> owner_index op = i)"

lemma table_entry:
  assumes "table h ops" "a \<in> set ops"
  obtains op where "h a = Some op" "owner_index op < length ops" "ops ! owner_index op = a"
proof -
  from assms(2) obtain i where i: "i < length ops" "ops ! i = a" by (auto simp: in_set_conv_nth)
  from assms obtain op where op: "h a = Some op" unfolding table_def by blast
  with assms(1) i have "owner_index op = i" unfolding table_def by blast
  with op i that show thesis by blast
qed

lemma fresh_address_free:
  assumes "table (heap c) (operations c)"
  shows "heap c (fresh_address c) = None"
proof -
  let ?xs = "[0 ..< Suc (length (operations c))]"
  have "\<exists>a \<in> set ?xs. heap c a = None"
  proof (rule ccontr)
    assume "\<not> ?thesis"
    then have "set ?xs \<subseteq> set (operations c)" using assms unfolding table_def by blast
    then have "card (set ?xs) \<le> card (set (operations c))" by (rule card_mono [rotated]) simp
    also have "\<dots> \<le> length (operations c)" by (rule card_length)
    finally show False by simp
  qed
  then obtain a where "find (\<lambda>a. heap c a = None) ?xs = Some a" "heap c a = None"
    by (metis (mono_tags, lifting) find_None_iff find_Some_iff not_Some_eq)
  then show ?thesis by (simp add: fresh_address_def)
qed

lemma table_insert:
  assumes "table h ops" "h a = None"
  shows "table (h(a \<mapsto> op\<lparr>owner_index := length ops\<rparr>)) (ops @ [a])"
proof -
  have "a \<notin> set ops" using assms unfolding table_def by blast
  then show ?thesis using assms unfolding table_def
    by (auto simp: nth_append dest: nth_mem split: if_splits)
qed

definition take_ops :: "nat list \<Rightarrow> nat \<Rightarrow> nat list" where
  "take_ops ops i = (if i \<noteq> length ops - 1 then butlast (ops[i := last ops]) else butlast ops)"

lemma take_ops_spec:
  assumes "i < length ops" "distinct ops"
  shows "length (take_ops ops i) = length ops - 1" "mset (take_ops ops i) = mset ops - {#ops ! i#}"
    "j < length ops - 1 \<Longrightarrow> take_ops ops i ! j = (if j = i then last ops else ops ! j)"
proof -
  obtain ys y where ops: "ops = ys @ [y]" using assms(1) by (metis length_greater_0_conv list.size(3) not_less0 rev_exhaust)
  show "length (take_ops ops i) = length ops - 1" by (simp add: take_ops_def)
  show "j < length ops - 1 \<Longrightarrow> take_ops ops i ! j = (if j = i then last ops else ops ! j)"
    using assms(1) by (auto simp: take_ops_def ops nth_append butlast_append nth_list_update list_update_append)
  show "mset (take_ops ops i) = mset ops - {#ops ! i#}"
  proof (cases "i = length ys")
    case True
    then show ?thesis by (simp add: take_ops_def ops)
  next
    case False
    then have "i < length ys" using assms(1) by (simp add: ops)
    then show ?thesis by (simp add: take_ops_def ops list_update_append nth_append butlast_append mset_update)
  qed
qed

lemma TakeOperation_eq:
  assumes "i = owner_index op" "i < length (operations c)" "operations c ! i = a" "table (heap c) (operations c)"
  shows "operations (TakeOperation a op c) = take_ops (operations c) i"
    "heap (TakeOperation a op c) b =
      (if b = a then None
       else if b = last (operations c) then map_option (\<lambda>o'. o'\<lparr>owner_index := i\<rparr>) (heap c b) else heap c b)"
proof -
  show "operations (TakeOperation a op c) = take_ops (operations c) i"
    using assms by (simp add: TakeOperation_def take_ops_def Let_def)
  have l: "last (operations c) = operations c ! (length (operations c) - 1)"
    using assms(2) by (metis last_conv_nth length_greater_0_conv less_zeroE list.size(3))
  have "last (operations c) = a \<longleftrightarrow> i = length (operations c) - 1"
    using assms(2,3,4) unfolding l table_def by (metis One_nat_def diff_Suc_less less_nat_zero_code list.size(3) length_greater_0_conv nth_eq_iff_index_eq)
  then show "heap (TakeOperation a op c) b =
      (if b = a then None
       else if b = last (operations c) then map_option (\<lambda>o'. o'\<lparr>owner_index := i\<rparr>) (heap c b) else heap c b)"
    using assms by (auto simp: TakeOperation_def Let_def)
qed

lemma TakeOperation_table:
  assumes "i = owner_index op" "i < length (operations c)" "operations c ! i = a" "table (heap c) (operations c)"
  shows "table (heap (TakeOperation a op c)) (operations (TakeOperation a op c))"
    "mset (operations (TakeOperation a op c)) = mset (operations c) - {#a#}"
proof -
  let ?ops = "operations c" and ?h = "heap (TakeOperation a op c)"
  note h = TakeOperation_eq(2) [OF assms] and o = TakeOperation_eq(1) [OF assms]
  have d: "distinct ?ops" "dom (heap c) = set ?ops"
    and idx: "\<And>j op. j < length ?ops \<Longrightarrow> heap c (?ops ! j) = Some op \<Longrightarrow> owner_index op = j"
    using assms(4) unfolding table_def by blast+
  note s = take_ops_spec [OF assms(2) d(1)]
  show m: "mset (operations (TakeOperation a op c)) = mset ?ops - {#a#}" using s(2) assms(3) o by simp
  then have set: "set (take_ops ?ops i) = set ?ops - {a}"
    using d(1) unfolding o by (metis mset_remove1 set_mset_mset set_remove1_eq)
  have dist: "distinct (take_ops ?ops i)"
    using d(1) m unfolding o by (metis distinct_remove1 mset_eq_imp_distinct_iff mset_remove1)
  have l: "last ?ops = ?ops ! (length ?ops - 1)"
    using assms(2) by (metis last_conv_nth length_greater_0_conv less_zeroE list.size(3))
  have "owner_index op' = j" if j: "j < length (take_ops ?ops i)" and op': "?h (take_ops ?ops i ! j) = Some op'" for j op'
  proof -
    have jl: "j < length ?ops - 1" using j s(1) by simp
    show ?thesis
    proof (cases "j = i")
      case True
      then have "?h (last ?ops) = Some op'" using op' s(3) [OF jl] by simp
      then show ?thesis using True by (auto simp: h split: if_splits)
    next
      case False
      have ne: "?ops ! j \<noteq> last ?ops" using d(1) jl unfolding l by (simp add: nth_eq_iff_index_eq)
      have "?h (?ops ! j) = Some op'" using op' s(3) [OF jl] False by simp
      then have "heap c (?ops ! j) = Some op'" using ne by (simp add: h split: if_splits)
      then show ?thesis using idx jl by simp
    qed
  qed
  moreover have "dom ?h = set ?ops - {a}" unfolding d(2) [symmetric] by (auto simp: h dom_def)
  ultimately show "table ?h (operations (TakeOperation a op c))"
    unfolding table_def o set using dist by blast
qed

section \<open>Ownership of the operations\<close>

definition finals :: "cqe list \<Rightarrow> nat list" where
  "finals qs = map (the \<circ> cqe_data) (filter (\<lambda>q. \<not> cqe_more q) qs)"

text \<open>A completion that announces more is followed by another one: its request is still with the
  kernel, or its last completion is further back in the queue.\<close>

fun live_queue :: "nat set \<Rightarrow> cqe list \<Rightarrow> bool" where
  "live_queue K [] \<longleftrightarrow> True"
| "live_queue K (q # qs) \<longleftrightarrow> (cqe_more q \<longrightarrow> the (cqe_data q) \<in> K \<union> set (finals qs)) \<and> live_queue K qs"

definition own :: "uring_context \<Rightarrow> bool" where
  "own c \<longleftrightarrow> table (heap c) (operations c) \<and>
     mset (operations c) = mset (prepared c) + mset (in_kernel c) + mset (finals (completions c)) \<and>
     live_queue (set (in_kernel c)) (completions c) \<and>
     (\<forall>q \<in> set (completions c). \<exists>a op. cqe_data q = Some a \<and> heap c a = Some op \<and> (cqe_more q \<longrightarrow> multishot op)) \<and>
     staged_sqe_count c = length (prepared c) \<and> length (prepared c) \<le> sq_entries c \<and> 0 < sq_entries c \<and>
     length (operations c) \<le> operations_capacity c \<and> 0 < operations_capacity c"

definition pollin_queued :: "uring_context \<Rightarrow> bool" where
  "pollin_queued c \<longleftrightarrow> (\<exists>q \<in> set (completions c). cqe_res q = POLLIN \<and> is_wakeup c (the (cqe_data q)))"

text \<open>A counter above zero and an armed poll: the poll is going to fire, or has.\<close>

definition signalled :: "uring_context \<Rightarrow> bool" where
  "signalled c \<longleftrightarrow>
    (eventfd_count c > 0 \<longrightarrow> list_ex (is_wakeup c) (in_kernel c) \<longrightarrow> poll_due c \<or> pollin_queued c)"

definition wakeups :: "uring_context \<Rightarrow> nat" where
  "wakeups c = size (filter_mset (is_wakeup c) (mset (operations c)))"

definition kern :: "uring_context \<Rightarrow> bool" where
  "kern c \<longleftrightarrow> own c \<and> signalled c"

text \<open>What submitting and staging leave alone.\<close>

definition same_rest :: "uring_context \<Rightarrow> uring_context \<Rightarrow> bool" where
  "same_rest c c' \<longleftrightarrow> ctx_net c' = ctx_net c \<and> sq_entries c' = sq_entries c \<and> completions c' = completions c \<and>
     eventfd_count c' = eventfd_count c \<and> awaitables c' = awaitables c \<and> ctx_pool c' = ctx_pool c \<and>
     wakeup_fd c' = wakeup_fd c \<and> run_thread_id c' = run_thread_id c \<and> context_stop c' = context_stop c \<and>
     wakeup_poll_cancel_submitted c' = wakeup_poll_cancel_submitted c \<and> accepting_posts c' = accepting_posts c \<and>
     posted c' = posted c \<and> signals_due c' = signals_due c \<and> run_pc c' = run_pc c \<and> ran c' = ran c \<and>
     fetched c' = fetched c \<and> eventfd_errors c' = eventfd_errors c"

lemma same_rest_refl: "same_rest c c"
  by (simp add: same_rest_def)

lemma same_rest_trans: "same_rest c c' \<Longrightarrow> same_rest c' c'' \<Longrightarrow> same_rest c c''"
  by (simp add: same_rest_def)

lemma live_queue_mono: "live_queue K qs \<Longrightarrow> K \<subseteq> K' \<Longrightarrow> live_queue K' qs"
  by (induction qs) auto

lemma all_taken_kern:
  assumes "kern c"
  shows "kern (all_taken answers c)" "same_rest c (all_taken answers c)" "heap (all_taken answers c) = heap c"
    "operations (all_taken answers c) = operations c" "prepared (all_taken answers c) = []"
    "operations_capacity (all_taken answers c) = operations_capacity c"
proof -
  let ?c = "all_taken answers c"
  show h: "heap ?c = heap c" and "operations ?c = operations c" "prepared ?c = []"
    "operations_capacity ?c = operations_capacity c"
    by (simp_all add: all_taken_def)
  show "same_rest c ?c" by (simp add: all_taken_def same_rest_def)
  have "live_queue (set (in_kernel c @ prepared c)) (completions c)"
    using assms unfolding kern_def own_def by (auto elim: live_queue_mono)
  then have "own ?c" using assms unfolding kern_def own_def by (simp add: all_taken_def ac_simps)
  moreover have "signalled ?c"
    using assms is_wakeup_cong [OF h] unfolding kern_def signalled_def pollin_queued_def
    by (auto simp: all_taken_def)
  ultimately show "kern ?c" unfolding kern_def ..
qed

lemma SubmitStagedSqes_kern:
  assumes "SubmitStagedSqes c = Done c'" "kern c"
  shows "kern c'" "same_rest c c'" "heap c' = heap c" "operations c' = operations c" "prepared c' = []"
    "operations_capacity c' = operations_capacity c"
proof -
  have "staged_sqe_count c = length (prepared c)" using assms(2) by (simp add: kern_def own_def)
  from SubmitStagedSqes_Done [OF assms(1) this] obtain answers where "c' = all_taken answers c" ..
  then show "kern c'" "same_rest c c'" "heap c' = heap c" "operations c' = operations c" "prepared c' = []"
    "operations_capacity c' = operations_capacity c"
    using all_taken_kern [OF assms(2)] by simp_all
qed

lemma capacity_kern:
  assumes "kern c" "operations_capacity c \<le> k"
  shows "kern (c\<lparr>operations_capacity := k\<rparr>)"
proof -
  have w: "is_wakeup (c\<lparr>operations_capacity := k\<rparr>) = is_wakeup c" by (rule is_wakeup_cong) simp
  show ?thesis using assms unfolding kern_def own_def signalled_def pollin_queued_def w by auto
qed

lemma AcquireSqe_kern:
  assumes "AcquireSqe c = Done c'" "kern c"
  shows "kern c'" "same_rest c c'" "heap c' = heap c" "operations c' = operations c"
    "length (prepared c') < sq_entries c'" "length (operations c') < operations_capacity c'"
proof -
  define d where "d = (if length (operations c) = operations_capacity c
    then c\<lparr>operations_capacity := operations_capacity c * 2\<rparr> else c)"
  have o: "length (operations c) \<le> operations_capacity c" "0 < operations_capacity c"
    using assms(2) by (simp_all add: kern_def own_def)
  have d: "kern d" "same_rest c d" "heap d = heap c" "operations d = operations c"
    "length (operations d) < operations_capacity d"
    using capacity_kern [OF assms(2)] assms(2) o by (simp_all add: d_def same_rest_def)
  have a: "(if length (prepared d) \<ge> sq_entries d \<and> staged_sqe_count d \<noteq> 0 then SubmitStagedSqes d else Done d) = Done c'"
    "length (prepared c') < sq_entries c'"
    using assms(1) unfolding AcquireSqe_def d_def [symmetric] Let_def by (auto simp: and_then_Done split: if_splits)
  show "length (prepared c') < sq_entries c'" by (rule a(2))
  show "kern c'" "same_rest c c'" "heap c' = heap c" "operations c' = operations c"
    "length (operations c') < operations_capacity c'"
    using a(1) d SubmitStagedSqes_kern [of d c'] same_rest_trans by (auto split: if_splits)
qed

text \<open>\<open>staged_as op c a c'\<close>: \<open>c'\<close> is \<open>c\<close> with \<open>op\<close> handed over to the table under the new address \<open>a\<close>.\<close>

definition staged_as :: "operation \<Rightarrow> uring_context \<Rightarrow> nat \<Rightarrow> uring_context \<Rightarrow> bool" where
  "staged_as op c a c' \<longleftrightarrow> kern c' \<and> same_rest c c' \<and> heap c a = None \<and>
     heap c' = (heap c)(a \<mapsto> op\<lparr>owner_index := length (operations c)\<rparr>) \<and> operations c' = operations c @ [a]"

lemma pollin_queued_mono:
  assumes "own c" "\<And>a. heap c a \<noteq> None \<Longrightarrow> heap c' a = heap c a" "completions c' = completions c"
  shows "pollin_queued c' \<longleftrightarrow> pollin_queued c"
proof -
  have "is_wakeup c' (the (cqe_data q)) \<longleftrightarrow> is_wakeup c (the (cqe_data q))" if "q \<in> set (completions c)" for q
    using that assms(1,2) unfolding own_def is_wakeup_def by fastforce
  then show ?thesis unfolding pollin_queued_def assms(3) by blast
qed

lemma in_kernel_live:
  assumes "own c" "a \<in> set (prepared c) \<union> set (in_kernel c) \<union> set (finals (completions c))"
  shows "a \<in> set (operations c)" "heap c a \<noteq> None"
proof -
  have "mset (operations c) = mset (prepared c @ in_kernel c @ finals (completions c))"
    using assms(1) by (simp add: own_def ac_simps)
  then have "set (operations c) = set (prepared c @ in_kernel c @ finals (completions c))" by (rule mset_eq_setD)
  then show "a \<in> set (operations c)" using assms(2) by auto
  then show "heap c a \<noteq> None" using assms(1) unfolding own_def table_def by blast
qed

lemma list_ex_wakeup_cong:
  assumes "own c" "\<And>a. heap c a \<noteq> None \<Longrightarrow> heap c' a = heap c a"
  shows "list_ex (is_wakeup c') (in_kernel c) \<longleftrightarrow> list_ex (is_wakeup c) (in_kernel c)"
proof -
  have "is_wakeup c' a \<longleftrightarrow> is_wakeup c a" if "a \<in> set (in_kernel c)" for a
    using in_kernel_live(2) [OF assms(1), of a] that assms(2) [of a] unfolding is_wakeup_def by simp
  then show ?thesis by (auto simp: list_ex_iff)
qed

lemma StageOperation_kern:
  assumes "StageOperation op c = Done (a, c')" "kern c" "length (prepared c) < sq_entries c"
  shows "staged_as op c a c'"
proof -
  have l: "length (operations c) < operations_capacity c" and a: "a = fresh_address c"
    and c': "c' = c\<lparr>prepared := prepared c @ [a],
       heap := (heap c)(a \<mapsto> op\<lparr>owner_index := length (operations c)\<rparr>),
       operations := operations c @ [a], staged_sqe_count := staged_sqe_count c + 1\<rparr>"
    using assms(1) unfolding StageOperation_def Let_def by (auto split: if_splits)
  have o: "own c" "signalled c" using assms(2) by (simp_all add: kern_def)
  then have t: "table (heap c) (operations c)" by (simp add: own_def)
  have f: "heap c a = None" unfolding a by (rule fresh_address_free [OF t])
  have keep: "heap c' b = heap c b" if "heap c b \<noteq> None" for b using that f by (auto simp: c')
  have q: "\<exists>b op. cqe_data q = Some b \<and> heap c' b = Some op \<and> (cqe_more q \<longrightarrow> multishot op)"
    if "q \<in> set (completions c)" for q
    using that o(1) keep unfolding own_def by (metis option.distinct(1))
  have "own c'"
    using o(1) l assms(3) table_insert [OF t f, of op] q unfolding own_def by (simp add: c' ac_simps)
  moreover have "signalled c'"
  proof -
    have "pollin_queued c' \<longleftrightarrow> pollin_queued c" by (rule pollin_queued_mono [OF o(1) keep]) (simp_all add: c')
    moreover have "list_ex (is_wakeup c') (in_kernel c) \<longleftrightarrow> list_ex (is_wakeup c) (in_kernel c)"
      by (rule list_ex_wakeup_cong [OF o(1) keep])
    moreover have "eventfd_count c' = eventfd_count c" "in_kernel c' = in_kernel c" "poll_due c' = poll_due c"
      by (simp_all add: c')
    ultimately show ?thesis using o(2) unfolding signalled_def by simp
  qed
  ultimately show ?thesis using f unfolding staged_as_def kern_def by (simp add: c' same_rest_def)
qed

lemma acquire_stage_kern:
  assumes "AcquireSqe c = Done d" "StageOperation op d = Done (a, c')" "kern c"
  shows "staged_as op c a c'"
proof -
  note acq = AcquireSqe_kern [OF assms(1,3)]
  from StageOperation_kern [OF assms(2) acq(1,5)] show ?thesis
    using acq same_rest_trans [of c d c'] unfolding staged_as_def by auto
qed

lemma StageOperation_Done:
  assumes "AcquireSqe c = Done d" "kern c"
  shows "\<exists>a c'. StageOperation op d = Done (a, c')"
  using AcquireSqe_kern(6) [OF assms] by (simp add: StageOperation_def Let_def)

lemma wakeups_staged:
  assumes "staged_as op c a c'" "own c"
  shows "wakeups c' = wakeups c + (if category op = CatWakeup then 1 else 0)"
proof -
  have h: "heap c a = None" "heap c' = (heap c)(a \<mapsto> op\<lparr>owner_index := length (operations c)\<rparr>)"
    "operations c' = operations c @ [a]"
    using assms(1) by (simp_all add: staged_as_def)
  have "is_wakeup c' b \<longleftrightarrow> is_wakeup c b" if "b \<in> set (operations c)" for b
    using that h(1) assms(2) unfolding own_def table_def is_wakeup_def h(2) by auto
  then have "filter_mset (is_wakeup c') (mset (operations c)) = filter_mset (is_wakeup c) (mset (operations c))"
    by (intro filter_mset_cong) auto
  moreover have "is_wakeup c' a \<longleftrightarrow> category op = CatWakeup" by (simp add: is_wakeup_def h(2))
  ultimately show ?thesis unfolding wakeups_def h(3) by simp
qed

lemma wakeups_cong: "heap c' = heap c \<Longrightarrow> operations c' = operations c \<Longrightarrow> wakeups c' = wakeups c"
  unfolding wakeups_def by (drule is_wakeup_cong) simp

section \<open>Awaitables and what they wait for\<close>

definition startable :: "uring_context \<Rightarrow> operation \<Rightarrow> bool" where
  "startable c op \<longleftrightarrow> category op = CatAwaitable \<and> op_type op \<noteq> OpUnknown \<and>
     (op_type op = OpRecvProvided \<longrightarrow> ctx_pool c \<noteq> None)"

text \<open>A started operation of a coroutine and its awaitable refer to each other, and a coroutine waits
  on it, save for the awaitables in \<open>X\<close>.\<close>

definition op_linked :: "nat set \<Rightarrow> uring_context \<Rightarrow> nat \<Rightarrow> operation \<Rightarrow> bool" where
  "op_linked X c a op \<longleftrightarrow> (category op = CatAwaitable \<longrightarrow> startable c op \<and>
     (\<exists>w aw. op_awaitable op = Some w \<and> awaitables c w = Some aw \<and> handed_off_operation aw = Some a \<and>
        (w \<notin> X \<longrightarrow> continuation aw \<noteq> None)))"

definition aw_linked :: "uring_context \<Rightarrow> nat \<Rightarrow> awaitable \<Rightarrow> bool" where
  "aw_linked c w aw \<longleftrightarrow> (\<forall>op. owned_operation aw = Some op \<longrightarrow> startable c op) \<and>
     (\<forall>a. handed_off_operation aw = Some a \<longrightarrow>
        (\<exists>op. heap c a = Some op \<and> category op = CatAwaitable \<and> op_awaitable op = Some w))"

definition links :: "nat set \<Rightarrow> uring_context \<Rightarrow> bool" where
  "links X c \<longleftrightarrow> (\<forall>a op. heap c a = Some op \<longrightarrow> op_linked X c a op) \<and>
     (\<forall>w aw. awaitables c w = Some aw \<longrightarrow> aw_linked c w aw)"

lemma links_cong:
  assumes "links X c" "heap c' = heap c" "awaitables c' = awaitables c" "ctx_pool c' = None \<longleftrightarrow> ctx_pool c = None"
  shows "links X c'"
  using assms unfolding links_def op_linked_def aw_linked_def startable_def by simp

lemma links_update:
  assumes "links X c" "awaitables c w = Some aw" "handed_off_operation aw' = handed_off_operation aw"
    "continuation aw \<noteq> None \<Longrightarrow> w \<notin> X \<Longrightarrow> continuation aw' \<noteq> None"
    "owned_operation aw' = owned_operation aw \<or> owned_operation aw' = None"
  shows "links X (c\<lparr>awaitables := (awaitables c)(w \<mapsto> aw')\<rparr>)"
proof -
  let ?c = "c\<lparr>awaitables := (awaitables c)(w \<mapsto> aw')\<rparr>"
  have "op_linked X ?c a op" if "heap c a = Some op" for a op
    using assms that unfolding links_def op_linked_def startable_def by fastforce
  moreover have "aw_linked ?c v av" if "awaitables ?c v = Some av" for v av
  proof -
    have "aw_linked c w aw" using assms(1,2) by (simp add: links_def)
    then have "aw_linked ?c w aw'" using assms(3,5) by (auto simp: aw_linked_def startable_def)
    moreover have "aw_linked ?c v av" if "awaitables c v = Some av"
      using assms(1) that by (auto simp: links_def aw_linked_def startable_def)
    ultimately show ?thesis using that by (auto split: if_splits)
  qed
  ultimately show ?thesis by (simp add: links_def)
qed

lemma links_idle:
  assumes "links X c" "\<And>aw. awaitables c w = Some aw \<Longrightarrow> handed_off_operation aw = None"
    "\<And>aw'. av = Some aw' \<Longrightarrow> handed_off_operation aw' = None \<and>
       (\<forall>op. owned_operation aw' = Some op \<longrightarrow> startable c op)"
  shows "links X (c\<lparr>awaitables := (awaitables c)(w := av)\<rparr>)"
proof -
  let ?c = "c\<lparr>awaitables := (awaitables c)(w := av)\<rparr>"
  have "op_linked X ?c a op" if "heap c a = Some op" for a op
    using assms(1,2) that unfolding links_def op_linked_def startable_def by fastforce
  moreover have "aw_linked ?c v aw" if "awaitables ?c v = Some aw" for v aw
  proof (cases "v = w")
    case True
    then show ?thesis using that assms(3) [of aw] by (auto simp: aw_linked_def startable_def)
  next
    case False
    then have "aw_linked c v aw" using that assms(1) by (simp add: links_def)
    then show ?thesis by (simp add: aw_linked_def startable_def)
  qed
  ultimately show ?thesis by (simp add: links_def)
qed

lemma links_stage_other:
  assumes "links X c" "heap c a = None" "category op \<noteq> CatAwaitable"
    "heap c' = (heap c)(a \<mapsto> op)" "awaitables c' = awaitables c" "ctx_pool c' = ctx_pool c"
  shows "links X c'"
proof -
  have "op_linked X c' b o'" if "heap c' b = Some o'" for b o'
    using that assms unfolding links_def op_linked_def startable_def by (auto split: if_splits)
  moreover have "aw_linked c' v av" if "awaitables c' v = Some av" for v av
  proof -
    have "aw_linked c v av" using that assms(1,5) by (simp add: links_def)
    then show ?thesis using assms(2,4,6) unfolding aw_linked_def startable_def by fastforce
  qed
  ultimately show ?thesis by (simp add: links_def)
qed

lemma links_start:
  assumes "links X c" "awaitables c w = Some aw" "handed_off_operation aw = None" "heap c a = None" "startable c op"
    "op_awaitable op = Some w" "heap c' = (heap c)(a \<mapsto> op)" "ctx_pool c' = ctx_pool c"
    "awaitables c' = (awaitables c)(w \<mapsto> aw')" "handed_off_operation aw' = Some a" "owned_operation aw' = None"
    "continuation aw' \<noteq> None"
  shows "links X c'"
proof -
  have "op_linked X c' b o'" if b: "heap c' b = Some o'" for b o'
  proof (cases "b = a")
    case True
    then show ?thesis using b assms by (auto simp: op_linked_def startable_def)
  next
    case False
    then have "op_linked X c b o'" using b assms(1,7) by (auto simp: links_def)
    then show ?thesis using assms(2,3,8,9) unfolding op_linked_def startable_def by fastforce
  qed
  moreover have "aw_linked c' v av" if v: "awaitables c' v = Some av" for v av
  proof (cases "v = w")
    case True
    then show ?thesis using v assms by (auto simp: aw_linked_def startable_def)
  next
    case False
    then have "aw_linked c v av" using v assms(1,9) by (auto simp: links_def)
    then show ?thesis using assms(4,7,8) unfolding aw_linked_def startable_def by fastforce
  qed
  ultimately show ?thesis by (simp add: links_def)
qed

section \<open>Requests to the loop\<close>

fun swapping :: "run_pc \<Rightarrow> bool" where
  "swapping (RunSwap has_more n) = True"
| "swapping _ = False"

fun handling :: "run_pc \<Rightarrow> bool" where
  "handling (RunSwap has_more n) = True"
| "handling (RunCallbacks fs has_more n) = True"
| "handling _ = False"

text \<open>A queued callback and a requested stop are known to the loop, or will be: a signal is under way,
  the counter is above zero, or the handler has not looked yet. A stop is also known when the
  cancellation of the poll has been submitted or the poll is gone.\<close>

definition requested :: "uring_context \<Rightarrow> bool" where
  "requested c \<longleftrightarrow> (accepting_posts c \<longleftrightarrow> \<not> context_stop c) \<and>
     (posted c \<noteq> [] \<longrightarrow> signals_due c > 0 \<or> eventfd_count c > 0 \<or> swapping (run_pc c)) \<and>
     (context_stop c \<longrightarrow> signals_due c > 0 \<or> eventfd_count c > 0 \<or> handling (run_pc c) \<or>
        wakeup_poll_cancel_submitted c \<or> wakeups c = 0) \<and>
     (wakeup_poll_cancel_submitted c \<longrightarrow> context_stop c)"

definition good :: "nat set \<Rightarrow> uring_context \<Rightarrow> bool" where
  "good X c \<longleftrightarrow> kern c \<and> links X c \<and> requested c"

text \<open>What a coroutine or a callback cannot change.\<close>

definition acted :: "uring_context \<Rightarrow> uring_context \<Rightarrow> bool" where
  "acted c c' \<longleftrightarrow> sq_entries c' = sq_entries c \<and> completions c' = completions c \<and> wakeup_fd c' = wakeup_fd c \<and>
     run_thread_id c' = run_thread_id c \<and> run_pc c' = run_pc c \<and> ran c' = ran c \<and> wakeups c' = wakeups c \<and>
     wakeup_poll_cancel_submitted c' = wakeup_poll_cancel_submitted c \<and> (context_stop c \<longrightarrow> context_stop c') \<and>
     (ctx_pool c' = None \<longleftrightarrow> ctx_pool c = None) \<and> heap c \<subseteq>\<^sub>m heap c'"

lemma acted_refl: "acted c c"
  by (simp add: acted_def)

lemma acted_trans: "acted c c' \<Longrightarrow> acted c' c'' \<Longrightarrow> acted c c''"
  by (auto simp: acted_def intro: map_le_trans)

lemma kern_cong:
  assumes "kern c" "heap c' = heap c" "operations c' = operations c" "prepared c' = prepared c"
    "in_kernel c' = in_kernel c" "completions c' = completions c" "staged_sqe_count c' = staged_sqe_count c"
    "sq_entries c' = sq_entries c" "operations_capacity c' = operations_capacity c"
    "poll_due c' \<and> eventfd_count c' > 0 \<or> poll_due c' = poll_due c \<and> eventfd_count c' = eventfd_count c"
  shows "kern c'"
  using assms is_wakeup_cong [OF assms(2)] unfolding kern_def own_def signalled_def pollin_queued_def by auto

text \<open>Updates of the awaitables, the buffers and the counters.\<close>

lemma good_plain:
  assumes "good X c" "links X c'" "heap c' = heap c" "operations c' = operations c" "prepared c' = prepared c"
    "in_kernel c' = in_kernel c" "staged_sqe_count c' = staged_sqe_count c"
    "operations_capacity c' = operations_capacity c" "poll_due c' = poll_due c"
    "eventfd_count c' = eventfd_count c" "context_stop c' = context_stop c"
    "accepting_posts c' = accepting_posts c" "posted c' = posted c" "signals_due c' = signals_due c"
    "sq_entries c' = sq_entries c" "completions c' = completions c" "wakeup_fd c' = wakeup_fd c"
    "run_thread_id c' = run_thread_id c" "run_pc c' = run_pc c" "ran c' = ran c"
    "wakeup_poll_cancel_submitted c' = wakeup_poll_cancel_submitted c" "ctx_pool c' = None \<longleftrightarrow> ctx_pool c = None"
  shows "good X c' \<and> acted c c'"
proof -
  have "kern c'" by (rule kern_cong [of c]) (use assms in \<open>simp_all add: good_def\<close>)
  then show ?thesis
    using assms wakeups_cong [OF assms(3,4)] by (simp add: good_def requested_def acted_def)
qed

lemma good_same_rest:
  assumes "requested c" "same_rest c c'" "wakeups c' = wakeups c" "heap c \<subseteq>\<^sub>m heap c'"
  shows "requested c' \<and> acted c c'"
  using assms by (simp add: same_rest_def requested_def acted_def)

lemma staged_good:
  assumes "good X c" "staged_as op c a c'" "category op = CatCancel"
  shows "good X c' \<and> acted c c'"
proof -
  have g: "kern c" "links X c" "requested c" using assms(1) by (simp_all add: good_def)
  have s: "kern c'" "same_rest c c'" "heap c a = None"
    "heap c' = (heap c)(a \<mapsto> op\<lparr>owner_index := length (operations c)\<rparr>)"
    using assms(2) by (simp_all add: staged_as_def)
  have "wakeups c' = wakeups c" using wakeups_staged [OF assms(2)] g(1) assms(3) by (simp add: kern_def)
  moreover have "links X c'"
    by (rule links_stage_other [OF g(2) s(3) _ s(4)]) (use s(2) assms(3) in \<open>simp_all add: same_rest_def\<close>)
  moreover have "heap c \<subseteq>\<^sub>m heap c'" using s(3,4) by (auto simp: map_le_def)
  ultimately show ?thesis using good_same_rest [OF g(3) s(2)] s(1) by (simp add: good_def)
qed

lemma submitted_good:
  assumes "good X c" "SubmitStagedSqes c = Done c'"
  shows "good X c' \<and> acted c c'"
proof -
  have g: "kern c" "links X c" "requested c" using assms(1) by (simp_all add: good_def)
  note s = SubmitStagedSqes_kern [OF assms(2) g(1)]
  have "links X c'" by (rule links_cong [OF g(2) s(3)]) (use s(2) in \<open>simp_all add: same_rest_def\<close>)
  then show ?thesis using good_same_rest [OF g(3) s(2) wakeups_cong [OF s(3,4)]] s(1,3) by (simp add: good_def)
qed

lemma CancelFd_good:
  assumes "good X c" "CancelFd t fd c = Done c'"
  shows "good X c' \<and> acted c c'"
proof (cases "fd < 0 \<or> \<not> IsRunning c")
  case True
  then show ?thesis using assms acted_refl by (simp add: CancelFd_def)
next
  case False
  then obtain d a e where s: "AcquireSqe c = Done d"
    "StageOperation (new_operation\<lparr>category := CatCancel, op_fd := fd\<rparr>) d = Done (a, e)" "SubmitStagedSqes e = Done c'"
    using assms(2) by (auto simp: CancelFd_def and_then_Done)
  have "kern c" using assms(1) by (simp add: good_def)
  from staged_good [OF assms(1) acquire_stage_kern [OF s(1,2) this]] have e: "good X e" "acted c e" by simp_all
  from submitted_good [OF this(1) s(3)] show ?thesis using e(2) acted_trans by blast
qed

lemma signal_loop_Done:
  assumes "signal_loop es c = Done c'"
  shows "c' = c\<lparr>eventfd_errors := [], eventfd_count := eventfd_count c + 1, poll_due := True\<rparr> \<or>
    c' = c\<lparr>eventfd_errors := []\<rparr> \<and> eventfd_count c > 0"
  using assms
proof (induction es)
  case Nil
  have "EVENTFD_MAX > 0" by (simp add: EVENTFD_MAX_def)
  then show ?case using Nil by (auto split: if_splits)
next
  case (Cons e es)
  then show ?case by (auto split: if_splits)
qed

lemma SignalWakeup_good:
  assumes "SignalWakeup c = Done c'" "kern c" "links X c" "accepting_posts c \<longleftrightarrow> \<not> context_stop c"
    "wakeup_poll_cancel_submitted c \<longrightarrow> context_stop c"
  shows "good X c' \<and> acted c c' \<and> signals_due c' = signals_due c \<and> eventfd_count c' > 0"
proof -
  have s: "c' = c\<lparr>eventfd_errors := [], eventfd_count := eventfd_count c + 1, poll_due := True\<rparr> \<or>
    c' = c\<lparr>eventfd_errors := []\<rparr> \<and> eventfd_count c > 0"
    using assms(1) unfolding SignalWakeup_def by (rule signal_loop_Done)
  have "kern c'" by (rule kern_cong [OF assms(2)]) (use s in auto)
  moreover have "links X c'" by (rule links_cong [OF assms(3)]) (use s in auto)
  moreover have "eventfd_count c' > 0" using s by auto
  moreover have w: "wakeups c' = wakeups c" by (rule wakeups_cong) (use s in auto)
  moreover have "requested c'" using assms(4,5) \<open>eventfd_count c' > 0\<close> s by (auto simp: requested_def)
  moreover have "acted c c'" using w s by (auto simp: acted_def)
  moreover have "signals_due c' = signals_due c" using s by auto
  ultimately show ?thesis by (simp add: good_def)
qed

lemma post_locked_kern:
  assumes "post_locked f c = (signal, c')" "kern c" "links X c"
  shows "kern c'" "links X c'" "acted c c'"
proof -
  have s: "c' = c \<or> c' = c\<lparr>posted := posted c @ [f]\<rparr>"
    using assms(1) by (auto simp: post_locked_def split: if_splits)
  show "kern c'" by (rule kern_cong [OF assms(2)]) (use s in auto)
  show "links X c'" by (rule links_cong [OF assms(3)]) (use s in auto)
  have "wakeups c' = wakeups c" by (rule wakeups_cong) (use s in auto)
  then show "acted c c'" using s by (auto simp: acted_def)
qed

lemma stop_locked_kern:
  assumes "stop_locked c = (signal, c')" "kern c" "links X c"
  shows "kern c'" "links X c'" "acted c c'"
proof -
  have s: "c' = c \<or> c' = c\<lparr>accepting_posts := False, context_stop := True\<rparr>"
    using assms(1) by (auto simp: stop_locked_def split: if_splits)
  show "kern c'" by (rule kern_cong [OF assms(2)]) (use s in auto)
  show "links X c'" by (rule links_cong [OF assms(3)]) (use s in auto)
  have "wakeups c' = wakeups c" by (rule wakeups_cong) (use s in auto)
  then show "acted c c'" using s by (auto simp: acted_def)
qed

lemma Context_Post_good:
  assumes "good X c" "Context_Post f c = Done c'"
  shows "good X c' \<and> acted c c'"
proof -
  obtain signal d where p: "post_locked f c = (signal, d)" by (cases "post_locked f c")
  have g: "kern c" "links X c" "requested c" using assms(1) by (simp_all add: good_def)
  note k = post_locked_kern [OF p g(1,2)]
  have ad: "(accepting_posts d \<longleftrightarrow> \<not> context_stop d)" "wakeup_poll_cancel_submitted d \<longrightarrow> context_stop d"
    using p g(3) by (auto simp: post_locked_def requested_def split: if_splits)
  show ?thesis
  proof (cases signal)
    case True
    then have "SignalWakeup d = Done c'" using assms(2) p by (simp add: Context_Post_def)
    from SignalWakeup_good [OF this k(1,2) ad] show ?thesis using acted_trans [OF k(3)] by simp
  next
    case False
    then have "c' = d" using assms(2) p by (simp add: Context_Post_def)
    moreover have "requested d"
    proof (cases "accepting_posts c")
      case True
      then have d: "posted c \<noteq> []" "d = c\<lparr>posted := posted c @ [f]\<rparr>"
        using False p by (simp_all add: post_locked_def)
      have "wakeups d = wakeups c" using k(3) by (simp add: acted_def)
      then show ?thesis using g(3) d by (simp add: requested_def)
    next
      case False
      then show ?thesis using p g(3) by (simp add: post_locked_def)
    qed
    ultimately show ?thesis using k by (simp add: good_def)
  qed
qed

lemma Context_RequestStop_good:
  assumes "good X c" "Context_RequestStop c = Done c'"
  shows "good X c' \<and> acted c c'"
proof -
  obtain signal d where p: "stop_locked c = (signal, d)" by (cases "stop_locked c")
  have g: "kern c" "links X c" "requested c" using assms(1) by (simp_all add: good_def)
  note k = stop_locked_kern [OF p g(1,2)]
  have ad: "(accepting_posts d \<longleftrightarrow> \<not> context_stop d)" "wakeup_poll_cancel_submitted d \<longrightarrow> context_stop d"
    using p g(3) by (auto simp: stop_locked_def requested_def split: if_splits)
  show ?thesis
  proof (cases signal)
    case True
    then have "SignalWakeup d = Done c'" using assms(2) p by (simp add: Context_RequestStop_def)
    from SignalWakeup_good [OF this k(1,2) ad] show ?thesis using acted_trans [OF k(3)] by simp
  next
    case False
    then have "c' = d" "d = c" using assms(2) p by (auto simp: Context_RequestStop_def stop_locked_def split: if_splits)
    then show ?thesis using assms(1) acted_refl by simp
  qed
qed

lemma awaitables_good:
  assumes "good X c" "links X (c\<lparr>awaitables := aws\<rparr>)"
  shows "good X (c\<lparr>awaitables := aws\<rparr>) \<and> acted c (c\<lparr>awaitables := aws\<rparr>)"
  by (rule good_plain [OF assms]) simp_all

lemma await_suspend_good:
  assumes "good X c" "awaitables c w = Some aw" "await_suspend t w co aw c = Done c'"
  shows "good X c' \<and> acted c c'"
proof (cases "handed_off_operation aw")
  case (Some a)
  then have "c' = c\<lparr>awaitables := (awaitables c)(w \<mapsto> aw\<lparr>continuation := Some co\<rparr>)\<rparr>"
    using assms(3) by (simp add: await_suspend_def split: if_splits)
  moreover have "links X (c\<lparr>awaitables := (awaitables c)(w \<mapsto> aw\<lparr>continuation := Some co\<rparr>)\<rparr>)"
    by (rule links_update [OF _ assms(2)]) (use assms(1) in \<open>simp_all add: good_def\<close>)
  ultimately show ?thesis using awaitables_good [OF assms(1)] by blast
next
  case None
  have g: "kern c" "links X c" "requested c" using assms(1) by (simp_all add: good_def)
  obtain op where op: "owned_operation aw = Some op"
    using assms(3) None by (auto simp: await_suspend_def split: option.splits)
  let ?op = "op\<lparr>op_awaitable := Some w\<rparr>"
  have st: "startable c op" using g(2) assms(2) op by (simp add: links_def aw_linked_def)
  obtain started d where d: "TryStartOperation t (Some ?op) c = Done (started, d)"
    and c': "c' = d\<lparr>awaitables := (awaitables d)(w \<mapsto>
                  (case started of
                     None \<Rightarrow> aw\<lparr>owned_operation := None, aw_result := MakeCancelledResult op, result_ready := True\<rparr>
                   | Some a \<Rightarrow> aw\<lparr>owned_operation := None, handed_off_operation := Some a,
                                 continuation := Some co\<rparr>))\<rparr>"
    using assms(3) None op by (auto simp: await_suspend_def and_then_Done)
  show ?thesis
  proof (cases started)
    case no: None
    then have "d = c" using d by (auto simp: TryStartOperation_def and_then_Done split: if_splits)
    moreover have "links X (c\<lparr>awaitables := (awaitables c)(w \<mapsto>
        aw\<lparr>owned_operation := None, aw_result := MakeCancelledResult op, result_ready := True\<rparr>)\<rparr>)"
      by (rule links_update [OF g(2) assms(2)]) simp_all
    ultimately show ?thesis using awaitables_good [OF assms(1)] no c' by simp
  next
    case (Some a)
    then obtain b where "AcquireSqe c = Done b" "StageOperation ?op b = Done (a, d)"
      using d by (auto simp: TryStartOperation_def and_then_Done split: if_splits)
    from acquire_stage_kern [OF this g(1)] have sa: "staged_as ?op c a d" .
    then have s: "kern d" "same_rest c d" "heap c a = None"
      "heap d = (heap c)(a \<mapsto> ?op\<lparr>owner_index := length (operations c)\<rparr>)"
      by (simp_all add: staged_as_def)
    have "wakeups d = wakeups c" using wakeups_staged [OF sa] g(1) st by (simp add: kern_def startable_def)
    moreover have "heap c \<subseteq>\<^sub>m heap d" using s(3,4) by (auto simp: map_le_def)
    ultimately have r: "requested d" "acted c d" using good_same_rest [OF g(3) s(2)] by simp_all
    let ?aw = "aw\<lparr>owned_operation := None, handed_off_operation := Some a, continuation := Some co\<rparr>"
    have c': "c' = d\<lparr>awaitables := (awaitables d)(w \<mapsto> ?aw)\<rparr>" using c' Some by simp
    have l: "links X c'"
      by (rule links_start [OF g(2) assms(2) None s(3), of "?op\<lparr>owner_index := length (operations c)\<rparr>" _ ?aw])
        (use st s(2,4) in \<open>simp_all add: c' startable_def same_rest_def\<close>)
    have "kern c'" by (rule kern_cong [OF s(1)]) (simp_all add: c')
    moreover have "wakeups c' = wakeups d" by (rule wakeups_cong) (simp_all add: c')
    then have "requested c'" "acted d c'" using r(1) by (simp_all add: c' requested_def acted_def)
    ultimately show ?thesis using l acted_trans [OF r(2)] by (simp add: good_def)
  qed
qed

lemma drop_buffer_good:
  assumes "good X c" "drop_buffer b c = Done c'"
  shows "good X c' \<and> acted c c'"
proof -
  obtain p where c': "c' = c \<or> c' = c\<lparr>ctx_pool := p\<rparr> \<and> p \<noteq> None \<and> ctx_pool c \<noteq> None"
    using assms(2) by (auto simp: drop_buffer_def split: if_splits option.splits prod.splits)
  then have "links X c'" using links_cong [of X c c'] assms(1) by (auto simp: good_def)
  then show ?thesis by (intro good_plain [OF assms(1)]) (use c' in auto)
qed

lemma make_awaitable_startable:
  assumes "make_awaitable req c = Done aw"
  shows "handed_off_operation aw = None" "owned_operation aw = Some op \<Longrightarrow> startable c op"
  using assms
  by (cases req; auto simp: Ctx_Accept_def AcceptMultishot_def Ctx_Recv_def RecvProvided_def Ctx_Send_def
      UringAwaitable_def new_operation_def startable_def split: if_splits)+

lemma run_action_good:
  assumes "good X c" "run_action t x c = Done c'"
  shows "good X c' \<and> acted c c'"
proof -
  have l: "links X c" using assms(1) by (simp add: good_def)
  show ?thesis
  proof (cases x)
    case (Construct w req)
    then obtain aw where aw: "make_awaitable req c = Done aw" "awaitables c w = None"
      "c' = c\<lparr>awaitables := (awaitables c)(w \<mapsto> aw)\<rparr>"
      using assms(2) by (auto simp: and_then_Done split: if_splits)
    have "links X (c\<lparr>awaitables := (awaitables c)(w \<mapsto> aw)\<rparr>)"
      by (rule links_idle [OF l]) (use aw make_awaitable_startable in auto)
    then show ?thesis using awaitables_good [OF assms(1)] aw(3) by simp
  next
    case (Await w co)
    then show ?thesis using assms(2) await_suspend_good [OF assms(1)] by (auto split: option.splits)
  next
    case (FetchResult w)
    then obtain aw where aw: "awaitables c w = Some aw" "await_resume w aw c = Done c'"
      using assms(2) by (auto split: option.splits)
    let ?aw = "aw\<lparr>result_ready := False, aw_result := new_result\<rparr>"
    have c': "c' = c\<lparr>awaitables := (awaitables c)(w \<mapsto> ?aw), fetched := fetched c @ [(w, aw_result aw)]\<rparr>"
      using aw(2) by (simp add: await_resume_def split: if_splits)
    have "links X (c\<lparr>awaitables := (awaitables c)(w \<mapsto> ?aw)\<rparr>)" by (rule links_update [OF l aw(1)]) simp_all
    then have "links X c'" by (rule links_cong) (simp_all add: c')
    then show ?thesis by (rule good_plain [OF assms(1)]) (simp_all add: c')
  next
    case (Destroy w)
    then obtain aw where aw: "awaitables c w = Some aw" "handed_off_operation aw = None"
      "drop_buffer (io_buffer (aw_result aw)) (c\<lparr>awaitables := (awaitables c)(w := None)\<rparr>) = Done c'"
      using assms(2) by (auto simp: and_then_Done destroy_awaitable_def split: option.splits if_splits)
    have "links X (c\<lparr>awaitables := (awaitables c)(w := None)\<rparr>)" by (rule links_idle [OF l]) (use aw in auto)
    from awaitables_good [OF assms(1) this] drop_buffer_good [OF _ aw(3)] show ?thesis
      using acted_trans by blast
  next
    case (TakeStats start_window)
    then obtain st where "Context_SnapshotStats t start_window c = Done (st, c')"
      using assms(2) by (auto simp: and_then_Done)
    then have c': "c' = (if start_window then c\<lparr>stats_window_id := stats_window_id c + 1\<rparr> else c)
        \<lparr>ctx_pool := map_option snd (map_option (Pool_SnapshotStats start_window) (ctx_pool c))\<rparr>"
      by (simp add: Context_SnapshotStats_def and_then_Done Let_def split: if_splits)
    have "links X c'" by (rule links_cong [OF l]) (simp_all add: c')
    then show ?thesis by (rule good_plain [OF assms(1)]) (simp_all add: c')
  next
    case (Cancel fd)
    then show ?thesis using assms(2) CancelFd_good [OF assms(1)] by simp
  next
    case (CallPost f)
    then show ?thesis using assms(2) Context_Post_good [OF assms(1)] by simp
  next
    case CallStop
    then show ?thesis using assms(2) Context_RequestStop_good [OF assms(1)] by simp
  next
    case (GiveBack bid)
    then show ?thesis using assms(2) drop_buffer_good [OF assms(1)] by simp
  qed
qed

lemma run_actions_good:
  "run_actions t xs c = Done c' \<Longrightarrow> good X c \<Longrightarrow> good X c' \<and> acted c c'"
proof (induction xs arbitrary: c)
  case Nil
  then show ?case using acted_refl by simp
next
  case (Cons x xs)
  then obtain d where d: "run_action t x c = Done d" "run_actions t xs d = Done c'" by (auto simp: and_then_Done)
  from run_action_good [OF Cons.prems(2) d(1)] Cons.IH [OF d(2)] show ?case using acted_trans by blast
qed

section \<open>Which checks can fail\<close>

text \<open>Checks that a coroutine or the kernel can violate.\<close>

definition client_faults :: "string list" where
  "client_faults =
    [''one-shot UringAwaitable awaited again while its operation is pending'',
     ''multishot UringAwaitable already has a waiting coroutine'',
     ''UringAwaitable awaited after its operation was consumed'',
     ''UringAwaitable resumed without an operation result'',
     ''UringAwaitable destroyed while an I/O operation is pending'',
     ''multishot consumer must await the operation again before yielding'',
     ''attempted to release a provided buffer that is not leased'',
     ''io_uring selected a provided buffer that the pool cannot lease'',
     ''buffer without a pool'', ''address in use'', ''no awaitable''] @ submission_faults"

lemma submission_client: "m \<in> set submission_faults \<Longrightarrow> m \<in> set client_faults"
  by (simp add: client_faults_def)

lemma CancelFd_Aborted:
  assumes "CancelFd t fd c = Aborted m" "good X c" "run_thread_id c = t"
  shows "m \<in> set client_faults"
proof (rule submission_client)
  have k: "kern c" using assms(2) by (simp add: good_def)
  let ?op = "new_operation\<lparr>category := CatCancel, op_fd := fd\<rparr>"
  have "AcquireSqe c = Aborted m \<or> (\<exists>d. AcquireSqe c = Done d \<and>
      (StageOperation ?op d = Aborted m \<or> (\<exists>a e. StageOperation ?op d = Done (a, e) \<and> SubmitStagedSqes e = Aborted m)))"
    using assms(1,3) by (auto simp: CancelFd_def and_then_Aborted AssertRunThread_def split: if_splits)
  then show "m \<in> set submission_faults"
    using AcquireSqe_Aborted SubmitStagedSqes_Aborted StageOperation_Done [OF _ k, of _ ?op] by fastforce
qed

lemma TryStartOperation_Aborted:
  assumes "TryStartOperation t (Some op) c = Aborted m" "kern c" "startable c op" "run_thread_id c = t"
  shows "m \<in> set client_faults"
proof (rule submission_client)
  have "AcquireSqe c = Aborted m \<or> (\<exists>d. AcquireSqe c = Done d \<and>
      (op_type op = OpRecvProvided \<and> ctx_pool d = None \<or> StageOperation op d = Aborted m))"
    using assms(1,3,4)
    by (auto simp: TryStartOperation_def and_then_Aborted AssertRunThread_def startable_def split: if_splits)
  moreover have "ctx_pool d = ctx_pool c" if "AcquireSqe c = Done d" for d
    using AcquireSqe_kern(2) [OF that assms(2)] by (simp add: same_rest_def)
  ultimately have "AcquireSqe c = Aborted m \<or> (\<exists>d. AcquireSqe c = Done d \<and> StageOperation op d = Aborted m)"
    using assms(3) by (auto simp: startable_def)
  then show "m \<in> set submission_faults"
    using AcquireSqe_Aborted StageOperation_Done [OF _ assms(2), of _ op] by fastforce
qed

lemma signal_loop_Aborted: "signal_loop es c \<noteq> Aborted m"
  by (induction es c rule: signal_loop.induct) auto

lemma drop_buffer_Aborted: "drop_buffer b c = Aborted m \<Longrightarrow> m \<in> set client_faults"
  by (auto simp: drop_buffer_def client_faults_def split: if_splits option.splits prod.splits)

lemma run_action_Aborted:
  assumes "run_action t x c = Aborted m" "good X c" "run_thread_id c = t"
  shows "m \<in> set client_faults"
proof (cases x)
  case (Construct w req)
  then show ?thesis using assms(1)
    by (cases req) (auto simp: RecvProvided_def and_then_Aborted client_faults_def split: if_splits)
next
  case (Await w co)
  show ?thesis
  proof (cases "awaitables c w")
    case (Some aw)
    then have a: "await_suspend t w co aw c = Aborted m" using assms(1) Await by simp
    show ?thesis
    proof (cases "handed_off_operation aw = None \<and> owned_operation aw \<noteq> None")
      case True
      then obtain op where op: "owned_operation aw = Some op" by blast
      then have "startable c op" using assms(2) Some by (simp add: good_def links_def aw_linked_def)
      then have "startable c (op\<lparr>op_awaitable := Some w\<rparr>)" by (simp add: startable_def)
      moreover have "TryStartOperation t (Some (op\<lparr>op_awaitable := Some w\<rparr>)) c = Aborted m"
        using a True op by (auto simp: await_suspend_def and_then_Aborted)
      ultimately show ?thesis using TryStartOperation_Aborted assms(2,3) by (simp add: good_def)
    qed (use a in \<open>auto simp: await_suspend_def client_faults_def split: option.splits if_splits\<close>)
  qed (use assms(1) Await in \<open>simp add: client_faults_def\<close>)
next
  case (Destroy w)
  then show ?thesis using assms(1)
    by (auto simp: and_then_Aborted destroy_awaitable_def client_faults_def split: option.splits if_splits
        dest: drop_buffer_Aborted)
next
  case (FetchResult w)
  then show ?thesis using assms(1) by (auto simp: await_resume_def client_faults_def split: option.splits if_splits)
next
  case (Cancel fd)
  then show ?thesis using assms(1) CancelFd_Aborted [OF _ assms(2,3)] by simp
next
  case (CallPost f)
  then show ?thesis using assms(1)
    by (auto simp: Context_Post_def SignalWakeup_def signal_loop_Aborted split: prod.splits if_splits)
next
  case CallStop
  then show ?thesis using assms(1)
    by (auto simp: Context_RequestStop_def SignalWakeup_def signal_loop_Aborted split: prod.splits if_splits)
next
  case (GiveBack bid)
  then show ?thesis using assms(1) drop_buffer_Aborted by simp
next
  case (TakeStats start_window)
  then show ?thesis using assms(1,3)
    by (auto simp: Context_SnapshotStats_def AssertRunThread_def Let_def and_then_Aborted)
qed

end
