(* ===== verification/Uring_Loop.thy ===== *)
theory Uring_Loop
  imports Uring_Context
begin

text \<open>
  The invariant of the event loop over every interleaving of the thread in \<^verbatim>\<open>Run\<close>, the kernel and
  the threads that post callbacks and request the stop, and what follows from it.
\<close>

lemma run_actions_Aborted:
  "run_actions t xs c = Aborted m \<Longrightarrow> good X c \<Longrightarrow> run_thread_id c = t \<Longrightarrow> m \<in> set client_faults"
proof (induction xs arbitrary: c)
  case (Cons x xs)
  show ?case
  proof (cases "run_action t x c")
    case (Done d)
    then have "good X d" "run_thread_id d = t"
      using run_action_good [OF Cons.prems(2) Done] Cons.prems(3) by (simp_all add: acted_def)
    then show ?thesis using Cons.IH [of d] Cons.prems(1) Done by simp
  qed (use Cons.prems run_action_Aborted [OF _ Cons.prems(2,3)] in auto)
qed simp

section \<open>Taking a completion\<close>

lemma live_queue_more: "live_queue K qs \<Longrightarrow> q \<in> set qs \<Longrightarrow> cqe_more q \<Longrightarrow> the (cqe_data q) \<in> K \<union> set (finals qs)"
  by (induction qs) (auto simp: finals_def)

lemma head_tracked:
  assumes "own c" "completions c = q # qs"
  obtains a op where "cqe_data q = Some a" "heap c a = Some op" "owner_index op < length (operations c)"
    "operations c ! owner_index op = a" "cqe_more q \<longrightarrow> multishot op"
proof -
  from assms obtain a op where a: "cqe_data q = Some a" "heap c a = Some op" "cqe_more q \<longrightarrow> multishot op"
    unfolding own_def by auto
  have t: "table (heap c) (operations c)" using assms(1) by (simp add: own_def)
  then have "a \<in> set (operations c)" using a(2) unfolding table_def by blast
  from table_entry [OF t this] that a show thesis by (metis option.inject)
qed

text \<open>\<open>pop a op c\<close>: the state in which the handler of a final completion of \<open>a\<close> runs.\<close>

definition pop :: "nat \<Rightarrow> operation \<Rightarrow> uring_context \<Rightarrow> uring_context" where
  "pop a op c = TakeOperation a op (c\<lparr>completions := tl (completions c)\<rparr>)"

lemma pop_simps [simp]:
  "prepared (pop a op c) = prepared c" "in_kernel (pop a op c) = in_kernel c"
  "completions (pop a op c) = tl (completions c)" "staged_sqe_count (pop a op c) = staged_sqe_count c"
  "sq_entries (pop a op c) = sq_entries c" "operations_capacity (pop a op c) = operations_capacity c"
  "eventfd_count (pop a op c) = eventfd_count c" "poll_due (pop a op c) = poll_due c"
  "awaitables (pop a op c) = awaitables c" "ctx_pool (pop a op c) = ctx_pool c"
  "wakeup_fd (pop a op c) = wakeup_fd c" "run_thread_id (pop a op c) = run_thread_id c"
  "context_stop (pop a op c) = context_stop c" "run_pc (pop a op c) = run_pc c"
  "wakeup_poll_cancel_submitted (pop a op c) = wakeup_poll_cancel_submitted c"
  "accepting_posts (pop a op c) = accepting_posts c" "posted (pop a op c) = posted c"
  "signals_due (pop a op c) = signals_due c" "ran (pop a op c) = ran c" "fetched (pop a op c) = fetched c"
  by (simp_all add: pop_def TakeOperation_def Let_def)

lemma pop_table:
  assumes "own c" "heap c a = Some op"
  shows "table (heap (pop a op c)) (operations (pop a op c))"
    "mset (operations (pop a op c)) = mset (operations c) - {#a#}"
    "heap (pop a op c) b = (if b = a then None
       else if b = last (operations c) then map_option (\<lambda>o'. o'\<lparr>owner_index := owner_index op\<rparr>) (heap c b) else heap c b)"
proof -
  let ?c = "c\<lparr>completions := tl (completions c)\<rparr>"
  have t: "table (heap c) (operations c)" using assms(1) by (simp add: own_def)
  then have "a \<in> set (operations c)" using assms(2) unfolding table_def by blast
  from table_entry [OF t this] assms(2)
  have i: "owner_index op < length (operations ?c)" "operations ?c ! owner_index op = a" by auto
  have t': "table (heap ?c) (operations ?c)" using t by simp
  show "table (heap (pop a op c)) (operations (pop a op c))"
    unfolding pop_def by (rule TakeOperation_table(1) [OF refl i t'])
  show "mset (operations (pop a op c)) = mset (operations c) - {#a#}"
    using TakeOperation_table(2) [OF refl i t'] by (simp add: pop_def)
  show "heap (pop a op c) b = (if b = a then None
       else if b = last (operations c) then map_option (\<lambda>o'. o'\<lparr>owner_index := owner_index op\<rparr>) (heap c b) else heap c b)"
    using TakeOperation_eq(2) [OF refl i t', of b] by (simp add: pop_def)
qed

lemma pop_entry:
  assumes "own c" "heap c a = Some op" "b \<noteq> a"
  shows "heap c b = Some o1 \<Longrightarrow> \<exists>k. heap (pop a op c) b = Some (o1\<lparr>owner_index := k\<rparr>)"
    and "heap (pop a op c) b = Some o2 \<Longrightarrow> \<exists>o1 k. heap c b = Some o1 \<and> o2 = o1\<lparr>owner_index := k\<rparr>"
proof -
  have same: "\<exists>k. o1 = o1\<lparr>owner_index := k\<rparr>" for o1 :: operation
    by (rule exI [of _ "owner_index o1"]) simp
  note h = pop_table(3) [OF assms(1,2), of b]
  show "heap c b = Some o1 \<Longrightarrow> \<exists>k. heap (pop a op c) b = Some (o1\<lparr>owner_index := k\<rparr>)"
    using h assms(3) by (auto split: if_splits intro: same)
  show "heap (pop a op c) b = Some o2 \<Longrightarrow> \<exists>o1 k. heap c b = Some o1 \<and> o2 = o1\<lparr>owner_index := k\<rparr>"
    using h assms(3) by (auto split: if_splits intro: same)
qed

lemma pop_wakeup:
  assumes "own c" "heap c a = Some op"
  shows "is_wakeup (pop a op c) b \<longleftrightarrow> b \<noteq> a \<and> is_wakeup c b"
  using pop_table(3) [OF assms, of b] by (auto simp: is_wakeup_def split: option.splits)

lemma pop_gone:
  assumes "own c" "completions c = q # qs" "\<not> cqe_more q" "cqe_data q = Some a"
  shows "a \<notin> set (prepared c)" "a \<notin> set (in_kernel c)" "a \<notin> set (finals qs)"
proof -
  have m: "mset (operations c) = mset (prepared c) + mset (in_kernel c) + mset (a # finals qs)"
    using assms by (simp add: own_def finals_def)
  have "distinct (operations c)" using assms(1) by (simp add: own_def table_def)
  then have "distinct (prepared c @ in_kernel c @ a # finals qs)"
    using m by (metis mset_append mset_eq_imp_distinct_iff add.assoc)
  then show "a \<notin> set (prepared c)" "a \<notin> set (in_kernel c)" "a \<notin> set (finals qs)" by auto
qed

lemma pop_own:
  assumes "own c" "completions c = q # qs" "\<not> cqe_more q" "cqe_data q = Some a" "heap c a = Some op"
  shows "own (pop a op c)"
proof -
  let ?c = "pop a op c"
  note gone = pop_gone [OF assms(1-4)]
  have m: "mset (operations c) = mset (prepared c) + mset (in_kernel c) + mset (a # finals qs)"
    using assms by (simp add: own_def finals_def)
  have l: "live_queue (set (in_kernel c)) qs" using assms(1,2) by (simp add: own_def)
  have "\<exists>b o2. cqe_data q' = Some b \<and> heap ?c b = Some o2 \<and> (cqe_more q' \<longrightarrow> multishot o2)" if q': "q' \<in> set qs" for q'
  proof -
    obtain b o1 where b: "cqe_data q' = Some b" "heap c b = Some o1" "cqe_more q' \<longrightarrow> multishot o1"
      using assms(1,2) q' unfolding own_def by auto
    have "b \<noteq> a"
    proof (cases "cqe_more q'")
      case True
      then show ?thesis using live_queue_more [OF l q'] gone b(1) by auto
    next
      case False
      then have "b \<in> set (finals qs)" using q' b(1) by (force simp: finals_def)
      then show ?thesis using gone(3) by blast
    qed
    from pop_entry(1) [OF assms(1,5) this b(2)] b show ?thesis by auto
  qed
  moreover have "size (mset (operations ?c)) \<le> size (mset (operations c))"
    unfolding pop_table(2) [OF assms(1,5)] by (rule size_mset_mono) (rule diff_subset_eq_self)
  then have "length (operations ?c) \<le> length (operations c)" by simp
  moreover have "mset (operations ?c) = mset (prepared c) + mset (in_kernel c) + mset (finals qs)"
    using pop_table(2) [OF assms(1,5)] m by simp
  ultimately show ?thesis
    using assms(1,2) l pop_table(1) [OF assms(1,5)] unfolding own_def by auto
qed

lemma pop_wakeups:
  assumes "own c" "heap c a = Some op"
  shows "wakeups (pop a op c) = wakeups c - (if is_wakeup c a then 1 else 0)"
proof -
  have t: "distinct (operations c)" "a \<in> set (operations c)"
    using assms unfolding own_def table_def by blast+
  let ?M = "mset (operations c) - {#a#}"
  have "?M = mset (remove1 a (operations c))" by simp
  then have na: "a \<notin># ?M" using t(1) by (simp only: set_mset_mset set_remove1_eq) simp
  have "filter_mset (is_wakeup (pop a op c)) ?M = filter_mset (is_wakeup c) ?M"
    by (rule filter_mset_cong) (use na pop_wakeup [OF assms] in auto)
  moreover have "mset (operations c) = add_mset a ?M" using t(2) by simp
  then have "wakeups c = size (filter_mset (is_wakeup c) (add_mset a ?M))"
    unfolding wakeups_def by (rule arg_cong)
  moreover have "wakeups (pop a op c) = size (filter_mset (is_wakeup (pop a op c)) ?M)"
    unfolding wakeups_def pop_table(2) [OF assms] by (rule refl)
  ultimately show ?thesis by simp
qed

definition skip :: "uring_context \<Rightarrow> uring_context" where
  "skip c = c\<lparr>completions := tl (completions c)\<rparr>"

lemma skip_own:
  assumes "own c" "completions c = q # qs" "cqe_more q"
  shows "own (skip c)"
  using assms unfolding own_def skip_def by (auto simp: finals_def)

lemma signalled_less:
  assumes "signalled c" "completions c = q # qs" "completions c' = qs" "cqe_res q = POLLIN \<longrightarrow> \<not> is_wakeup c (the (cqe_data q))"
    "\<And>b. is_wakeup c b \<Longrightarrow> is_wakeup c' b" "\<And>b. is_wakeup c' b \<Longrightarrow> is_wakeup c b"
    "in_kernel c' = in_kernel c" "poll_due c' = poll_due c" "eventfd_count c' = eventfd_count c"
  shows "signalled c'"
  using assms unfolding signalled_def pollin_queued_def list_ex_iff by auto

lemma no_wakeups:
  assumes "own c" "wakeups c = 0"
  shows "\<not> list_ex (is_wakeup c) (in_kernel c)"
proof -
  have "filter_mset (is_wakeup c) (mset (operations c)) = {#}" using assms(2) by (simp add: wakeups_def)
  then have "\<not> is_wakeup c a" if "a \<in> set (operations c)" for a
    using that by (metis empty_iff mem_Collect_eq set_mset_empty set_mset_filter set_mset_mset)
  then show ?thesis using in_kernel_live(1) [OF assms(1)] by (auto simp: list_ex_iff)
qed

lemma links_pop_other:
  assumes "links X c" "own c" "heap c a = Some op" "category op \<noteq> CatAwaitable"
  shows "links X (pop a op c)"
proof -
  have "op_linked X (pop a op c) b o2" if "heap (pop a op c) b = Some o2" for b o2
  proof -
    have "b \<noteq> a" using that pop_table(3) [OF assms(2,3)] by auto
    from pop_entry(2) [OF assms(2,3) this that] obtain o1 k where o: "heap c b = Some o1" "o2 = o1\<lparr>owner_index := k\<rparr>"
      by blast
    then have "op_linked X c b o1" using assms(1) by (simp add: links_def)
    then show ?thesis using o(2) by (simp add: op_linked_def startable_def)
  qed
  moreover have "aw_linked (pop a op c) w aw" if "awaitables (pop a op c) w = Some aw" for w aw
  proof -
    have l: "aw_linked c w aw" using that assms(1) by (simp add: links_def)
    have "\<exists>o2. heap (pop a op c) b = Some o2 \<and> category o2 = CatAwaitable \<and> op_awaitable o2 = Some w"
      if hb: "handed_off_operation aw = Some b" for b
    proof -
      obtain o1 where o: "heap c b = Some o1" "category o1 = CatAwaitable" "op_awaitable o1 = Some w"
        using l hb by (auto simp: aw_linked_def)
      then have "b \<noteq> a" using assms(3,4) by auto
      from pop_entry(1) [OF assms(2,3) this o(1)] o show ?thesis by auto
    qed
    then show ?thesis using l by (simp add: aw_linked_def startable_def)
  qed
  ultimately show ?thesis by (simp add: links_def)
qed

lemma links_pop_awaited:
  assumes "links X c" "own c" "heap c a = Some op" "category op = CatAwaitable" "op_awaitable op = Some w"
    "heap c' = heap (pop a op c)" "awaitables c' = (awaitables c)(w \<mapsto> aw')" "handed_off_operation aw' = None"
    "awaitables c w = Some aw" "owned_operation aw' = owned_operation aw" "ctx_pool c' = None \<longleftrightarrow> ctx_pool c = None"
  shows "links X c'"
proof -
  have wa: "handed_off_operation aw = Some a"
  proof -
    have "op_linked X c a op" using assms(1,3) by (simp add: links_def)
    then show ?thesis using assms(4,5,9) by (auto simp: op_linked_def)
  qed
  have "op_linked X c' b o2" if "heap c' b = Some o2" for b o2
  proof -
    have h: "heap (pop a op c) b = Some o2" using that assms(6) by simp
    then have ba: "b \<noteq> a" using pop_table(3) [OF assms(2,3)] by auto
    from pop_entry(2) [OF assms(2,3) this h] obtain o1 k where o: "heap c b = Some o1" "o2 = o1\<lparr>owner_index := k\<rparr>"
      by blast
    then have "op_linked X c b o1" using assms(1) by (simp add: links_def)
    then show ?thesis using o(2) ba wa assms(7,9,11) unfolding op_linked_def startable_def
      by (auto split: if_splits)
  qed
  moreover have "aw_linked c' v av" if v: "awaitables c' v = Some av" for v av
  proof (cases "v = w")
    case True
    then show ?thesis using v assms(1,7,8,9,10,11) by (auto simp: links_def aw_linked_def startable_def)
  next
    case False
    then have l: "aw_linked c v av" using v assms(1,7) by (simp add: links_def)
    have "\<exists>o2. heap c' b = Some o2 \<and> category o2 = CatAwaitable \<and> op_awaitable o2 = Some v"
      if hb: "handed_off_operation av = Some b" for b
    proof -
      obtain o1 where o: "heap c b = Some o1" "category o1 = CatAwaitable" "op_awaitable o1 = Some v"
        using l hb by (auto simp: aw_linked_def)
      then have "b \<noteq> a" using assms(3,5) False by auto
      from pop_entry(1) [OF assms(2,3) this o(1)] o show ?thesis using assms(6) by auto
    qed
    then show ?thesis using l assms(11) by (simp add: aw_linked_def startable_def)
  qed
  ultimately show ?thesis by (simp add: links_def)
qed

section \<open>Delivering a result\<close>

lemma store_buffer_cases:
  assumes "ctx_pool c \<noteq> None"
  obtains m where "store_buffer q res c = Aborted m" "m \<in> set client_faults"
  | res' p where "store_buffer q res c = Done (res', c\<lparr>ctx_pool := Some p\<rparr>)"
proof -
  obtain p where p: "ctx_pool c = Some p" using assms by blast
  then have same: "c\<lparr>ctx_pool := Some p\<rparr> = c" by simp
  show thesis
  proof (cases "cqe_buffer q")
    case None
    then have "store_buffer q res c = Done (res\<lparr>buffer_group := GroupId p\<rparr>, c\<lparr>ctx_pool := Some p\<rparr>)"
      using p by (simp add: store_buffer_def)
    then show thesis by (rule that(2))
  next
    case (Some bid)
    let ?r = "store_buffer q res c"
    have "?r = Aborted ''io_uring selected a provided buffer that the pool cannot lease'' \<or>
        ?r = Aborted ''attempted to release a provided buffer that is not leased'' \<or>
        (\<exists>res' p. ?r = Done (res', c\<lparr>ctx_pool := Some p\<rparr>))"
      using Some p by (auto simp: store_buffer_def Let_def split: option.splits prod.splits)
    then show thesis
      by (elim disjE exE) (erule that(1), simp add: client_faults_def, erule that(1), simp add: client_faults_def,
          erule that(2))
  qed
qed

text \<open>The resumed coroutine finds its awaitable with a result, without a continuation and, after the last
  completion, without a pending operation.\<close>

definition resumed_with :: "bool \<Rightarrow> nat \<Rightarrow> awaitable \<Rightarrow> uring_context \<Rightarrow> uring_context \<Rightarrow> bool" where
  "resumed_with final w aw c d \<longleftrightarrow> (\<exists>aw' p n. d = c\<lparr>enobufs := n, ctx_pool := p, awaitables := (awaitables c)(w \<mapsto> aw')\<rparr> \<and>
     (p = None \<longleftrightarrow> ctx_pool c = None) \<and> owned_operation aw' = owned_operation aw \<and> continuation aw' = None \<and>
     handed_off_operation aw' = (if final then None else handed_off_operation aw) \<and> result_ready aw')"

lemma ProcessAwaitableCqe_cases:
  assumes "op_awaitable op = Some w" "awaitables c w = Some aw" "continuation aw \<noteq> None"
    "op_type op = OpRecvProvided \<longrightarrow> ctx_pool c \<noteq> None"
  obtains m where "ProcessAwaitableCqe t xs op q final c = Aborted m" "m \<in> set client_faults"
  | d where "resumed_with final w aw c d"
    "ProcessAwaitableCqe t xs op q final c = and_then (run_actions t xs d) (\<lambda>c.
                     if final then Done c
                     else case awaitables c w of
                       None \<Rightarrow> Aborted ''dangling awaitable''
                     | Some aw' \<Rightarrow>
                         if continuation aw' = None then
                           Aborted ''multishot consumer must await the operation again before yielding''
                         else Done c)"
proof -
  note bad = that(1) and ok = that(2)
  define e where "e = (if op_type op = OpRecvProvided \<and> cqe_res q = - ENOBUFS then c\<lparr>enobufs := enobufs c + 1\<rparr> else c)"
  define res1 where "res1 = (aw_result aw)\<lparr>io_type := op_type op, io_fd := op_fd op, io_result_code := cqe_res q,
                      io_error_code := (if cqe_res q < 0 then - cqe_res q else 0), is_final := final\<rparr>"
  define res where "res = (if op_type op \<in> {OpRecv, OpRecvProvided, OpSend}
                    then res1\<lparr>bytes_transferred := (if cqe_res q > 0 then nat (cqe_res q) else 0)\<rparr> else res1)"
  define get where "get = (if op_type op = OpRecvProvided then store_buffer q res e else Done (res, e))"
  have eq: "ProcessAwaitableCqe t xs op q final c = and_then get (\<lambda>(res, c).
              let aw = aw\<lparr>aw_result := res, result_ready := True,
                          handed_off_operation := (if final then None else handed_off_operation aw)\<rparr>
              in if continuation aw = None then
                   Aborted ''UringContext completed an awaitable operation without a continuation''
                 else and_then
                   (run_actions t xs (c\<lparr>awaitables := (awaitables c)(w \<mapsto> aw\<lparr>continuation := None\<rparr>)\<rparr>)) (\<lambda>c.
                     if final then Done c
                     else case awaitables c w of
                       None \<Rightarrow> Aborted ''dangling awaitable''
                     | Some aw' \<Rightarrow>
                         if continuation aw' = None then
                           Aborted ''multishot consumer must await the operation again before yielding''
                         else Done c))"
    using assms(1,2) unfolding ProcessAwaitableCqe_def get_def res_def res1_def e_def by (simp only: option.case Let_def)
  have e: "e = c\<lparr>enobufs := enobufs e\<rparr>" "awaitables e = awaitables c" "ctx_pool e = ctx_pool c"
    by (simp_all add: e_def)
  have fin: thesis if g: "get = Done (res', e\<lparr>ctx_pool := p\<rparr>)" and p: "p = None \<longleftrightarrow> ctx_pool c = None" for res' p
  proof (rule ok)
    let ?aw = "aw\<lparr>aw_result := res', result_ready := True,
                   handed_off_operation := (if final then None else handed_off_operation aw), continuation := None\<rparr>"
    let ?d = "e\<lparr>ctx_pool := p, awaitables := (awaitables c)(w \<mapsto> ?aw)\<rparr>"
    have d: "?d = c\<lparr>enobufs := enobufs e, ctx_pool := p, awaitables := (awaitables c)(w \<mapsto> ?aw)\<rparr>"
      unfolding e_def by simp
    show "resumed_with final w aw c ?d"
      unfolding resumed_with_def
      by (rule exI [of _ ?aw], rule exI [of _ p], rule exI [of _ "enobufs e"], rule conjI, rule d) (simp add: p)
    show "ProcessAwaitableCqe t xs op q final c = and_then (run_actions t xs ?d) (\<lambda>c.
                     if final then Done c
                     else case awaitables c w of
                       None \<Rightarrow> Aborted ''dangling awaitable''
                     | Some aw' \<Rightarrow>
                         if continuation aw' = None then
                           Aborted ''multishot consumer must await the operation again before yielding''
                         else Done c)"
      unfolding eq g using assms(3) e(2) by (cases "continuation aw") simp_all
  qed
  show thesis
  proof (cases "op_type op = OpRecvProvided")
    case True
    then have "ctx_pool e \<noteq> None" using assms(4) e(3) by simp
    then show thesis
    proof (rule store_buffer_cases [where q = q and res = res])
      fix m
      assume "store_buffer q res e = Aborted m" "m \<in> set client_faults"
      then show thesis using bad eq True by (simp add: get_def)
    next
      fix res' p
      assume "store_buffer q res e = Done (res', e\<lparr>ctx_pool := Some p\<rparr>)"
      then show thesis using fin True assms(4) by (simp add: get_def)
    qed
  next
    case False
    then have "get = Done (res, e\<lparr>ctx_pool := ctx_pool c\<rparr>)" using e(3) by (simp add: get_def)
    then show thesis using fin by blast
  qed
qed

section \<open>The invariant\<close>

text \<open>The wakeup poll: at most one, and one unless a stop was requested.\<close>

definition armed :: "uring_context \<Rightarrow> bool" where
  "armed c \<longleftrightarrow> wakeups c \<le> 1 \<and> (\<not> context_stop c \<longrightarrow> wakeups c = 1)"

fun phase_of :: "int \<Rightarrow> uring_context \<Rightarrow> run_pc \<Rightarrow> bool" where
  "phase_of t c NotRun \<longleftrightarrow> run_thread_id c = 0 \<and> operations c = [] \<and> \<not> wakeup_poll_cancel_submitted c \<and>
     (context_stop c \<longrightarrow> signals_due c > 0 \<or> eventfd_count c > 0)"
| "phase_of t c RunLoop \<longleftrightarrow> run_thread_id c = t \<and> armed c \<and> prepared c = []"
| "phase_of t c (RunProcess n) \<longleftrightarrow> run_thread_id c = t \<and> armed c \<and> completions c \<noteq> []"
| "phase_of t c (RunSwap has_more n) \<longleftrightarrow> run_thread_id c = t \<and> wakeups c = (if has_more then 1 else 0)"
| "phase_of t c (RunCallbacks fs has_more n) \<longleftrightarrow> run_thread_id c = t \<and> wakeups c = (if has_more then 1 else 0)"
| "phase_of t c (RunNext n) \<longleftrightarrow> run_thread_id c = t \<and> armed c"
| "phase_of t c RunReturned \<longleftrightarrow> run_thread_id c = FINISHED_RUN_THREAD_ID \<and> operations c = [] \<and> context_stop c"

definition context_inv :: "int \<Rightarrow> uring_context \<Rightarrow> bool" where
  "context_inv t c \<longleftrightarrow> good {} c \<and> wakeup_fd c \<ge> 0 \<and> t > 0 \<and> phase_of t c (run_pc c)"

lemma links_weaken: "links X c \<Longrightarrow> X \<subseteq> Y \<Longrightarrow> links Y c"
  unfolding links_def op_linked_def by blast

lemma good_move:
  assumes "good {} c" "posted c \<noteq> [] \<Longrightarrow> signals_due c > 0 \<or> eventfd_count c > 0 \<or> swapping pc"
    "context_stop c \<Longrightarrow> signals_due c > 0 \<or> eventfd_count c > 0 \<or> handling pc \<or> wakeup_poll_cancel_submitted c \<or> wakeups c = 0"
  shows "good {} (c\<lparr>run_pc := pc\<rparr>)"
proof -
  have "kern (c\<lparr>run_pc := pc\<rparr>)" by (rule kern_cong [of c]) (use assms in \<open>simp_all add: good_def\<close>)
  moreover have "links {} (c\<lparr>run_pc := pc\<rparr>)" by (rule links_cong [of _ c]) (use assms in \<open>simp_all add: good_def\<close>)
  moreover have "wakeups (c\<lparr>run_pc := pc\<rparr>) = wakeups c" by (rule wakeups_cong) simp_all
  ultimately show ?thesis using assms by (simp add: good_def requested_def)
qed

lemma wakeups_pc [simp]: "wakeups (c\<lparr>run_pc := pc\<rparr>) = wakeups c"
  by (rule wakeups_cong) simp_all

lemma armed_pc [simp]: "armed (c\<lparr>run_pc := pc\<rparr>) \<longleftrightarrow> armed c"
  by (simp add: armed_def)

lemma phase_of_pc [simp]: "phase_of t (c\<lparr>run_pc := pc\<rparr>) pc' \<longleftrightarrow> phase_of t c pc'"
  by (cases pc') simp_all

lemma armed_acted: "armed c \<Longrightarrow> acted c c' \<Longrightarrow> armed c'"
  by (auto simp: armed_def acted_def)

text \<open>The completion of a coroutine's request: the state the coroutine is resumed in is good.\<close>

lemma resumed_good:
  assumes "good {} c" "run_pc c = RunProcess n" "completions c = q # qs" "cqe_data q = Some a" "heap c a = Some op"
    "category op = CatAwaitable" "op_awaitable op = Some w" "awaitables c w = Some aw"
    "final \<longleftrightarrow> \<not> cqe_more q" "resumed_with final w aw (if final then pop a op c else skip c) d"
  shows "good (if final then {} else {w}) d \<and> run_thread_id d = run_thread_id c \<and> wakeups d = wakeups c \<and>
    context_stop d = context_stop c \<and> run_pc d = run_pc c \<and> wakeup_fd d = wakeup_fd c"
proof -
  let ?e = "if final then pop a op c else skip c"
  have g: "own c" "signalled c" "links {} c" "requested c" using assms(1) by (simp_all add: good_def kern_def)
  have nw: "\<not> is_wakeup c a" using assms(5,6) by (simp add: is_wakeup_def)
  obtain aw' p k where d: "d = ?e\<lparr>enobufs := k, ctx_pool := p, awaitables := (awaitables ?e)(w \<mapsto> aw')\<rparr>"
    and p: "p = None \<longleftrightarrow> ctx_pool ?e = None" and aw': "owned_operation aw' = owned_operation aw" "continuation aw' = None"
     "handed_off_operation aw' = (if final then None else handed_off_operation aw)"
    using assms(10) unfolding resumed_with_def by (elim exE conjE) (rule that)
  have e: "awaitables ?e = awaitables c" "ctx_pool ?e = ctx_pool c" by (simp_all add: skip_def)
  have w: "is_wakeup ?e b \<longleftrightarrow> is_wakeup c b" for b
    using pop_wakeup [OF g(1) assms(5)] nw is_wakeup_cong [of "skip c" c] by (auto simp: skip_def)
  have "own ?e" using pop_own [OF g(1) assms(3) _ assms(4,5)] skip_own [OF g(1) assms(3)] assms(9) by auto
  moreover have "signalled ?e"
    by (rule signalled_less [OF g(2) assms(3)]) (use assms(3,4) nw w in \<open>auto simp: skip_def\<close>)
  ultimately have "kern ?e" by (simp add: kern_def)
  then have k: "kern d" by (rule kern_cong) (simp_all add: d)
  have we: "wakeups ?e = wakeups c"
    using pop_wakeups [OF g(1) assms(5)] nw wakeups_cong [of "skip c" c] by (simp add: skip_def)
  have wd: "wakeups d = wakeups ?e" by (rule wakeups_cong) (simp_all add: d)
  have r: "requested d" using g(4) wd we by (simp add: d requested_def skip_def)
  have "links (if final then {} else {w}) d"
  proof (cases final)
    case True
    have "links {} d"
      by (rule links_pop_awaited [OF g(3,1) assms(5,6,7) _ _ _ assms(8), of _ aw']) (use True p e aw' in \<open>simp_all add: d\<close>)
    then show ?thesis using True by simp
  next
    case False
    have "links {w} c" by (rule links_weaken [OF g(3)]) simp
    then have l: "links {w} (skip c)" by (rule links_cong) (simp_all add: skip_def)
    have "links {w} ((skip c)\<lparr>awaitables := (awaitables (skip c))(w \<mapsto> aw')\<rparr>)"
      by (rule links_update [OF l, of _ aw]) (use assms(8) aw' False in \<open>simp_all add: skip_def\<close>)
    then have "links {w} d" by (rule links_cong) (use False p in \<open>simp_all add: d\<close>)
    then show ?thesis using False by simp
  qed
  then show ?thesis using k r wd we by (simp add: good_def d skip_def)
qed

lemma ProcessCqe_eq:
  assumes "own c" "completions c = q # qs"
  obtains a op where "cqe_data q = Some a" "heap c a = Some op"
    "ProcessCqe t xs n c = (let e = if \<not> cqe_more q then pop a op c else skip c
       in case category op of
            CatAwaitable \<Rightarrow> and_then (ProcessAwaitableCqe t xs op q (\<not> cqe_more q) e) (\<lambda>c. Done (c\<lparr>run_pc := RunNext (n + 1)\<rparr>))
          | CatCancel \<Rightarrow> and_then (ProcessCancelCqe q e) (\<lambda>c. Done (c\<lparr>run_pc := RunNext (n + 1)\<rparr>))
          | CatWakeup \<Rightarrow> wakeup_begin q n e)"
proof (rule head_tracked [OF assms])
  fix a op
  assume a: "cqe_data q = Some a" "heap c a = Some op" "owner_index op < length (operations c)"
    "operations c ! owner_index op = a" "cqe_more q \<longrightarrow> multishot op"
  have p: "TakeOperation a op (c\<lparr>completions := qs\<rparr>) = pop a op c" "c\<lparr>completions := qs\<rparr> = skip c"
    using assms(2) by (simp_all add: pop_def skip_def)
  have "\<not> (owner_index op \<ge> length (operations (skip c)) \<or> operations (skip c) ! owner_index op \<noteq> a)"
    "heap (skip c) a = Some op"
    using a by (simp_all add: skip_def)
  note h = this
  show thesis
  proof (rule that [OF a(1,2)], cases "cqe_more q")
    case True
    then show "ProcessCqe t xs n c = (let e = if \<not> cqe_more q then pop a op c else skip c
       in case category op of
            CatAwaitable \<Rightarrow> and_then (ProcessAwaitableCqe t xs op q (\<not> cqe_more q) e) (\<lambda>c. Done (c\<lparr>run_pc := RunNext (n + 1)\<rparr>))
          | CatCancel \<Rightarrow> and_then (ProcessCancelCqe q e) (\<lambda>c. Done (c\<lparr>run_pc := RunNext (n + 1)\<rparr>))
          | CatWakeup \<Rightarrow> wakeup_begin q n e)"
      using a h unfolding ProcessCqe_def assms(2) list.case a(1) option.case Let_def p(2)
      by (cases "category op") simp_all
  next
    case False
    then show "ProcessCqe t xs n c = (let e = if \<not> cqe_more q then pop a op c else skip c
       in case category op of
            CatAwaitable \<Rightarrow> and_then (ProcessAwaitableCqe t xs op q (\<not> cqe_more q) e) (\<lambda>c. Done (c\<lparr>run_pc := RunNext (n + 1)\<rparr>))
          | CatCancel \<Rightarrow> and_then (ProcessCancelCqe q e) (\<lambda>c. Done (c\<lparr>run_pc := RunNext (n + 1)\<rparr>))
          | CatWakeup \<Rightarrow> wakeup_begin q n e)"
      using a h p(1) [unfolded p(2)] unfolding ProcessCqe_def assms(2) list.case a(1) option.case Let_def p(2)
      by (cases "category op") simp_all
  qed
qed

text \<open>The completion of a cancellation or of the wakeup poll.\<close>

lemma other_kern:
  assumes "good {} c" "completions c = q # qs" "cqe_data q = Some a" "heap c a = Some op" "category op \<noteq> CatAwaitable"
    "e = (if \<not> cqe_more q then pop a op c else skip c)"
  shows "own e" "links {} e" "wakeups e = wakeups c - (if \<not> cqe_more q \<and> is_wakeup c a then 1 else 0)"
    "\<not> is_wakeup c a \<Longrightarrow> signalled e"
proof -
  have g: "own c" "signalled c" "links {} c" using assms(1) by (simp_all add: good_def kern_def)
  show "own e" using pop_own [OF g(1) assms(2) _ assms(3,4)] skip_own [OF g(1) assms(2)] assms(6) by auto
  have "links {} (skip c)" by (rule links_cong [OF g(3)]) (simp_all add: skip_def)
  then show "links {} e" using links_pop_other [OF g(3,1) assms(4,5)] assms(6) by simp
  show "wakeups e = wakeups c - (if \<not> cqe_more q \<and> is_wakeup c a then 1 else 0)"
    using pop_wakeups [OF g(1) assms(4)] wakeups_cong [of "skip c" c] assms(6) by (simp add: skip_def)
  assume nw: "\<not> is_wakeup c a"
  have w: "is_wakeup e b \<longleftrightarrow> is_wakeup c b" for b
    using pop_wakeup [OF g(1) assms(4)] nw is_wakeup_cong [of "skip c" c] assms(6) by (auto simp: skip_def)
  show "signalled e"
    by (rule signalled_less [OF g(2) assms(2)]) (use assms(2,3,6) nw w in \<open>auto simp: skip_def\<close>)
qed

lemma is_wakeup_head: "heap c a = Some op \<Longrightarrow> is_wakeup c a \<longleftrightarrow> category op = CatWakeup"
  by (simp add: is_wakeup_def)

lemma is_wakeup_counted:
  assumes "own c" "is_wakeup c a"
  shows "wakeups c > 0"
proof -
  have "heap c a \<noteq> None" using assms(2) by (auto simp: is_wakeup_def split: option.splits)
  then have "a \<in> set (operations c)" using assms(1) unfolding own_def table_def by blast
  then have "a \<in># filter_mset (is_wakeup c) (mset (operations c))" using assms(2) by simp
  then show ?thesis unfolding wakeups_def by (metis empty_not_add_mset gr0I multi_member_split size_eq_0_iff_empty)
qed

lemma wakeup_begin_inv:
  assumes "context_inv t c" "run_pc c = RunProcess n" "completions c = q # qs" "cqe_data q = Some a"
    "heap c a = Some op" "category op = CatWakeup" "e = (if \<not> cqe_more q then pop a op c else skip c)"
    "wakeup_begin q n e = Done c'"
  shows "context_inv t c'"
proof -
  have g: "good {} c" "run_thread_id c = t" "armed c" "wakeup_fd c \<ge> 0" "t > 0"
    using assms(1,2) by (simp_all add: context_inv_def)
  note o = other_kern [OF g(1) assms(3-5) _ assms(7), unfolded assms(6), simplified]
  have wa: "is_wakeup c a" using is_wakeup_head [OF assms(5)] assms(6) by simp
  have one: "wakeups c = 1"
    using is_wakeup_counted [OF _ wa] g(1,3) by (simp add: armed_def good_def kern_def)
  have we: "wakeups e = (if cqe_more q then 1 else 0)" using o(3) wa one by simp
  have r: "requested c" using g(1) by (simp add: good_def)
  have f: "context_stop e = context_stop c" "run_thread_id e = run_thread_id c" "wakeup_fd e = wakeup_fd c"
    "accepting_posts e = accepting_posts c" "wakeup_poll_cancel_submitted e = wakeup_poll_cancel_submitted c"
    "posted e = posted c" "signals_due e = signals_due c" "eventfd_count e = eventfd_count c"
    using assms(7) by (simp_all add: skip_def)
  show ?thesis
  proof (cases "cqe_res q < 0")
    case True
    then have s: "context_stop e" "\<not> cqe_more q"
      and c': "c' = e\<lparr>wakeup_poll_cancel_submitted := False, run_pc := RunNext (n + 1)\<rparr>"
      using assms(8) by (auto simp: wakeup_begin_def Let_def split: if_splits)
    have w0: "wakeups e = 0" using we s(2) by simp
    have "signalled e" using no_wakeups [OF o(1) w0] by (simp add: signalled_def)
    then have "kern e" using o(1) by (simp add: kern_def)
    then have k: "kern c'" by (rule kern_cong) (simp_all add: c')
    have l: "links {} c'" by (rule links_cong [OF o(2)]) (simp_all add: c')
    have w': "wakeups c' = 0" using w0 wakeups_cong [of c' e] by (simp add: c')
    have "requested c'" using r f w' s(1) assms(2) by (simp add: c' requested_def)
    then show ?thesis using k l g f w' s(1) by (simp add: context_inv_def good_def armed_def c')
  next
    case False
    then obtain d where d: "ConsumeWakeupSignal e = Done d" "c' = d\<lparr>run_pc := RunSwap (cqe_more q) n\<rparr>"
      using assms(8) by (auto simp: wakeup_begin_def Let_def and_then_Done split: if_splits)
    have "consume_loop es b = Done d \<Longrightarrow> d = b\<lparr>eventfd_errors := [], eventfd_count := 0\<rparr>" for es b
      by (induction es) (auto split: if_splits)
    then have c': "c' = e\<lparr>eventfd_errors := [], eventfd_count := 0, run_pc := RunSwap (cqe_more q) n\<rparr>"
      using d by (simp add: ConsumeWakeupSignal_def)
    have ww: "wakeups c' = wakeups e" by (rule wakeups_cong) (simp_all add: c')
    have "own c'" using o(1) by (simp add: c' own_def)
    then have k: "kern c'" by (simp add: kern_def signalled_def c')
    have l: "links {} c'" by (rule links_cong [OF o(2)]) (simp_all add: c')
    have "requested c'" using r f by (simp add: c' requested_def)
    then show ?thesis using k l g f we ww by (simp add: context_inv_def good_def c')
  qed
qed

lemma awaited_entry:
  assumes "good {} c" "heap c a = Some op" "category op = CatAwaitable"
  obtains w aw where "op_awaitable op = Some w" "awaitables c w = Some aw" "continuation aw \<noteq> None"
    "op_type op = OpRecvProvided \<longrightarrow> ctx_pool c \<noteq> None"
proof -
  have "op_linked {} c a op" using assms(1,2) by (simp add: good_def links_def)
  then show thesis using assms(3) that unfolding op_linked_def startable_def by blast
qed

lemma links_rewaited:
  assumes "links {w} c" "awaitables c w = Some aw" "continuation aw \<noteq> None"
  shows "links {} c"
proof -
  have "op_linked {} c a op" if "heap c a = Some op" for a op
  proof -
    have "op_linked {w} c a op" using assms(1) that by (simp add: links_def)
    then show ?thesis using assms(2,3) unfolding op_linked_def by (metis option.inject singletonD)
  qed
  then show ?thesis using assms(1) by (simp add: links_def)
qed

text \<open>The handler of a coroutine's request keeps the invariant and meets only faults of the coroutine or
  the kernel.\<close>

lemma ProcessAwaitableCqe_inv:
  assumes "context_inv t c" "run_pc c = RunProcess n" "completions c = q # qs" "cqe_data q = Some a"
    "heap c a = Some op" "category op = CatAwaitable" "e = (if \<not> cqe_more q then pop a op c else skip c)"
  shows "ProcessAwaitableCqe t xs op q (\<not> cqe_more q) e = Done c' \<Longrightarrow> context_inv t (c'\<lparr>run_pc := RunNext (n + 1)\<rparr>)"
    and "ProcessAwaitableCqe t xs op q (\<not> cqe_more q) e = Aborted m \<Longrightarrow> m \<in> set client_faults"
proof -
  let ?final = "\<not> cqe_more q" and ?r = "ProcessAwaitableCqe t xs op q (\<not> cqe_more q) e"
  have g: "good {} c" "run_thread_id c = t" "armed c" "wakeup_fd c \<ge> 0" "t > 0"
    using assms(1,2) by (simp_all add: context_inv_def)
  obtain w aw where w: "op_awaitable op = Some w" "awaitables c w = Some aw" "continuation aw \<noteq> None"
    "op_type op = OpRecvProvided \<longrightarrow> ctx_pool c \<noteq> None"
    by (rule awaited_entry [OF g(1) assms(5,6)])
  have e: "awaitables e = awaitables c" "ctx_pool e = ctx_pool c" using assms(7) by (simp_all add: skip_def)
  have "(?r = Done c' \<longrightarrow> context_inv t (c'\<lparr>run_pc := RunNext (n + 1)\<rparr>)) \<and> (?r = Aborted m \<longrightarrow> m \<in> set client_faults)"
  proof (rule ProcessAwaitableCqe_cases [of op w e aw t xs q ?final])
    fix d
    let ?X = "if ?final then {} else {w}"
    assume d: "resumed_with ?final w aw e d"
      and r: "?r = and_then (run_actions t xs d) (\<lambda>c. if ?final then Done c
                     else case awaitables c w of
                       None \<Rightarrow> Aborted ''dangling awaitable''
                     | Some aw' \<Rightarrow>
                         if continuation aw' = None then
                           Aborted ''multishot consumer must await the operation again before yielding''
                         else Done c)"
    have dg: "good ?X d" "run_thread_id d = t" "wakeups d = wakeups c" "context_stop d = context_stop c"
      "run_pc d = RunProcess n" "wakeup_fd d \<ge> 0"
      using resumed_good [OF g(1) assms(2-6) w(1,2) refl d [unfolded assms(7)]] g assms(2) by simp_all
    have done_case: "context_inv t (f\<lparr>run_pc := RunNext (n + 1)\<rparr>)"
      if f: "run_actions t xs d = Done f" and fin: "?final \<or> (\<exists>aw'. awaitables f w = Some aw' \<and> continuation aw' \<noteq> None)" for f
    proof -
      have fg: "good ?X f" "acted d f" using run_actions_good [OF f dg(1)] by simp_all
      have "links {} f"
        using fg(1) fin links_rewaited [of w f] unfolding good_def by (cases ?final) auto
      then have "good {} f" using fg(1) by (simp add: good_def)
      then have "good {} (f\<lparr>run_pc := RunNext (n + 1)\<rparr>)"
        by (rule good_move) (use \<open>good {} f\<close> fg(2) dg(5) in \<open>auto simp: good_def requested_def acted_def\<close>)
      moreover have "armed d" using g(3) dg(3,4) by (simp add: armed_def)
      then have "armed f" using fg(2) by (rule armed_acted)
      ultimately show ?thesis using fg(2) dg(2,6) g(5) by (simp add: context_inv_def acted_def)
    qed
    have kept: "awaitables f w \<noteq> None" if f: "run_actions t xs d = Done f" and nf: "\<not> ?final" for f
    proof -
      have "heap d = heap c" using d nf assms(7) by (auto simp: resumed_with_def skip_def)
      moreover have "heap d \<subseteq>\<^sub>m heap f" using run_actions_good [OF f dg(1)] by (simp add: acted_def)
      ultimately have "heap f a = Some op" using assms(5) by (metis domI map_le_def)
      then have "op_linked ?X f a op" using run_actions_good [OF f dg(1)] by (simp add: good_def links_def)
      then show ?thesis using assms(6) w(1) by (auto simp: op_linked_def)
    qed
    show ?thesis
    proof (cases "run_actions t xs d")
      case (Done f)
      then show ?thesis using r done_case [OF Done] kept [OF Done]
        by (auto simp: client_faults_def split: option.splits if_splits)
    next
      case (Aborted m')
      then show ?thesis using r run_actions_Aborted [OF Aborted dg(1,2)] by auto
    qed (use r in simp)
  qed (use w e in auto)
  then show "?r = Done c' \<Longrightarrow> context_inv t (c'\<lparr>run_pc := RunNext (n + 1)\<rparr>)" "?r = Aborted m \<Longrightarrow> m \<in> set client_faults"
    by blast+
qed

lemma ProcessCqe_inv:
  assumes "context_inv t c" "run_pc c = RunProcess n"
  shows "ProcessCqe t xs n c = Done c' \<Longrightarrow> context_inv t c'"
    and "ProcessCqe t xs n c = Aborted m \<Longrightarrow> m \<in> set client_faults"
proof -
  have g: "good {} c" "run_thread_id c = t" "armed c" "completions c \<noteq> []" "wakeup_fd c \<ge> 0" "t > 0"
    using assms by (simp_all add: context_inv_def)
  obtain q qs where q: "completions c = q # qs" using g(4) by (cases "completions c") simp_all
  have o: "own c" using g(1) by (simp add: good_def kern_def)
  have "(ProcessCqe t xs n c = Done c' \<longrightarrow> context_inv t c') \<and> (ProcessCqe t xs n c = Aborted m \<longrightarrow> m \<in> set client_faults)"
  proof (rule ProcessCqe_eq [OF o q, of t xs n])
    fix a op
    let ?e = "if \<not> cqe_more q then pop a op c else skip c"
    assume a: "cqe_data q = Some a" "heap c a = Some op"
      and p: "ProcessCqe t xs n c = (let e = ?e
       in case category op of
            CatAwaitable \<Rightarrow> and_then (ProcessAwaitableCqe t xs op q (\<not> cqe_more q) e) (\<lambda>c. Done (c\<lparr>run_pc := RunNext (n + 1)\<rparr>))
          | CatCancel \<Rightarrow> and_then (ProcessCancelCqe q e) (\<lambda>c. Done (c\<lparr>run_pc := RunNext (n + 1)\<rparr>))
          | CatWakeup \<Rightarrow> wakeup_begin q n e)"
    show ?thesis
    proof (cases "category op")
      case CatAwaitable
      then have p': "ProcessCqe t xs n c = and_then (ProcessAwaitableCqe t xs op q (\<not> cqe_more q) ?e)
          (\<lambda>c. Done (c\<lparr>run_pc := RunNext (n + 1)\<rparr>))"
        using p by (simp add: Let_def)
      note inv = ProcessAwaitableCqe_inv [OF assms q a CatAwaitable refl, of xs]
      show ?thesis unfolding p' using inv by (auto simp: and_then_Done and_then_Aborted simp del: not_not)
    next
      case CatCancel
      note k = other_kern [OF g(1) q a _ refl, unfolded CatCancel, simplified]
      have nw: "\<not> is_wakeup c a" using is_wakeup_head [OF a(2)] CatCancel by simp
      have w: "wakeups ?e = wakeups c" using k(3) nw by simp
      have "requested ?e" using g(1) w by (simp add: good_def requested_def skip_def)
      then have ge: "good {} ?e" using k(1,2) k(4) [OF nw] by (simp add: good_def kern_def)
      have pc: "run_pc ?e = RunProcess n" using assms(2) by (simp add: skip_def)
      have "good {} (?e\<lparr>run_pc := RunNext (n + 1)\<rparr>)"
        by (rule good_move [OF ge]) (use ge pc in \<open>auto simp: good_def requested_def\<close>)
      moreover have "armed ?e" using g(3) w by (simp add: armed_def skip_def)
      ultimately have "context_inv t (?e\<lparr>run_pc := RunNext (n + 1)\<rparr>)"
        using g by (simp add: context_inv_def skip_def)
      then show ?thesis using p CatCancel by (auto simp: ProcessCancelCqe_def Let_def split: if_splits)
    next
      case CatWakeup
      then have p': "ProcessCqe t xs n c = wakeup_begin q n ?e" using p by (simp add: Let_def)
      have na: "consume_loop es b \<noteq> Aborted m" for es b by (induction es) auto
      show ?thesis using wakeup_begin_inv [OF assms q a CatWakeup refl, folded p'] na
        unfolding p' wakeup_begin_def ConsumeWakeupSignal_def Let_def
        by (auto simp: and_then_Aborted split: if_splits)
    qed
  qed
  then show "ProcessCqe t xs n c = Done c' \<Longrightarrow> context_inv t c'" "ProcessCqe t xs n c = Aborted m \<Longrightarrow> m \<in> set client_faults"
    by blast+
qed

lemma wakeup_swap_inv:
  assumes "context_inv t c" "run_pc c = RunSwap has_more n"
  shows "context_inv t (wakeup_swap has_more n c)"
proof -
  let ?c = "wakeup_swap has_more n c"
  have "kern c" "links {} c" "requested c" using assms(1) by (simp_all add: context_inv_def good_def)
  note g = this
  have k: "kern ?c" by (rule kern_cong [OF g(1)]) (simp_all add: wakeup_swap_def)
  have l: "links {} ?c" by (rule links_cong [OF g(2)]) (simp_all add: wakeup_swap_def)
  have w: "wakeups ?c = wakeups c" by (rule wakeups_cong) (simp_all add: wakeup_swap_def)
  have "requested ?c" using g(3) w by (simp add: wakeup_swap_def requested_def)
  then show ?thesis using k l w assms by (simp add: context_inv_def good_def wakeup_swap_def)
qed

lemma wakeup_callback_inv:
  assumes "context_inv t c" "run_pc c = RunCallbacks (f # fs) has_more n"
  shows "wakeup_callback t f fs has_more n c = Done c' \<Longrightarrow> context_inv t c'"
    and "wakeup_callback t f fs has_more n c = Aborted m \<Longrightarrow> m \<in> set client_faults"
proof -
  have g: "good {} c" "run_thread_id c = t" "wakeups c = (if has_more then 1 else 0)" "wakeup_fd c \<ge> 0" "t > 0"
    using assms by (simp_all add: context_inv_def)
  show "wakeup_callback t f fs has_more n c = Aborted m \<Longrightarrow> m \<in> set client_faults"
    using run_actions_Aborted [OF _ g(1,2)] by (auto simp: wakeup_callback_def and_then_Aborted)
  assume "wakeup_callback t f fs has_more n c = Done c'"
  then obtain d where d: "run_actions t f c = Done d" "c' = d\<lparr>ran := ran d @ [f], run_pc := RunCallbacks fs has_more n\<rparr>"
    by (auto simp: wakeup_callback_def and_then_Done)
  have dg: "good {} d" "acted c d" using run_actions_good [OF d(1) g(1)] by simp_all
  let ?b = "d\<lparr>run_pc := RunCallbacks fs has_more n\<rparr>"
  have b: "good {} ?b"
    by (rule good_move [OF dg(1)]) (use dg assms(2) in \<open>auto simp: good_def requested_def acted_def\<close>)
  have c': "c' = ?b\<lparr>ran := ran d @ [f]\<rparr>" using d(2) by simp
  have "kern c'" by (rule kern_cong [of ?b]) (use b in \<open>simp_all add: c' good_def\<close>)
  moreover have "links {} c'" by (rule links_cong [of _ ?b]) (use b in \<open>simp_all add: c' good_def\<close>)
  moreover have w: "wakeups c' = wakeups d" by (rule wakeups_cong) (simp_all add: c')
  moreover have "requested c'" using b w by (simp add: c' good_def requested_def)
  ultimately show "context_inv t c'" using dg(2) g by (simp add: context_inv_def good_def acted_def c')
qed

lemma StageWakeupPoll_kern:
  assumes "StageWakeupPoll t c = Done c'" "kern c" "links X c"
  shows "kern c'" "links X c'" "same_rest c c'" "wakeups c' = wakeups c + 1"
proof -
  let ?op = "\<lambda>d. new_operation\<lparr>category := CatWakeup, op_fd := wakeup_fd d, multishot := True\<rparr>"
  obtain d a where "AcquireSqe c = Done d" "StageOperation (?op d) d = Done (a, c')"
    using assms(1) by (auto simp: StageWakeupPoll_def and_then_Done)
  from acquire_stage_kern [OF this assms(2)] have sa: "staged_as (?op d) c a c'" .
  then show k: "kern c'" "same_rest c c'" by (simp_all add: staged_as_def)
  show "wakeups c' = wakeups c + 1" using wakeups_staged [OF sa] assms(2) by (simp add: kern_def)
  show "links X c'"
    by (rule links_stage_other [OF assms(3), of a "(?op d)\<lparr>owner_index := length (operations c)\<rparr>"])
      (use sa in \<open>simp_all add: staged_as_def same_rest_def\<close>)
qed

lemma StageWakeupPoll_Aborted:
  assumes "StageWakeupPoll t c = Aborted m" "kern c" "run_thread_id c = t"
  shows "m \<in> set client_faults"
proof (rule submission_client)
  have "AcquireSqe c = Aborted m \<or> (\<exists>d op. AcquireSqe c = Done d \<and> StageOperation op d = Aborted m)"
    using assms(1,3) by (auto simp: StageWakeupPoll_def and_then_Aborted AssertRunThread_def)
  moreover have "StageOperation op d \<noteq> Aborted m" if "AcquireSqe c = Done d" for op d
    using StageOperation_Done [OF that assms(2), of op] by auto
  ultimately show "m \<in> set submission_faults" using AcquireSqe_Aborted by blast
qed

lemma wakeup_end_inv:
  assumes "context_inv t c" "run_pc c = RunCallbacks [] has_more n"
  shows "wakeup_end t has_more n c = Done c' \<Longrightarrow> context_inv t c'"
    and "wakeup_end t has_more n c = Aborted m \<Longrightarrow> m \<in> set client_faults"
proof -
  have g: "good {} c" "run_thread_id c = t" "wakeups c = (if has_more then 1 else 0)" "wakeup_fd c \<ge> 0" "t > 0"
    using assms by (simp_all add: context_inv_def)
  have r: "kern c" "links {} c" "requested c" using g(1) by (simp_all add: good_def)
  let ?b = "c\<lparr>wakeup_poll_cancel_submitted := True\<rparr>"
  have gb: "good {} ?b" if "context_stop c"
  proof -
    have "kern ?b" by (rule kern_cong [OF r(1)]) simp_all
    moreover have "links {} ?b" by (rule links_cong [OF r(2)]) simp_all
    ultimately show ?thesis using r(3) that by (simp add: good_def requested_def)
  qed
  have wb: "wakeups ?b = wakeups c" by (rule wakeups_cong) simp_all
  have ends: "context_inv t (d\<lparr>run_pc := RunNext (n + 1)\<rparr>)"
    if d: "good {} d" "run_thread_id d = t" "wakeup_fd d \<ge> 0" "armed d" "run_pc d = RunCallbacks [] has_more n"
      "context_stop d \<Longrightarrow> wakeup_poll_cancel_submitted d \<or> wakeups d = 0" for d
  proof -
    have "good {} (d\<lparr>run_pc := RunNext (n + 1)\<rparr>)"
      by (rule good_move [OF d(1)]) (use d in \<open>auto simp: good_def requested_def\<close>)
    then show ?thesis using d g(5) by (simp add: context_inv_def)
  qed
  consider (cancel) "context_stop c" "has_more" "\<not> wakeup_poll_cancel_submitted c"
    | (stage) "\<not> context_stop c" "\<not> has_more"
    | (keep) "context_stop c \<longrightarrow> has_more \<longrightarrow> wakeup_poll_cancel_submitted c" "\<not> context_stop c \<longrightarrow> has_more"
    by blast
  then have "(wakeup_end t has_more n c = Done c' \<longrightarrow> context_inv t c') \<and>
    (wakeup_end t has_more n c = Aborted m \<longrightarrow> m \<in> set client_faults)"
  proof cases
    case cancel
    then have e: "wakeup_end t has_more n c = and_then (CancelFd t (wakeup_fd c) ?b) (\<lambda>c. Done (c\<lparr>run_pc := RunNext (n + 1)\<rparr>))"
      by (simp add: wakeup_end_def)
    have "context_inv t (d\<lparr>run_pc := RunNext (n + 1)\<rparr>)" if "CancelFd t (wakeup_fd c) ?b = Done d" for d
    proof -
      have dg: "good {} d" "acted ?b d" using CancelFd_good [OF gb [OF cancel(1)] that] by simp_all
      have "armed ?b" using g(3) wb cancel by (simp add: armed_def)
      then show ?thesis
        by (intro ends) (use dg armed_acted assms(2) g in \<open>auto simp: acted_def\<close>)
    qed
    then show ?thesis unfolding e
      using CancelFd_Aborted [OF _ gb [OF cancel(1)]] g(2) by (auto simp: and_then_Done and_then_Aborted)
  next
    case stage
    then have e: "wakeup_end t has_more n c = and_then (StageWakeupPoll t c) (\<lambda>c. Done (c\<lparr>run_pc := RunNext (n + 1)\<rparr>))"
      by (simp add: wakeup_end_def)
    have "context_inv t (d\<lparr>run_pc := RunNext (n + 1)\<rparr>)" if "StageWakeupPoll t c = Done d" for d
    proof (rule ends)
      note s = StageWakeupPoll_kern [OF that r(1,2)]
      have nr: "\<not> context_stop d" using s(3) stage by (simp add: same_rest_def)
      have "requested d" using r(3) s(3) stage by (simp add: same_rest_def requested_def)
      then show "good {} d" using s by (simp add: good_def)
      show "armed d" using s(4) g(3) stage by (simp add: armed_def)
      show "run_thread_id d = t" "wakeup_fd d \<ge> 0" "run_pc d = RunCallbacks [] has_more n"
        using s(3) g assms(2) by (simp_all add: same_rest_def)
      show "context_stop d \<Longrightarrow> wakeup_poll_cancel_submitted d \<or> wakeups d = 0" using nr by simp
    qed
    then show ?thesis unfolding e
      using StageWakeupPoll_Aborted [OF _ r(1) g(2)] by (auto simp: and_then_Done and_then_Aborted)
  next
    case keep
    then have e: "wakeup_end t has_more n c = Done (c\<lparr>run_pc := RunNext (n + 1)\<rparr>)" by (auto simp: wakeup_end_def)
    have "armed c" "context_stop c \<Longrightarrow> wakeup_poll_cancel_submitted c \<or> wakeups c = 0"
      using keep g(3) by (auto simp: armed_def)
    then have "context_inv t (c\<lparr>run_pc := RunNext (n + 1)\<rparr>)"
      using ends [OF g(1,2,4) _ assms(2)] by blast
    then show ?thesis unfolding e by auto
  qed
  then show "wakeup_end t has_more n c = Done c' \<Longrightarrow> context_inv t c'"
    "wakeup_end t has_more n c = Aborted m \<Longrightarrow> m \<in> set client_faults"
    by blast+
qed

lemma Run_next_inv:
  assumes "context_inv t c" "run_pc c = RunNext n"
  shows "Run_next n c = Done c' \<Longrightarrow> context_inv t c'" and "Run_next n c = Aborted m \<Longrightarrow> m \<in> set client_faults"
proof -
  have g: "good {} c" "run_thread_id c = t" "armed c" "wakeup_fd c \<ge> 0" "t > 0"
    using assms by (simp_all add: context_inv_def)
  show "Run_next n c = Aborted m \<Longrightarrow> m \<in> set client_faults"
    using submission_client SubmitStagedSqes_Aborted by (auto simp: Run_next_def and_then_Aborted split: if_splits)
  assume d: "Run_next n c = Done c'"
  show "context_inv t c'"
  proof (cases "n < sq_entries c \<and> completions c \<noteq> []")
    case True
    then have c': "c' = c\<lparr>run_pc := RunProcess n\<rparr>" using d by (simp add: Run_next_def)
    have "good {} c'" unfolding c'
      by (rule good_move [OF g(1)]) (use g(1) assms(2) in \<open>auto simp: good_def requested_def\<close>)
    then show ?thesis using True g by (simp add: context_inv_def c')
  next
    case False
    then obtain e where e: "SubmitStagedSqes c = Done e" "c' = e\<lparr>run_pc := RunLoop\<rparr>"
      using d by (auto simp: Run_next_def and_then_Done)
    have eg: "good {} e" "acted c e" using submitted_good [OF g(1) e(1)] by simp_all
    have "good {} c'" unfolding e(2)
      by (rule good_move [OF eg(1)]) (use eg assms(2) in \<open>auto simp: good_def requested_def acted_def\<close>)
    moreover have "prepared e = []" using SubmitStagedSqes_kern(5) [OF e(1)] g(1) by (simp add: good_def)
    ultimately show ?thesis
      using g eg(2) armed_acted [OF g(3) eg(2)] by (simp add: context_inv_def e(2) acted_def)
  qed
qed

lemma Run_begin_inv:
  assumes "context_inv t c" "run_pc c = NotRun"
  shows "Run_begin t c = Done c' \<Longrightarrow> context_inv t c'" and "Run_begin t c = Aborted m \<Longrightarrow> m \<in> set client_faults"
proof -
  have g: "good {} c" "run_thread_id c = 0" "operations c = []" "\<not> wakeup_poll_cancel_submitted c"
    "context_stop c \<longrightarrow> signals_due c > 0 \<or> eventfd_count c > 0" "wakeup_fd c \<ge> 0" "t > 0"
    using assms by (simp_all add: context_inv_def)
  let ?b = "c\<lparr>run_thread_id := t\<rparr>"
  have eq: "Run_begin t c = and_then (StageWakeupPoll t ?b) (\<lambda>c. and_then (SubmitStagedSqes c) (\<lambda>c. Done (c\<lparr>run_pc := RunLoop\<rparr>)))"
    using g(2) by (simp add: Run_begin_def AcquireRunOwnership_def)
  have b: "kern ?b" "links {} ?b"
  proof -
    show "kern ?b" by (rule kern_cong [of c]) (use g(1) in \<open>simp_all add: good_def\<close>)
    show "links {} ?b" by (rule links_cong [of _ c]) (use g(1) in \<open>simp_all add: good_def\<close>)
  qed
  show "Run_begin t c = Aborted m \<Longrightarrow> m \<in> set client_faults"
    unfolding eq using StageWakeupPoll_Aborted [OF _ b(1)] submission_client SubmitStagedSqes_Aborted
    by (auto simp: and_then_Aborted)
  assume "Run_begin t c = Done c'"
  then obtain d e where d: "StageWakeupPoll t ?b = Done d" "SubmitStagedSqes d = Done e" "c' = e\<lparr>run_pc := RunLoop\<rparr>"
    unfolding eq by (auto simp: and_then_Done)
  note s = StageWakeupPoll_kern [OF d(1) b] and u = SubmitStagedSqes_kern [OF d(2) StageWakeupPoll_kern(1) [OF d(1) b]]
  have "wakeups ?b = 0" using g(3) by (simp add: wakeups_def)
  then have w: "wakeups e = 1" using s(4) wakeups_cong [OF u(3,4)] by simp
  have sr: "same_rest ?b e" using same_rest_trans [OF s(3) u(2)] .
  have "links {} e" by (rule links_cong [OF s(2) u(3)]) (use u(2) in \<open>simp_all add: same_rest_def\<close>)
  moreover have "requested e"
    using g(1,4,5) sr assms(2) by (auto simp: good_def requested_def same_rest_def)
  ultimately have ge: "good {} e" using u(1) by (simp add: good_def)
  have "good {} c'" unfolding d(3)
    by (rule good_move [OF ge]) (use g(1,5) sr assms(2) in \<open>auto simp: good_def requested_def same_rest_def\<close>)
  then show "context_inv t c'" using g w u(5) sr by (simp add: context_inv_def d(3) same_rest_def armed_def)
qed

lemma Run_loop_inv:
  assumes "context_inv t c" "run_pc c = RunLoop" "run_may_return c \<or> w < 0 \<or> completions c \<noteq> []"
  shows "Run_loop w c = Done c' \<Longrightarrow> context_inv t c'" and "Run_loop w c \<noteq> Aborted m"
proof -
  have g: "good {} c" "run_thread_id c = t" "armed c" "prepared c = []" "wakeup_fd c \<ge> 0" "t > 0"
    using assms by (simp_all add: context_inv_def)
  have st: "staged_sqe_count c = 0" using g(1,4) by (simp add: good_def kern_def own_def)
  then show "Run_loop w c \<noteq> Aborted m" by (simp add: Run_loop_def)
  assume d: "Run_loop w c = Done c'"
  have mv: "good {} (c\<lparr>run_pc := pc\<rparr>)" for pc
    by (rule good_move [OF g(1)]) (use g(1) assms(2) in \<open>auto simp: good_def requested_def\<close>)
  show "context_inv t c'"
  proof (cases "run_may_return c")
    case True
    let ?b = "c\<lparr>run_pc := RunReturned\<rparr>"
    have c': "c' = c\<lparr>run_thread_id := FINISHED_RUN_THREAD_ID, run_pc := RunReturned\<rparr>"
      using d True by (simp add: Run_loop_def ReleaseRunOwnership_def)
    have "kern c'" by (rule kern_cong [of ?b]) (use mv in \<open>simp_all add: c' good_def\<close>)
    moreover have "links {} c'" by (rule links_cong [of _ ?b]) (use mv in \<open>simp_all add: c' good_def\<close>)
    moreover have "wakeups c' = 0" using True by (simp add: wakeups_def c' run_may_return_def)
    then have "requested c'" using g(1) assms(2) by (simp add: good_def requested_def c')
    ultimately show ?thesis using g True by (simp add: context_inv_def good_def c' run_may_return_def)
  next
    case False
    show ?thesis
    proof (cases "w < 0")
      case True
      then have "c' = c" using d False st by (simp add: Run_loop_def split: if_splits)
      then show ?thesis using assms(1) by simp
    next
      case nonneg: False
      then have "c' = c\<lparr>run_pc := RunProcess 0\<rparr>" "completions c \<noteq> []"
        using d False st assms(3) by (simp_all add: Run_loop_def)
      then show ?thesis using g mv by (simp add: context_inv_def)
    qed
  qed
qed

lemma run_step_inv:
  assumes "context_inv t c"
  shows "run_step t xs w c = Some (Done c') \<Longrightarrow> context_inv t c'"
    and "run_step t xs w c = Some (Aborted m) \<Longrightarrow> m \<in> set client_faults"
proof -
  have "(run_step t xs w c = Some (Done c') \<longrightarrow> context_inv t c') \<and>
      (run_step t xs w c = Some (Aborted m) \<longrightarrow> m \<in> set client_faults)"
  proof (cases "run_pc c")
    case RunLoop
    show ?thesis
    proof (cases "w = 0 \<and> completions c = [] \<and> \<not> run_may_return c \<or> w > 0")
      case False
      then have "run_may_return c \<or> w < 0 \<or> completions c \<noteq> []" by auto
      then show ?thesis
        using False RunLoop Run_loop_inv(1) [OF assms RunLoop] Run_loop_inv(2) [OF assms RunLoop, of w m]
        by (simp add: run_step_def)
    qed (use RunLoop in \<open>simp add: run_step_def\<close>)
  next
    case (RunProcess n)
    then show ?thesis using ProcessCqe_inv [OF assms RunProcess, of xs] by (simp add: run_step_def)
  next
    case (RunSwap has_more n)
    then show ?thesis using wakeup_swap_inv [OF assms RunSwap] by (auto simp: run_step_def)
  next
    case (RunCallbacks fs has_more n)
    then show ?thesis
      using wakeup_end_inv [OF assms, of has_more n] wakeup_callback_inv [OF assms, of _ _ has_more n]
      by (cases fs) (simp_all add: run_step_def)
  next
    case (RunNext n)
    then show ?thesis using Run_next_inv [OF assms RunNext] by (simp add: run_step_def)
  qed (simp_all add: run_step_def)
  then show "run_step t xs w c = Some (Done c') \<Longrightarrow> context_inv t c'"
    "run_step t xs w c = Some (Aborted m) \<Longrightarrow> m \<in> set client_faults"
    by blast+
qed

section \<open>The kernel and the other threads\<close>

lemma live_queue_snoc: "live_queue K qs \<Longrightarrow> (cqe_more q \<Longrightarrow> the (cqe_data q) \<in> K) \<Longrightarrow> live_queue K (qs @ [q])"
  by (induction qs) (auto simp: finals_def)

lemma live_queue_snoc_final:
  "live_queue K qs \<Longrightarrow> K \<subseteq> insert a K' \<Longrightarrow> \<not> cqe_more q \<Longrightarrow> cqe_data q = Some a \<Longrightarrow> live_queue K' (qs @ [q])"
  by (induction qs) (auto simp: finals_def)

lemma kernel_completes_own:
  assumes "own c" "a \<in> set (in_kernel c)" "heap c a = Some op" "again \<Longrightarrow> multishot op"
  shows "own (kernel_completes a r again buf c)"
proof -
  let ?q = "\<lparr>cqe_data = Some a, cqe_res = r, cqe_more = again, cqe_buffer = buf\<rparr>"
  have l: "live_queue (set (in_kernel c)) (completions c)"
    and m: "mset (operations c) = mset (prepared c) + mset (in_kernel c) + mset (finals (completions c))"
    using assms(1) by (simp_all add: own_def)
  show ?thesis
  proof (cases again)
    case True
    have "live_queue (set (in_kernel c)) (completions c @ [?q])" by (rule live_queue_snoc [OF l]) (use assms(2) in simp)
    then show ?thesis using assms True by (simp add: own_def kernel_completes_def finals_def)
  next
    case False
    have "set (in_kernel c) \<subseteq> insert a (set (remove1 a (in_kernel c)))"
      by (metis in_set_remove1 insertCI subsetI)
    then have "live_queue (set (remove1 a (in_kernel c))) (completions c @ [?q])"
      by (rule live_queue_snoc_final [OF l]) (use False in simp_all)
    moreover have "mset (in_kernel c) = add_mset a (mset (remove1 a (in_kernel c)))" using assms(2) by simp
    then have "mset (operations c) = mset (prepared c) + mset (remove1 a (in_kernel c)) + mset (finals (completions c @ [?q]))"
      using m False by (simp add: finals_def)
    ultimately show ?thesis using assms(1,3) False unfolding own_def kernel_completes_def by simp
  qed
qed

lemma kernel_completes_kern:
  assumes "kern c" "a \<in> set (in_kernel c)" "heap c a = Some op" "again \<Longrightarrow> multishot op"
  shows "kern (kernel_completes a r again buf c)"
proof -
  let ?c = "kernel_completes a r again buf c"
  have w: "is_wakeup ?c = is_wakeup c" by (rule is_wakeup_cong) (simp add: kernel_completes_def)
  have "set (in_kernel ?c) \<subseteq> set (in_kernel c)" using set_remove1_subset [of a "in_kernel c"] by (auto simp: kernel_completes_def)
  then have "list_ex (is_wakeup c) (in_kernel ?c) \<Longrightarrow> list_ex (is_wakeup c) (in_kernel c)" by (auto simp: list_ex_iff)
  then have "signalled ?c"
    using assms(1) unfolding kern_def signalled_def pollin_queued_def w by (auto simp: kernel_completes_def)
  then show ?thesis using kernel_completes_own [OF _ assms(2-4)] assms(1) by (simp add: kern_def)
qed

text \<open>Steps that change neither the table nor what the loop has been asked for.\<close>

lemma context_inv_kernel:
  assumes "context_inv t c" "kern c'" "heap c' = heap c" "operations c' = operations c" "awaitables c' = awaitables c"
    "ctx_pool c' = ctx_pool c" "accepting_posts c' = accepting_posts c" "context_stop c' = context_stop c"
    "posted c' = posted c" "signals_due c' = signals_due c" "eventfd_count c' = eventfd_count c"
    "run_pc c' = run_pc c" "wakeup_poll_cancel_submitted c' = wakeup_poll_cancel_submitted c"
    "wakeup_fd c' = wakeup_fd c" "run_thread_id c' = run_thread_id c" "prepared c' = prepared c"
    "completions c \<noteq> [] \<longrightarrow> completions c' \<noteq> []"
  shows "context_inv t c'"
proof -
  have w: "wakeups c' = wakeups c" by (rule wakeups_cong [OF assms(3,4)])
  have "links {} c'" by (rule links_cong [OF _ assms(3,5)]) (use assms(1,6) in \<open>simp_all add: context_inv_def good_def\<close>)
  moreover have "requested c'" using assms w by (simp add: context_inv_def good_def requested_def)
  moreover have "phase_of t c' (run_pc c)"
    using assms w by (cases "run_pc c") (simp_all add: context_inv_def armed_def)
  ultimately show ?thesis using assms by (simp add: context_inv_def good_def)
qed

lemma kernel_completes_inv:
  assumes "context_inv t c" "a \<in> set (in_kernel c)" "heap c a = Some op" "again \<Longrightarrow> multishot op"
  shows "context_inv t (kernel_completes a r again buf c)"
  by (rule context_inv_kernel [OF assms(1) kernel_completes_kern [OF _ assms(2-4)]])
    (use assms(1) in \<open>simp_all add: kernel_completes_def context_inv_def good_def\<close>)


lemma poll_fires_inv:
  assumes "context_inv t c" "a \<in> set (in_kernel c)" "heap c a = Some op" "again \<Longrightarrow> multishot op" "is_wakeup c a"
  shows "context_inv t ((kernel_completes a POLLIN again None c)\<lparr>poll_due := False\<rparr>)"
proof -
  let ?d = "kernel_completes a POLLIN again None c" and ?q = "\<lparr>cqe_data = Some a, cqe_res = POLLIN, cqe_more = again, cqe_buffer = None\<rparr>"
  let ?c = "?d\<lparr>poll_due := False\<rparr>"
  have d: "context_inv t ?d" by (rule kernel_completes_inv [OF assms(1-4)])
  have "own ?c" using d by (simp add: context_inv_def good_def kern_def own_def)
  moreover have "is_wakeup ?c = is_wakeup c" by (rule is_wakeup_cong) (simp add: kernel_completes_def)
  then have "pollin_queued ?c" using assms(5) by (simp add: pollin_queued_def kernel_completes_def)
  ultimately have "kern ?c" by (simp add: kern_def signalled_def)
  then show ?thesis by (rule context_inv_kernel [OF d]) simp_all
qed

lemma context_inv_signals:
  assumes "context_inv t c" "kern c'" "links {} c'" "acted c c'" "accepting_posts c' \<longleftrightarrow> \<not> context_stop c'"
    "prepared c' = prepared c" "operations c' = operations c"
    "posted c' \<noteq> [] \<Longrightarrow> signals_due c' > 0 \<or> eventfd_count c' > 0 \<or> swapping (run_pc c')"
    "context_stop c' \<Longrightarrow> signals_due c' > 0 \<or> eventfd_count c' > 0 \<or>
       context_stop c \<and> run_pc c \<noteq> NotRun \<and> (handling (run_pc c) \<or> wakeup_poll_cancel_submitted c \<or> wakeups c = 0)"
  shows "context_inv t c'"
proof -
  have a: "run_pc c' = run_pc c" "wakeups c' = wakeups c" "run_thread_id c' = run_thread_id c" "completions c' = completions c"
    "wakeup_fd c' = wakeup_fd c" "wakeup_poll_cancel_submitted c' = wakeup_poll_cancel_submitted c"
    "context_stop c \<longrightarrow> context_stop c'"
    using assms(4) by (simp_all add: acted_def)
  have i: "requested c" "wakeup_fd c \<ge> 0" "t > 0" "phase_of t c (run_pc c)"
    using assms(1) by (simp_all add: context_inv_def good_def)
  have "requested c'" unfolding requested_def using i(1) a assms(5,8,9) by (auto simp: requested_def)
  moreover have "phase_of t c' (run_pc c)"
    using i(4) a assms(6,7,9) by (cases "run_pc c") (auto simp: armed_def)
  ultimately show ?thesis using assms(2,3) i(2,3) a by (simp add: context_inv_def good_def)
qed

lemma signals_due_kern:
  assumes "kern c" "links {} c"
  shows "kern (c\<lparr>signals_due := k\<rparr>)" "links {} (c\<lparr>signals_due := k\<rparr>)" "acted c (c\<lparr>signals_due := k\<rparr>)"
proof -
  show "kern (c\<lparr>signals_due := k\<rparr>)" by (rule kern_cong [OF assms(1)]) simp_all
  show "links {} (c\<lparr>signals_due := k\<rparr>)" by (rule links_cong [OF assms(2)]) simp_all
  have "wakeups (c\<lparr>signals_due := k\<rparr>) = wakeups c" by (rule wakeups_cong) simp_all
  then show "acted c (c\<lparr>signals_due := k\<rparr>)" by (simp add: acted_def)
qed

lemma inv_facts:
  assumes "context_inv t c"
  shows "kern c" "links {} c" "accepting_posts c \<longleftrightarrow> \<not> context_stop c"
    "posted c \<noteq> [] \<Longrightarrow> signals_due c > 0 \<or> eventfd_count c > 0 \<or> swapping (run_pc c)"
    "context_stop c \<Longrightarrow> signals_due c > 0 \<or> eventfd_count c > 0 \<or>
       run_pc c \<noteq> NotRun \<and> (handling (run_pc c) \<or> wakeup_poll_cancel_submitted c \<or> wakeups c = 0)"
    "wakeup_poll_cancel_submitted c \<longrightarrow> context_stop c"
  using assms by (auto simp: context_inv_def good_def requested_def)

lemma other_posts_inv:
  assumes "context_inv t c" "post_locked f c = (signal, d)"
  shows "context_inv t (d\<lparr>signals_due := signals_due d + (if signal then 1 else 0)\<rparr>)"
proof (cases "accepting_posts c")
  case False
  then show ?thesis using assms by (simp add: post_locked_def)
next
  case True
  then have d: "d = c\<lparr>posted := posted c @ [f]\<rparr>" and s: "signal \<longleftrightarrow> posted c = []"
    using assms(2) by (auto simp: post_locked_def)
  note i = inv_facts [OF assms(1)]
  note p = post_locked_kern [OF assms(2) i(1,2)]
  note k = signals_due_kern [OF p(1,2), of "signals_due d + (if signal then 1 else 0)"]
  have stop: "\<not> context_stop c" using True i(3) by simp
  show ?thesis
  proof (rule context_inv_signals [OF assms(1) k(1,2) acted_trans [OF p(3) k(3)]])
    show "signals_due (d\<lparr>signals_due := signals_due d + (if signal then 1 else 0)\<rparr>) > 0 \<or>
        eventfd_count (d\<lparr>signals_due := signals_due d + (if signal then 1 else 0)\<rparr>) > 0 \<or>
        swapping (run_pc (d\<lparr>signals_due := signals_due d + (if signal then 1 else 0)\<rparr>))"
      using i(4) s by (cases signal) (simp_all add: d)
  qed (use stop True in \<open>simp_all add: d\<close>)
qed

lemma other_stops_inv:
  assumes "context_inv t c" "stop_locked c = (signal, d)"
  shows "context_inv t (d\<lparr>signals_due := signals_due d + (if signal then 1 else 0)\<rparr>)"
proof (cases "accepting_posts c")
  case False
  then show ?thesis using assms by (simp add: stop_locked_def)
next
  case True
  then have d: "d = c\<lparr>accepting_posts := False, context_stop := True\<rparr>" and s: "signal"
    using assms(2) by (auto simp: stop_locked_def)
  note i = inv_facts [OF assms(1)]
  note p = stop_locked_kern [OF assms(2) i(1,2)]
  note k = signals_due_kern [OF p(1,2), of "signals_due d + (if signal then 1 else 0)"]
  show ?thesis
    by (rule context_inv_signals [OF assms(1) k(1,2) acted_trans [OF p(3) k(3)]]) (use s in \<open>simp_all add: d\<close>)
qed

lemma other_signals_inv:
  assumes "context_inv t c" "SignalWakeup c = Done d"
  shows "context_inv t (d\<lparr>signals_due := signals_due d - 1\<rparr>)"
proof -
  note i = inv_facts [OF assms(1)]
  have s: "good {} d" "acted c d" "eventfd_count d > 0"
    using SignalWakeup_good [OF assms(2) i(1,2,3,6)] by simp_all
  have f: "prepared d = prepared c" "operations d = operations c" "accepting_posts d \<longleftrightarrow> \<not> context_stop d"
    using signal_loop_Done [OF assms(2) [unfolded SignalWakeup_def]] i(3) by auto
  note k = signals_due_kern [of d "signals_due d - 1"]
  show ?thesis
    by (rule context_inv_signals [OF assms(1) k(1,2) acted_trans [OF s(2) k(3)]])
      (use s f in \<open>simp_all add: good_def\<close>)
qed

lemma context_step_inv:
  assumes "context_step t c c'" "context_inv t c"
  shows "context_inv t c'"
  using assms
proof (cases rule: context_step.cases)
  case run_begins
  then show ?thesis using Run_begin_inv(1) [OF assms(2)] by simp
next
  case (run_steps xs w)
  then show ?thesis using run_step_inv(1) [OF assms(2)] by blast
next
  case (request_completes a op again r buf)
  then show ?thesis using kernel_completes_inv [OF assms(2)] by blast
next
  case (poll_fires a op again)
  then show ?thesis using poll_fires_inv [OF assms(2)] by (simp add: is_wakeup_def)
next
  case (poll_cancelled a op)
  then show ?thesis using kernel_completes_inv [OF assms(2), of a op False] by simp
next
  case (other_posts f signal d)
  then show ?thesis using other_posts_inv [OF assms(2)] by simp
next
  case (other_stops signal d)
  then show ?thesis using other_stops_inv [OF assms(2)] by simp
next
  case (other_signals d)
  then show ?thesis using other_signals_inv [OF assms(2)] by simp
qed

lemma context_reach_inv: "context_reach t c \<Longrightarrow> context_inv t c"
proof (induction rule: context_reach.induct)
  case (constructed net slots fd ring_error answers errors entries config c)
  then show ?case
    by (auto simp: UringContext_def and_then_Done context_inv_def good_def kern_def own_def table_def finals_def
        signalled_def links_def requested_def wakeups_def)
next
  case (stepped c c')
  then show ?case using context_step_inv by blast
qed

section \<open>The properties\<close>

text \<open>The checks that guard the context's own bookkeeping, with the uses of freed objects that the model
  makes visible.\<close>

definition loop_faults :: "string list" where
  "loop_faults =
    [''UringContext received a CQE without operation data'', ''dangling operation'',
     ''UringContext received a CQE for an untracked operation'',
     ''UringContext completed an operation without an awaitable'', ''dangling awaitable'',
     ''UringContext completed an awaitable operation without a continuation'',
     ''UringContext attempted to wait with staged SQEs'',
     ''UringContext attempted to start an empty operation'',
     ''UringContext prepared an operation with unknown type'',
     ''UringContext attempted a provided-buffer receive without a registered pool'',
     ''io_uring submission attempted outside the owning Run thread'',
     ''UringContext::CancelFd called outside the owning Run thread'',
     ''wakeup poll staging attempted outside the owning Run thread'',
     ''UringContext::SnapshotStats called outside the owning Run thread'',
     ''operations_.size() < operations_.capacity()'', ''no pool'', ''no completion'']"

lemma faults_apart: "m \<in> set client_faults \<Longrightarrow> m \<notin> set loop_faults"
  unfolding client_faults_def submission_faults_def loop_faults_def by auto

text \<open>C14. No bookkeeping fault: in every reachable state of a context, whatever the resumed coroutine and
  the callbacks call and whatever the kernel answers, a step of the thread in \<^verbatim>\<open>Run\<close> does not fail one
  of the context's internal checks, and does not use an operation or an awaitable that is gone. What
  can end the process are exceptions, contradictory answers of the kernel, and coroutines that break
  the protocol of their awaitable.\<close>

theorem run_keeps_bookkeeping:
  assumes "context_reach t c" "run_step t xs w c = Some (Aborted m)"
  shows "m \<notin> set loop_faults"
  by (rule faults_apart, rule run_step_inv(2) [OF context_reach_inv [OF assms(1)] assms(2)])

text \<open>C39. Operations are owned until their last completion: in every reachable state each live operation
  is in the table exactly once, at the index it records, and it is prepared, with the kernel, or its
  last completion waits in the queue, exactly one of them. An awaitable waits for a live operation
  that refers back to it. When \<^verbatim>\<open>Run\<close> has returned nothing is left with the kernel.\<close>

theorem operations_owned:
  assumes "context_reach t c"
  shows "distinct (operations c) \<and> dom (heap c) = set (operations c) \<and>
    (\<forall>i < length (operations c). \<exists>op. heap c (operations c ! i) = Some op \<and> owner_index op = i) \<and>
    mset (operations c) = mset (prepared c) + mset (in_kernel c) + mset (finals (completions c)) \<and>
    (\<forall>w aw a. awaitables c w = Some aw \<longrightarrow> handed_off_operation aw = Some a \<longrightarrow>
       (\<exists>op. heap c a = Some op \<and> op_awaitable op = Some w)) \<and>
    (run_pc c = RunReturned \<longrightarrow> in_kernel c = [] \<and> destroy_context c = Done ())"
proof -
  have i: "own c" "links {} c" "phase_of t c (run_pc c)"
    using context_reach_inv [OF assms] by (simp_all add: context_inv_def good_def kern_def)
  have t: "distinct (operations c)" "dom (heap c) = set (operations c)"
    "mset (operations c) = mset (prepared c) + mset (in_kernel c) + mset (finals (completions c))"
    using i(1) by (simp_all add: own_def table_def)
  have "\<exists>op. heap c (operations c ! k) = Some op \<and> owner_index op = k" if k: "k < length (operations c)" for k
  proof -
    have "operations c ! k \<in> dom (heap c)" using t(2) k by simp
    then obtain op where "heap c (operations c ! k) = Some op" by blast
    then show ?thesis using i(1) k by (auto simp: own_def table_def)
  qed
  moreover have "\<exists>op. heap c a = Some op \<and> op_awaitable op = Some w"
    if "awaitables c w = Some aw" "handed_off_operation aw = Some a" for w aw a
    using i(2) that unfolding links_def aw_linked_def by blast
  moreover have "in_kernel c = [] \<and> destroy_context c = Done ()" if "run_pc c = RunReturned"
    using i(3) t(3) that by (simp add: destroy_context_def)
  ultimately show ?thesis using t by blast
qed

lemma blocked_poll:
  assumes "context_inv t c" "run_pc c = RunLoop" "completions c = []" "wakeups c \<noteq> 0"
  shows "list_ex (is_wakeup c) (in_kernel c)" "eventfd_count c > 0 \<Longrightarrow> poll_due c"
proof -
  have i: "own c" "signalled c" "prepared c = []"
    using assms(1,2) by (simp_all add: context_inv_def good_def kern_def)
  have "mset (operations c) = mset (in_kernel c)" using i(1,3) assms(3) by (simp add: own_def finals_def)
  then have "size (filter_mset (is_wakeup c) (mset (in_kernel c))) \<noteq> 0" using assms(4) by (simp add: wakeups_def)
  then have "filter_mset (is_wakeup c) (mset (in_kernel c)) \<noteq> {#}" by (metis size_empty)
  then show l: "list_ex (is_wakeup c) (in_kernel c)"
    by (metis filter_mset_False filter_mset_cong list_ex_iff set_mset_mset)
  show "eventfd_count c > 0 \<Longrightarrow> poll_due c" using i(2) l assms(3) by (simp add: signalled_def pollin_queued_def)
qed

text \<open>C15. No lost wakeup: when the thread in \<^verbatim>\<open>Run\<close> blocks with no completion queued and no signal under
  way, then with a callback in the queue and no stop requested the poll of the eventfd is with the
  kernel and about to fire; and with a stop requested the poll is about to fire, is being cancelled,
  or is gone already.\<close>

theorem wakeup_not_lost:
  assumes "context_reach t c" "run_pc c = RunLoop" "completions c = []" "signals_due c = 0"
  shows "(posted c \<noteq> [] \<longrightarrow> \<not> context_stop c \<longrightarrow> list_ex (is_wakeup c) (in_kernel c) \<and> poll_due c) \<and>
    (context_stop c \<longrightarrow> wakeups c = 0 \<or>
       list_ex (is_wakeup c) (in_kernel c) \<and> (poll_due c \<or> wakeup_poll_cancel_submitted c))"
proof -
  have inv: "context_inv t c" by (rule context_reach_inv [OF assms(1)])
  note b = blocked_poll [OF inv assms(2,3)] and i = inv_facts [OF inv]
  have "\<not> context_stop c \<Longrightarrow> wakeups c \<noteq> 0" using inv assms(2) by (simp add: context_inv_def armed_def)
  then show ?thesis using b i(4,5) assms(2,4) by auto
qed

section \<open>A run\<close>

definition poll_op :: operation where
  "poll_op = new_operation\<lparr>category := CatWakeup, op_fd := 5, multishot := True\<rparr>"

definition cancel_op :: operation where
  "cancel_op = new_operation\<lparr>owner_index := 1, category := CatCancel, op_fd := 5\<rparr>"

definition demo_context ::
  "nat list \<Rightarrow> (nat \<Rightarrow> operation option) \<Rightarrow> nat list \<Rightarrow> cqe list \<Rightarrow> nat \<Rightarrow> bool \<Rightarrow> int \<Rightarrow> bool \<Rightarrow> bool \<Rightarrow>
     action list list \<Rightarrow> nat \<Rightarrow> run_pc \<Rightarrow> action list list \<Rightarrow> uring_context" where
  "demo_context ops h K qs n due tid stop cs fs sig pc rn =
    \<lparr>ctx_net = demo_net, sq_entries = 4, prepared = [], in_kernel = K, completions = qs, submit_answers = [],
     eventfd_count = n, eventfd_errors = [], poll_due = due, heap = h, awaitables = Map.empty, ctx_pool = None,
     wakeup_fd = 5, run_thread_id = tid, context_stop = stop, operations = ops, operations_capacity = 4,
     staged_sqe_count = 0, wakeup_poll_cancel_submitted = cs, enobufs = 0, stats_window_id = 0,
     accepting_posts = (\<not> stop), posted = fs, signals_due = sig, run_pc = pc, ran = rn, fetched = []\<rparr>"

definition pollin_cqe :: cqe where
  "pollin_cqe = \<lparr>cqe_data = Some 0, cqe_res = POLLIN, cqe_more = True, cqe_buffer = None\<rparr>"

definition cancelled_cqe :: cqe where
  "cancelled_cqe = \<lparr>cqe_data = Some 0, cqe_res = - ECANCELED, cqe_more = False, cqe_buffer = None\<rparr>"

definition cancel_cqe :: cqe where
  "cancel_cqe = \<lparr>cqe_data = Some 1, cqe_res = 1, cqe_more = False, cqe_buffer = None\<rparr>"

lemmas demo_ops = poll_op_def cancel_op_def new_operation_def

lemma demo_begin:
  "Run_begin 7 (demo_context [] Map.empty [] [] 0 False 0 False False [] 0 NotRun []) =
     Done (demo_context [0] [0 \<mapsto> poll_op] [0] [] 0 False 7 False False [] 0 RunLoop [])"
  by (simp add: demo_context_def Run_begin_def AcquireRunOwnership_def StageWakeupPoll_def AssertRunThread_def
      AcquireSqe_def StageOperation_def fresh_address_def Let_def SubmitStagedSqes_def kernel_takes_def is_wakeup_def demo_ops)

lemma demo_loop_post:
  "post_locked f (demo_context ops h K qs n due tid False cs [] sig pc rn) =
     (True, demo_context ops h K qs n due tid False cs [f] sig pc rn)"
  by (simp add: demo_context_def post_locked_def)

lemma demo_stop:
  "stop_locked (demo_context ops h K qs n due tid False cs fs sig pc rn) =
     (True, demo_context ops h K qs n due tid True cs fs sig pc rn)"
  by (simp add: demo_context_def stop_locked_def)

lemma demo_signal:
  "n < 5 \<Longrightarrow> SignalWakeup (demo_context ops h K qs n due tid stop cs fs sig pc rn) =
     Done (demo_context ops h K qs (n + 1) True tid stop cs fs sig pc rn)"
  by (simp add: demo_context_def SignalWakeup_def EVENTFD_MAX_def)

lemma demo_sig:
  "(demo_context ops h K qs n due tid stop cs fs sig pc rn)\<lparr>signals_due := k\<rparr> =
     demo_context ops h K qs n due tid stop cs fs k pc rn"
  "signals_due (demo_context ops h K qs n due tid stop cs fs sig pc rn) = sig"
  by (simp_all add: demo_context_def)

lemma demo_wakeup:
  "run_step 7 [] 0 (demo_context [0] [0 \<mapsto> poll_op] [0] [pollin_cqe] 1 False 7 False False fs 0 RunLoop []) =
     Some (Done (demo_context [0] [0 \<mapsto> poll_op] [0] [pollin_cqe] 1 False 7 False False fs 0 (RunProcess 0) []))"
  "run_step 7 [] 0 (demo_context [0] [0 \<mapsto> poll_op] [0] [pollin_cqe] 1 False 7 False False fs 0 (RunProcess 0) []) =
     Some (Done (demo_context [0] [0 \<mapsto> poll_op] [0] [] 0 False 7 False False fs 0 (RunSwap True 0) []))"
  "run_step 7 [] 0 (demo_context [0] [0 \<mapsto> poll_op] [0] [] 0 False 7 False False fs 0 (RunSwap True 0) []) =
     Some (Done (demo_context [0] [0 \<mapsto> poll_op] [0] [] 0 False 7 False False [] 0 (RunCallbacks fs True 0) []))"
  "run_step 7 [] 0 (demo_context [0] [0 \<mapsto> poll_op] [0] [] 0 False 7 False False [] 0 (RunCallbacks [[]] True 0) []) =
     Some (Done (demo_context [0] [0 \<mapsto> poll_op] [0] [] 0 False 7 False False [] 0 (RunCallbacks [] True 0) [[]]))"
  by (simp_all add: demo_context_def run_step_def Run_loop_def run_may_return_def ProcessCqe_def pollin_cqe_def demo_ops
      wakeup_begin_def POLLIN_def ConsumeWakeupSignal_def wakeup_swap_def wakeup_callback_def Let_def)

lemma demo_cancels:
  "run_step 7 [] 0 (demo_context [0] [0 \<mapsto> poll_op] [0] [] 0 False 7 True False fs sig (RunCallbacks [] True 0) rn) =
     Some (Done (demo_context [0, 1] [0 \<mapsto> poll_op, 1 \<mapsto> cancel_op] [0, 1] [] 0 False 7 True True fs sig (RunNext 1) rn))"
  "run_step 7 [] 0 (demo_context [0, 1] [0 \<mapsto> poll_op, 1 \<mapsto> cancel_op] [0, 1] [] 0 False 7 True True fs sig (RunNext 1) rn) =
     Some (Done (demo_context [0, 1] [0 \<mapsto> poll_op, 1 \<mapsto> cancel_op] [0, 1] [] 0 False 7 True True fs sig RunLoop rn))"
  by (simp_all add: demo_context_def run_step_def wakeup_end_def CancelFd_def IsRunning_def AssertRunThread_def
      AcquireSqe_def StageOperation_def fresh_address_def Let_def SubmitStagedSqes_def kernel_takes_def is_wakeup_def
      demo_ops Run_next_def)

lemma demo_drains:
  "run_step 7 [] 0 (demo_context [0, 1] [0 \<mapsto> poll_op, 1 \<mapsto> cancel_op] [] [cancelled_cqe, cancel_cqe] 0 False 7 True True fs sig RunLoop rn) =
     Some (Done (demo_context [0, 1] [0 \<mapsto> poll_op, 1 \<mapsto> cancel_op] [] [cancelled_cqe, cancel_cqe] 0 False 7 True True fs sig (RunProcess 0) rn))"
  "run_step 7 [] 0 (demo_context [0, 1] [0 \<mapsto> poll_op, 1 \<mapsto> cancel_op] [] [cancelled_cqe, cancel_cqe] 0 False 7 True True fs sig (RunProcess 0) rn) =
     Some (Done (demo_context [1] [1 \<mapsto> cancel_op\<lparr>owner_index := 0\<rparr>] [] [cancel_cqe] 0 False 7 True False fs sig (RunNext 1) rn))"
  "run_step 7 [] 0 (demo_context [1] [1 \<mapsto> cancel_op\<lparr>owner_index := 0\<rparr>] [] [cancel_cqe] 0 False 7 True False fs sig (RunNext 1) rn) =
     Some (Done (demo_context [1] [1 \<mapsto> cancel_op\<lparr>owner_index := 0\<rparr>] [] [cancel_cqe] 0 False 7 True False fs sig (RunProcess 1) rn))"
  "run_step 7 [] 0 (demo_context [1] [1 \<mapsto> cancel_op\<lparr>owner_index := 0\<rparr>] [] [cancel_cqe] 0 False 7 True False fs sig (RunProcess 1) rn) =
     Some (Done (demo_context [] Map.empty [] [] 0 False 7 True False fs sig (RunNext 2) rn))"
  "run_step 7 [] 0 (demo_context [] Map.empty [] [] 0 False 7 True False fs sig (RunNext 2) rn) =
     Some (Done (demo_context [] Map.empty [] [] 0 False 7 True False fs sig RunLoop rn))"
  "run_step 7 [] 0 (demo_context [] Map.empty [] [] 0 False 7 True False fs sig RunLoop rn) =
     Some (Done (demo_context [] Map.empty [] [] 0 False (- 1) True False fs sig RunReturned rn))"
  by (simp_all add: demo_context_def run_step_def Run_loop_def Run_next_def run_may_return_def ProcessCqe_def
      cancelled_cqe_def cancel_cqe_def TakeOperation_def demo_ops wakeup_begin_def ECANCELED_def ProcessCancelCqe_def
      SubmitStagedSqes_def ReleaseRunOwnership_def FINISHED_RUN_THREAD_ID_def Let_def fun_upd_twist)

lemma demo_loop_start:
  "context_reach 7 (demo_context [] Map.empty [] [] 0 False 0 False False [] 0 NotRun [])"
  by (rule context_reach.constructed [of demo_net 4 5 None "[]" "[]" 4 None])
    (simp_all add: UringContext_def demo_context_def)

lemma demo_run_step:
  "context_reach 7 c \<Longrightarrow> run_step 7 [] 0 c = Some (Done c') \<Longrightarrow> context_reach 7 c'"
  using context_reach.stepped context_step.run_steps by blast

lemma demo_posts:
  assumes "context_reach 7 (demo_context ops h K qs n due tid False cs [] sig pc rn)"
  shows "context_reach 7 (demo_context ops h K qs n due tid False cs [f] (sig + 1) pc rn)"
  using context_reach.stepped [OF assms context_step.other_posts [OF demo_loop_post]] by (simp add: demo_sig)

lemma demo_stops:
  assumes "context_reach 7 (demo_context ops h K qs n due tid False cs fs sig pc rn)"
  shows "context_reach 7 (demo_context ops h K qs n due tid True cs fs (sig + 1) pc rn)"
  using context_reach.stepped [OF assms context_step.other_stops [OF demo_stop]] by (simp add: demo_sig)

lemma demo_signals:
  assumes "context_reach 7 (demo_context ops h K qs n due tid stop cs fs sig pc rn)" "n < 5" "sig > 0"
  shows "context_reach 7 (demo_context ops h K qs (n + 1) True tid stop cs fs (sig - 1) pc rn)"
  using context_reach.stepped [OF assms(1) context_step.other_signals [OF _ demo_signal]] assms(2,3)
  by (simp add: demo_sig)

text \<open>A callback is posted and \<open>Run\<close> is woken by it; the thread blocks again before.\<close>

lemma demo_blocked:
  "context_reach 7 (demo_context [0] [0 \<mapsto> poll_op] [0] [] 1 True 7 False False [f] 0 RunLoop [])"
proof -
  have "context_reach 7 (demo_context [0] [0 \<mapsto> poll_op] [0] [] 0 False 7 False False [] 0 RunLoop [])"
    by (rule context_reach.stepped [OF demo_loop_start context_step.run_begins [OF _ demo_begin]]) (simp add: demo_context_def)
  from demo_signals [OF demo_posts [OF this, of f]] show ?thesis by simp
qed

lemma demo_fired:
  "context_reach 7 (demo_context [0] [0 \<mapsto> poll_op] [0] [pollin_cqe] 1 False 7 False False [f] 0 RunLoop [])"
proof -
  let ?c = "demo_context [0] [0 \<mapsto> poll_op] [0] [] 1 True 7 False False [f] 0 RunLoop []"
  have "context_step 7 ?c ((kernel_completes 0 POLLIN True None ?c)\<lparr>poll_due := False\<rparr>)"
    by (rule context_step.poll_fires [of _ _ poll_op]) (simp_all add: demo_context_def demo_ops)
  from context_reach.stepped [OF demo_blocked this] show ?thesis
    by (simp add: demo_context_def kernel_completes_def pollin_cqe_def)
qed

text \<open>The callback has run. Now another one is posted and the stop is requested, before the handler
  looks at the stop flag.\<close>

lemma demo_loop_stopped:
  "context_reach 7 (demo_context [0] [0 \<mapsto> poll_op] [0] [] 0 False 7 True False [[CallStop]] 2 (RunCallbacks [] True 0) [[]])"
proof -
  note r = demo_run_step [OF demo_fired demo_wakeup(1)]
  note r = demo_run_step [OF r demo_wakeup(2)]
  note r = demo_run_step [OF r demo_wakeup(3)]
  note r = demo_run_step [OF r demo_wakeup(4)]
  from demo_stops [OF demo_posts [OF r, of "[CallStop]"]] show ?thesis by (simp add: numeral_2_eq_2)
qed

lemma demo_cancelled:
  "context_reach 7 (demo_context [0, 1] [0 \<mapsto> poll_op, 1 \<mapsto> cancel_op] [] [cancelled_cqe, cancel_cqe] 0 False 7 True True
     [[CallStop]] 2 RunLoop [[]])"
proof -
  let ?c = "\<lambda>K qs. demo_context [0, 1] [0 \<mapsto> poll_op, 1 \<mapsto> cancel_op] K qs 0 False 7 True True [[CallStop]] 2 RunLoop [[]]"
  have r: "context_reach 7 (?c [0, 1] [])"
    by (rule demo_run_step [OF demo_run_step [OF demo_loop_stopped demo_cancels(1)] demo_cancels(2)])
  have "context_step 7 (?c [0, 1] []) (kernel_completes 0 (- ECANCELED) False None (?c [0, 1] []))"
    by (rule context_step.poll_cancelled [of _ _ poll_op]) (simp_all add: demo_context_def demo_ops)
  moreover have "kernel_completes 0 (- ECANCELED) False None (?c [0, 1] []) = ?c [1] [cancelled_cqe]"
    by (simp add: demo_context_def kernel_completes_def cancelled_cqe_def)
  ultimately have r: "context_reach 7 (?c [1] [cancelled_cqe])" using context_reach.stepped [OF r] by simp
  have "context_step 7 (?c [1] [cancelled_cqe]) (kernel_completes 1 1 False None (?c [1] [cancelled_cqe]))"
    by (rule context_step.request_completes [of _ _ cancel_op]) (simp_all add: demo_context_def demo_ops)
  moreover have "kernel_completes 1 1 False None (?c [1] [cancelled_cqe]) = ?c [] [cancelled_cqe, cancel_cqe]"
    by (simp add: demo_context_def kernel_completes_def cancel_cqe_def)
  ultimately show ?thesis using context_reach.stepped [OF r] by simp
qed

text \<open>\<^verbatim>\<open>Run\<close> has returned, and both signals have arrived.\<close>

lemma demo_returned:
  "context_reach 7 (demo_context [] Map.empty [] [] 2 True (- 1) True False [[CallStop]] 0 RunReturned [[]])"
proof -
  note r = demo_run_step [OF demo_cancelled demo_drains(1)]
  note r = demo_run_step [OF r demo_drains(2)]
  note r = demo_run_step [OF r demo_drains(3)]
  note r = demo_run_step [OF r demo_drains(4)]
  note r = demo_run_step [OF r demo_drains(5)]
  note r = demo_run_step [OF r demo_drains(6)]
  from demo_signals [OF demo_signals [OF r]] show ?thesis by (simp add: numeral_2_eq_2)
qed

text \<open>C40. A queued callback can be dropped by a stop: a callback that \<^verbatim>\<open>Post\<close> accepted after the wakeup
  handler took its batch, and a stop requested before the handler reads the stop flag. The handler
  cancels the poll, the last completion of the poll does not look at the queue, and \<^verbatim>\<open>Run\<close> returns with
  the callback still queued and no signal under way. The documentation of \<^verbatim>\<open>RequestStop\<close> says that
  callbacks already queued are drained.\<close>

theorem queued_callback_dropped:
  "\<exists>c. context_reach 7 c \<and> run_pc c = RunReturned \<and> signals_due c = 0 \<and>
     posted c = [[CallStop]] \<and> [CallStop] \<notin> set (ran c)"
  by (rule exI, rule conjI, rule demo_returned) (simp add: demo_context_def)

theorem run_keeps_bookkeeping_witness:
  "\<exists>c m. context_reach 7 c \<and> run_step 7 [] 0 c = Some (Aborted m) \<and> m \<notin> set loop_faults"
proof -
  let ?f = "[Construct 0 (ReqRecv 9 0 64), FetchResult 0]"
  let ?c = "demo_context [0] [0 \<mapsto> poll_op] [0] [] 0 False 7 False False [] 0 (RunCallbacks [?f] True 0) []"
  note r = demo_run_step [OF demo_fired demo_wakeup(1)]
  note r = demo_run_step [OF r demo_wakeup(2)]
  have r: "context_reach 7 ?c" by (rule demo_run_step [OF r demo_wakeup(3)])
  have a: "run_step 7 [] 0 ?c = Some (Aborted ''UringAwaitable resumed without an operation result'')"
    by (simp add: demo_context_def run_step_def wakeup_callback_def Ctx_Recv_def UringAwaitable_def await_resume_def)
  show ?thesis
    by (intro exI conjI) (rule r, rule a, rule run_keeps_bookkeeping [OF r a])
qed

theorem operations_owned_witness:
  "\<exists>c. context_reach 7 c \<and> operations c = [0, 1] \<and> dom (heap c) = set (operations c) \<and>
     mset (operations c) = mset (prepared c) + mset (in_kernel c) + mset (finals (completions c))"
proof (intro exI conjI)
  show "context_reach 7 (demo_context [0, 1] [0 \<mapsto> poll_op, 1 \<mapsto> cancel_op] [] [cancelled_cqe, cancel_cqe] 0 False 7 True True
     [[CallStop]] 2 RunLoop [[]])" (is "context_reach 7 ?c")
    by (rule demo_cancelled)
  show "operations ?c = [0, 1]" by (simp add: demo_context_def)
  show "dom (heap ?c) = set (operations ?c)"
    "mset (operations ?c) = mset (prepared ?c) + mset (in_kernel ?c) + mset (finals (completions ?c))"
    using operations_owned [OF demo_cancelled] by blast+
qed

theorem wakeup_not_lost_witness:
  "\<exists>c. context_reach 7 c \<and> run_pc c = RunLoop \<and> posted c \<noteq> [] \<and> list_ex (is_wakeup c) (in_kernel c) \<and> poll_due c"
proof -
  let ?c = "demo_context [0] [0 \<mapsto> poll_op] [0] [] 1 True 7 False False [[]] 0 RunLoop []"
  have s: "run_pc ?c = RunLoop" "completions ?c = []" "signals_due ?c = 0" "posted ?c \<noteq> []" "\<not> context_stop ?c"
    by (simp_all add: demo_context_def)
  have "list_ex (is_wakeup ?c) (in_kernel ?c) \<and> poll_due ?c"
    using wakeup_not_lost [OF demo_blocked s(1-3)] s(4,5) by blast
  then show ?thesis using demo_blocked [of "[]"] s by blast
qed

end
