(* ===== verification/Spec2Isabelle.thy ===== *)
theory Spec2Isabelle
  imports Frame_Stream Mpsc_Queue Service_Registry Worker_Pool Server_Connection Consul Tcp_Transport Rpc_Client Result_Channel Connection_Io_Loop Uring_Loop
begin

text \<open>
  Verification of the xRPC library (C++), a multiplexed RPC framework over TCP.
\<close>

end
